(* ===== verification/Prelude.thy ===== *)
theory Prelude
  imports Main "HOL-Library.Word" "HOL-Library.Char_ord"
begin

text \<open>
  What the components share: the development's named theorem collections, Go's
  decimal text (\<^verbatim>\<open>strconv.Itoa\<close>, \<^verbatim>\<open>strconv.FormatUint\<close>,
  \<^verbatim>\<open>strconv.ParseUint\<close>, the \<^verbatim>\<open>%0nd\<close> verbs), \<^verbatim>\<open>strings.CutPrefix\<close>,
  and big-endian integers (\<^verbatim>\<open>encoding/binary\<close>). A Go string or text document is
  a \<^typ>\<open>string\<close>: Isabelle characters are bytes, as Go's are. A binary encoding is an
  \<^typ>\<open>8 word list\<close>.
\<close>

named_theorems decimal \<open>facts on decimal text\<close>
named_theorems codec \<open>round trips of the encodings\<close>
named_theorems preserved \<open>an operation keeps an invariant\<close>

type_synonym byte = "8 word"
type_synonym bytes = "8 word list"

subsection \<open>Decimal text\<close>

definition digit_char :: "nat \<Rightarrow> char" where
  "digit_char d = char_of (48 + d)"

definition isDigit :: "char \<Rightarrow> bool" where
  "isDigit c \<longleftrightarrow> CHR ''0'' \<le> c \<and> c \<le> CHR ''9''"

definition digit_val :: "char \<Rightarrow> nat" where
  "digit_val c = of_char c - 48"

fun dec :: "nat \<Rightarrow> string" where
  "dec n = (if n < 10 then [digit_char n] else dec (n div 10) @ [digit_char (n mod 10)])"

declare dec.simps [simp del]

definition undec :: "string \<Rightarrow> nat" where
  "undec s = foldl (\<lambda>v c. v * 10 + digit_val c) 0 s"

definition pad :: "nat \<Rightarrow> nat \<Rightarrow> string" where
  "pad k n = replicate (k - length (dec n)) (CHR ''0'') @ dec n"

definition parse_uint :: "nat \<Rightarrow> string \<Rightarrow> nat option" where
  "parse_uint w s =
     (if s = [] \<or> \<not> list_all isDigit s then None
      else if undec s < 2 ^ w then Some (undec s) else None)"

lemma isDigit_of_char [decimal]: "isDigit c \<longleftrightarrow> (48::nat) \<le> of_char c \<and> of_char c \<le> (57::nat)"
  by (simp add: isDigit_def less_eq_char_def)

lemma of_char_digit_char [simp]: "d < 10 \<Longrightarrow> of_char (digit_char d) = (48 + d :: nat)"
  by (simp add: digit_char_def)

lemma digit_char_simps [simp]:
  "digit_char 0 = CHR ''0''" "digit_char (Suc 0) = CHR ''1''" "digit_char 1 = CHR ''1''"
  "digit_char 2 = CHR ''2''" "digit_char 3 = CHR ''3''" "digit_char 4 = CHR ''4''"
  "digit_char 5 = CHR ''5''" "digit_char 6 = CHR ''6''" "digit_char 7 = CHR ''7''"
  "digit_char 8 = CHR ''8''" "digit_char 9 = CHR ''9''"
  by (simp_all add: digit_char_def char_of_eq_iff)

lemma isDigit_digit_char [simp]: "d < 10 \<Longrightarrow> isDigit (digit_char d)"
  by (simp add: isDigit_of_char)

lemma digit_val_digit_char [simp]: "d < 10 \<Longrightarrow> digit_val (digit_char d) = d"
  by (simp add: digit_val_def)

lemma digit_char_digit_val: "isDigit c \<Longrightarrow> digit_char (digit_val c) = c"
  by (simp add: isDigit_of_char digit_char_def digit_val_def)

lemma digit_val_less: "isDigit c \<Longrightarrow> digit_val c < 10"
  unfolding isDigit_of_char digit_val_def by arith

lemma dec_digits [simp]: "list_all isDigit (dec n)"
proof (induction n rule: dec.induct)
  case (1 n)
  then show ?case by (cases "n < 10") (simp_all add: dec.simps [of n])
qed

lemma dec_all_digits: "c \<in> set (dec n) \<Longrightarrow> isDigit c"
  using dec_digits [of n] by (simp add: list_all_iff)

lemma dec_not_Nil [simp]: "dec n \<noteq> []"
  by (subst dec.simps) simp

lemma undec_Nil [simp]: "undec [] = 0"
  by (simp add: undec_def)

lemma undec_snoc: "undec (s @ [c]) = undec s * 10 + digit_val c"
  by (simp add: undec_def)

lemma undec_dec [simp]: "undec (dec n) = n"
proof (induction n rule: dec.induct)
  case (1 n)
  then show ?case
    by (cases "n < 10") (simp_all add: dec.simps [of n] undec_snoc, simp add: undec_def)
qed

lemma dec_inj: "dec m = dec n \<longleftrightarrow> m = n"
  using undec_dec by metis

lemma undec_zeros: "undec (replicate k (CHR ''0'') @ s) = undec s"
  by (induction k) (simp_all add: undec_def digit_val_def)

lemma undec_less: "list_all isDigit w \<Longrightarrow> undec w < 10 ^ length w"
proof (induction w rule: rev_induct)
  case (snoc c w)
  then have "undec w < 10 ^ length w" "digit_val c < 10" by (simp_all add: digit_val_less)
  then show ?case by (simp add: undec_snoc)
qed simp

lemma undec_pad [simp]: "undec (pad k n) = n"
  by (simp add: pad_def undec_zeros)

lemma pad_digits [simp]: "list_all isDigit (pad k n)"
  using dec_digits [of n] by (simp add: pad_def list_all_append) (simp add: list_all_iff isDigit_def)

lemma pad_not_Nil [simp]: "pad k n \<noteq> []"
  by (simp add: pad_def)

lemma parse_uint_pad: "n < 2 ^ w \<Longrightarrow> parse_uint w (pad k n) = Some n"
  by (simp add: parse_uint_def)

lemma parse_uint_dec: "n < 2 ^ w \<Longrightarrow> parse_uint w (dec n) = Some n"
  by (simp add: parse_uint_def)

lemma dec_length_bound: "n < 10 ^ k \<Longrightarrow> 0 < k \<Longrightarrow> length (dec n) \<le> k"
proof (induction n arbitrary: k rule: dec.induct)
  case (1 n)
  show ?case
  proof (cases "n < 10")
    case True
    then show ?thesis using "1.prems" by (simp add: dec.simps [of n])
  next
    case False
    from "1.prems" obtain j where k: "k = Suc j" by (cases k) auto
    have j: "0 < j" using "1.prems" False k by (cases j) auto
    have "n div 10 < 10 ^ j" using "1.prems" k by (simp add: less_mult_imp_div_less mult.commute)
    then have "length (dec (n div 10)) \<le> j" using False j "1.IH" by blast
    then show ?thesis using False k by (simp add: dec.simps [of n])
  qed
qed

lemma dec_hd_nonzero: "0 < n \<Longrightarrow> hd (dec n) \<noteq> CHR ''0''"
proof (induction n rule: dec.induct)
  case (1 n)
  show ?case
  proof (cases "n < 10")
    case True
    have "(of_char (digit_char n) :: nat) \<noteq> 48" using True "1.prems" by simp
    then have "digit_char n \<noteq> CHR ''0''" by auto
    then show ?thesis using True by (simp add: dec.simps [of n])
  next
    case False
    then show ?thesis using "1.IH" by (simp add: dec.simps [of n])
  qed
qed

subsection \<open>Prefixes and runs of digits\<close>

fun cut_prefix :: "'a list \<Rightarrow> 'a list \<Rightarrow> 'a list option" where
  "cut_prefix [] s = Some s"
| "cut_prefix (p # ps) [] = None"
| "cut_prefix (p # ps) (c # s) = (if p = c then cut_prefix ps s else None)"

lemma cut_prefix_append [simp]: "cut_prefix p (p @ s) = Some s"
  by (induction p) auto

lemma cut_prefix_Some: "cut_prefix p s = Some r \<longleftrightarrow> s = p @ r"
  by (induction p s rule: cut_prefix.induct) auto

lemma cut_prefix_None_iff: "cut_prefix p s = None \<longleftrightarrow> (\<forall>r. s \<noteq> p @ r)"
  by (metis cut_prefix_Some not_None_eq option.distinct(1))

definition cutDigits :: "string \<Rightarrow> string \<times> string" where
  "cutDigits s = (takeWhile isDigit s, dropWhile isDigit s)"

lemma cutDigits_append:
  "list_all isDigit d \<Longrightarrow> r = [] \<or> \<not> isDigit (hd r) \<Longrightarrow> cutDigits (d @ r) = (d, r)"
  by (cases r) (auto simp: cutDigits_def list_all_iff takeWhile_append2 dropWhile_append2 takeWhile_append)

lemma cutDigits_concat: "cutDigits s = (d, r) \<Longrightarrow> s = d @ r"
  by (auto simp: cutDigits_def)

lemma cutDigits_digits: "cutDigits s = (d, r) \<Longrightarrow> list_all isDigit d"
  by (auto simp: cutDigits_def list_all_iff dest: set_takeWhileD)

text \<open>\<^verbatim>\<open>bytes.Split\<close> at a one-byte separator: always at least one piece.\<close>

fun splitOn :: "'a \<Rightarrow> 'a list \<Rightarrow> 'a list list" where
  "splitOn c [] = [[]]"
| "splitOn c (x # xs) =
     (if x = c then [] # splitOn c xs
      else case splitOn c xs of [] \<Rightarrow> [[x]] | w # ws \<Rightarrow> (x # w) # ws)"

lemma splitOn_not_Nil [simp]: "splitOn c xs \<noteq> []"
  by (induction xs) (auto split: list.splits)

subsection \<open>Big-endian integers\<close>

lemma byte_less [simp]: "unat (c :: byte) < 256"
  using unsigned_less [of c, where ?'a = nat] by simp

fun be :: "nat \<Rightarrow> nat \<Rightarrow> bytes" where
  "be 0 n = []"
| "be (Suc k) n = be k (n div 256) @ [word_of_nat (n mod 256)]"

definition unbe :: "bytes \<Rightarrow> nat" where
  "unbe b = foldl (\<lambda>v c. v * 256 + unat c) 0 b"

lemma length_be [simp]: "length (be k n) = k"
  by (induction k arbitrary: n) simp_all

lemma unbe_Nil [simp]: "unbe [] = 0"
  by (simp add: unbe_def)

lemma unbe_snoc: "unbe (b @ [c]) = unbe b * 256 + unat c"
  by (simp add: unbe_def)

lemma unbe_be [simp]: "n < 256 ^ k \<Longrightarrow> unbe (be k n) = n"
proof (induction k arbitrary: n)
  case 0
  then show ?case by simp
next
  case (Suc k)
  have "n div 256 < 256 ^ k" using Suc.prems by (simp add: less_mult_imp_div_less mult.commute)
  moreover have "unat (word_of_nat (n mod 256) :: byte) = n mod 256"
    by (simp add: unat_of_nat)
  ultimately show ?case using Suc.IH by (simp add: unbe_snoc)
qed

lemma unbe_bound: "unbe b < 256 ^ length b"
proof (induction b rule: rev_induct)
  case Nil
  then show ?case by simp
next
  case (snoc c b)
  have "unat c < 256" by (rule byte_less)
  then have "unbe b * 256 + unat c < 256 ^ length b * 256" using snoc by linarith
  then show ?case by (simp add: unbe_snoc)
qed

lemma be_unbe: "be (length b) (unbe b) = b"
proof (induction b rule: rev_induct)
  case Nil
  then show ?case by simp
next
  case (snoc c b)
  have c: "unat c < 256" by (rule byte_less)
  then have "(unbe b * 256 + unat c) div 256 = unbe b" and "(unbe b * 256 + unat c) mod 256 = unat c"
    by simp_all
  with snoc show ?case by (simp add: unbe_snoc)
qed

lemma be_inj: "m < 256 ^ k \<Longrightarrow> n < 256 ^ k \<Longrightarrow> be k m = be k n \<longleftrightarrow> m = n"
  by (metis unbe_be)

subsection \<open>The bytes of a text\<close>

definition toBytes :: "string \<Rightarrow> bytes" where
  "toBytes s = map (\<lambda>c. word_of_nat (of_char c)) s"

definition ofBytes :: "bytes \<Rightarrow> string" where
  "ofBytes b = map (\<lambda>w. char_of (unat w)) b"

lemma ofBytes_toBytes [simp, codec]: "ofBytes (toBytes s) = s"
  by (induction s) (simp_all add: ofBytes_def toBytes_def unat_of_nat)

lemma toBytes_ofBytes [simp, codec]: "toBytes (ofBytes b) = b"
  by (induction b) (simp_all add: ofBytes_def toBytes_def)

lemma length_toBytes [simp]: "length (toBytes s) = length s"
  by (simp add: toBytes_def)

lemma length_ofBytes [simp]: "length (ofBytes b) = length b"
  by (simp add: ofBytes_def)

end
