(* ===== verification/Names.thy ===== *)
theory Names
  imports Prelude
begin

text \<open>
  The text codecs of subflux's enums. Every package keeps a table of snake_case names
  indexed by the enum's value, in which an empty entry is not a value;
  \<^verbatim>\<open>marshalName\<close> and \<^verbatim>\<open>unmarshalName\<close> (internal/rank/rank.go, and the same code in
  internal/timing/outcome.go and internal/status/jobs.go) read it both ways. The locale
  \<open>name_table\<close> is what a table must satisfy for the two to be inverse; every table of
  the modelled packages is an interpretation of it, in the theory of its package.
\<close>

definition marshalName :: "string list \<Rightarrow> nat \<Rightarrow> string option" where
  "marshalName names v =
     (if v < length names \<and> names ! v \<noteq> [] then Some (names ! v) else None)"

fun unmarshalFrom :: "nat \<Rightarrow> string list \<Rightarrow> string \<Rightarrow> nat option" where
  "unmarshalFrom i [] text = None"
| "unmarshalFrom i (n # ns) text =
     (if n \<noteq> [] \<and> n = text then Some i else unmarshalFrom (Suc i) ns text)"

definition unmarshalName :: "string list \<Rightarrow> string \<Rightarrow> nat option" where
  "unmarshalName names text = unmarshalFrom 0 names text"

definition named :: "string list \<Rightarrow> nat \<Rightarrow> bool" where
  "named names v \<longleftrightarrow> v < length names \<and> names ! v \<noteq> []"

lemma marshalName_Some [codec]:
  "marshalName names v = Some t \<longleftrightarrow> named names v \<and> t = names ! v"
  by (auto simp: marshalName_def named_def)

lemma unmarshalFrom_Some:
  "unmarshalFrom i names t = Some v \<Longrightarrow>
     i \<le> v \<and> v < i + length names \<and> names ! (v - i) = t \<and> t \<noteq> []"
proof (induction i names t rule: unmarshalFrom.induct)
  case (1 i t)
  then show ?case by simp
next
  case (2 i n ns t)
  then show ?case
  proof (cases "n \<noteq> [] \<and> n = t")
    case True
    with 2 show ?thesis by auto
  next
    case False
    with 2 have *: "Suc i \<le> v \<and> v < Suc i + length ns \<and> ns ! (v - Suc i) = t \<and> t \<noteq> []" by simp
    then have "v - i = Suc (v - Suc i)" by arith
    with * show ?thesis by simp
  qed
qed

lemma unmarshalFrom_None: "unmarshalFrom i names t = None \<Longrightarrow> t \<notin> set names \<or> t = []"
  by (induction i names t rule: unmarshalFrom.induct) (auto split: if_splits)

lemma unmarshalName_sound:
  "unmarshalName names t = Some v \<Longrightarrow> marshalName names v = Some t"
  using unmarshalFrom_Some [of 0 names t v] by (simp add: unmarshalName_def marshalName_def)

locale name_table =
  fixes names :: "string list"
  assumes distinct_names: "distinct (filter (\<lambda>n. n \<noteq> []) names)"
begin

lemma names_inj: "named names v \<Longrightarrow> named names w \<Longrightarrow> names ! v = names ! w \<Longrightarrow> v = w"
proof (rule ccontr)
  assume v: "named names v" and w: "named names w" and eq: "names ! v = names ! w" and ne: "v \<noteq> w"
  define i j where "i = min v w" and "j = max v w"
  have ij: "i < j" "j < length names" and e: "names ! i = names ! j" "names ! i \<noteq> []"
    using v w eq ne by (auto simp: i_def j_def named_def min_def max_def)
  have "filter (\<lambda>n. n \<noteq> []) names =
      filter (\<lambda>n. n \<noteq> []) (take j names) @ filter (\<lambda>n. n \<noteq> []) (drop j names)"
    by (metis append_take_drop_id filter_append)
  moreover have "names ! i \<in> set (filter (\<lambda>n. n \<noteq> []) (take j names))"
    using ij e by (auto simp: in_set_conv_nth intro!: exI [of _ i])
  moreover have "names ! i \<in> set (filter (\<lambda>n. n \<noteq> []) (drop j names))"
    using ij e by (auto simp: in_set_conv_nth intro!: exI [of _ 0])
  ultimately show False using distinct_names by auto
qed

lemma marshal_unmarshal: "marshalName names v = Some t \<Longrightarrow> unmarshalName names t = Some v"
proof -
  assume m: "marshalName names v = Some t"
  then have v: "named names v" and t: "t = names ! v" by (simp_all add: marshalName_Some)
  then have "t \<in> set names" "t \<noteq> []" by (auto simp: named_def)
  then obtain w where w: "unmarshalName names t = Some w"
    using unmarshalFrom_None [of 0 names t] by (cases "unmarshalName names t") (auto simp: unmarshalName_def)
  then have "named names w" "t = names ! w" using unmarshalName_sound by (auto simp: marshalName_Some)
  with v t w names_inj show ?thesis by metis
qed

lemma unmarshal_iff: "unmarshalName names t = Some v \<longleftrightarrow> marshalName names v = Some t"
  using marshal_unmarshal unmarshalName_sound by blast

end

end
