(* ===== verification/MediaKey.thy ===== *)
theory MediaKey
  imports Names
begin

text \<open>
  internal/media: the key an episode or movie is stored, matched and served by. The
  record \<open>RootKey\<close> is key.go's struct of a kind, a scheme and a 64-bit id; \<open>Key\<close> adds
  the 16-bit season and episode. Kinds and schemes are Go's \<^verbatim>\<open>uint8\<close> constants, so a
  byte read from storage that names none is representable, as in the code.
\<close>

type_synonym Kind = byte
type_synonym Scheme = byte

abbreviation Episode :: Kind where "Episode \<equiv> 1"
abbreviation Movie :: Kind where "Movie \<equiv> 2"

abbreviation None_Scheme :: Scheme where "None_Scheme \<equiv> 0"
abbreviation TVDB :: Scheme where "TVDB \<equiv> 1"
abbreviation TMDB :: Scheme where "TMDB \<equiv> 2"
abbreviation IMDb :: Scheme where "IMDb \<equiv> 3"

record RootKey =
  kind :: Kind
  scheme :: Scheme
  id_of :: "64 word"

record Key =
  root :: RootKey
  season :: "16 word"
  episode :: "16 word"

record ExternalIDs =
  tvdb_id :: "64 word"
  tmdb_id :: "64 word"
  imdb_id :: "64 word"

record Numbering =
  nscheme :: Scheme
  nseason :: int
  nepisode :: int

definition zeroRoot :: RootKey where
  "zeroRoot = \<lparr>kind = 0, scheme = 0, id_of = 0\<rparr>"

definition zeroKey :: Key where
  "zeroKey = \<lparr>root = zeroRoot, season = 0, episode = 0\<rparr>"

subsection \<open>Bounds and choice\<close>

definition ValidExternalID :: "64 word \<Rightarrow> bool" where
  "ValidExternalID i \<longleftrightarrow> 1 \<le> i \<and> i < push_bit 53 1"

definition ValidEpisodeNumber :: "int \<Rightarrow> bool" where
  "ValidEpisodeNumber n \<longleftrightarrow> 0 \<le> n \<and> n \<le> 65535"

definition ids_of :: "ExternalIDs \<Rightarrow> Scheme \<Rightarrow> 64 word option" where
  "ids_of e s =
     (let i = (if s = TVDB then Some (tvdb_id e)
               else if s = TMDB then Some (tmdb_id e)
               else if s = IMDb then Some (imdb_id e) else None)
      in case i of None \<Rightarrow> None
         | Some v \<Rightarrow> if ValidExternalID v then Some v else None)"

definition toUint16 :: "int \<Rightarrow> 16 word option" where
  "toUint16 n = (if ValidEpisodeNumber n then Some (word_of_int n) else None)"

fun chooseMovie :: "ExternalIDs \<Rightarrow> Scheme list \<Rightarrow> Key option" where
  "chooseMovie ids [] = None"
| "chooseMovie ids (s # ss) =
     (case ids_of ids s of
        Some i \<Rightarrow> Some \<lparr>root = \<lparr>kind = Movie, scheme = s, id_of = i\<rparr>, season = 0, episode = 0\<rparr>
      | None \<Rightarrow> chooseMovie ids ss)"

definition Choose :: "Kind \<Rightarrow> ExternalIDs \<Rightarrow> Numbering \<Rightarrow> Key option" where
  "Choose k ids n =
     (if k = Episode then
        (case (ids_of ids (nscheme n), toUint16 (nseason n), toUint16 (nepisode n)) of
           (Some i, Some s, Some e) \<Rightarrow>
             Some \<lparr>root = \<lparr>kind = Episode, scheme = nscheme n, id_of = i\<rparr>, season = s, episode = e\<rparr>
         | _ \<Rightarrow> None)
      else if k = Movie then chooseMovie ids [TMDB, IMDb]
      else None)"

subsection \<open>Text\<close>

definition keyPrefixes :: "(string \<times> Kind \<times> Scheme) list" where
  "keyPrefixes = [(''tmdb-'', Movie, TMDB), (''tt'', Movie, IMDb), (''tvdb-'', Episode, TVDB),
     (''tmdbtv-'', Episode, TMDB), (''imdbtv-tt'', Episode, IMDb)]"

definition maxKeyText :: nat where "maxKeyText = 64"

definition idText :: "Scheme \<Rightarrow> 64 word \<Rightarrow> string" where
  "idText s i = (if s = IMDb then pad 7 (unat i) else dec (unat i))"

fun rootStringIn :: "(string \<times> Kind \<times> Scheme) list \<Rightarrow> RootKey \<Rightarrow> string" where
  "rootStringIn [] r = []"
| "rootStringIn ((text, k, s) # ps) r =
     (if k = kind r \<and> s = scheme r then text @ idText (scheme r) (id_of r) else rootStringIn ps r)"

definition RootKey_String :: "RootKey \<Rightarrow> string" where
  "RootKey_String r = rootStringIn keyPrefixes r"

definition Key_String :: "Key \<Rightarrow> string" where
  "Key_String k =
     (if kind (root k) \<noteq> Episode then RootKey_String (root k)
      else RootKey_String (root k) @ ''-s'' @ pad 2 (unat (season k)) @ ''e'' @ pad 2 (unat (episode k)))"

fun parseRootIn :: "(string \<times> Kind \<times> Scheme) list \<Rightarrow> string \<Rightarrow> (RootKey \<times> string) option" where
  "parseRootIn [] s = None"
| "parseRootIn ((text, k, sc) # ps) s =
     (case cut_prefix text s of
        None \<Rightarrow> parseRootIn ps s
      | Some rest \<Rightarrow>
          (let (digits, rest') = cutDigits rest in
           case parse_uint 64 digits of
             None \<Rightarrow> None
           | Some i \<Rightarrow>
               if \<not> ValidExternalID (word_of_nat i) \<or> idText sc (word_of_nat i) \<noteq> digits then None
               else Some (\<lparr>kind = k, scheme = sc, id_of = word_of_nat i\<rparr>, rest')))"

definition parseRoot :: "string \<Rightarrow> (RootKey \<times> string) option" where
  "parseRoot s = parseRootIn keyPrefixes s"

definition cutNumber :: "string \<Rightarrow> (16 word \<times> string) option" where
  "cutNumber s =
     (let (digits, rest) = cutDigits s in
      case parse_uint 16 digits of
        None \<Rightarrow> None
      | Some v \<Rightarrow> if pad 2 v \<noteq> digits then None else Some (word_of_nat v, rest))"

definition parseEpisode :: "string \<Rightarrow> (16 word \<times> 16 word) option" where
  "parseEpisode s =
     (case cut_prefix ''-s'' s of None \<Rightarrow> None | Some s1 \<Rightarrow>
      (case cutNumber s1 of None \<Rightarrow> None | Some (sn, s2) \<Rightarrow>
       (case cut_prefix ''e'' s2 of None \<Rightarrow> None | Some s3 \<Rightarrow>
        (case cutNumber s3 of None \<Rightarrow> None | Some (ep, s4) \<Rightarrow>
           if s4 \<noteq> [] then None else Some (sn, ep)))))"

definition ParseKey :: "string \<Rightarrow> Key option" where
  "ParseKey s =
     (if maxKeyText < length s then None
      else case parseRoot s of
        None \<Rightarrow> None
      | Some (r, rest) \<Rightarrow>
          if kind r = Movie \<and> rest = [] then Some \<lparr>root = r, season = 0, episode = 0\<rparr>
          else if kind r = Episode then
            (case parseEpisode rest of None \<Rightarrow> None
             | Some (sn, ep) \<Rightarrow> Some \<lparr>root = r, season = sn, episode = ep\<rparr>)
          else None)"

definition ParseRootKey :: "string \<Rightarrow> RootKey option" where
  "ParseRootKey s =
     (if maxKeyText < length s then None
      else case parseRoot s of
        Some (r, rest) \<Rightarrow> if rest = [] then Some r else None
      | None \<Rightarrow> None)"

subsection \<open>Stored bytes\<close>

definition RootKey_Bytes :: "RootKey \<Rightarrow> bytes" where
  "RootKey_Bytes r = [kind r, scheme r] @ be 8 (unat (id_of r))"

definition Key_Bytes :: "Key \<Rightarrow> bytes" where
  "Key_Bytes k = RootKey_Bytes (root k) @ be 2 (unat (season k)) @ be 2 (unat (episode k))"

definition RootKeyFromBytes :: "bytes \<Rightarrow> RootKey option" where
  "RootKeyFromBytes b =
     (if length b \<noteq> 10 then None
      else let r = \<lparr>kind = b ! 0, scheme = b ! 1, id_of = word_of_nat (unbe (drop 2 b))\<rparr>
           in if RootKey_String r = [] \<or> \<not> ValidExternalID (id_of r) then None else Some r)"

definition KeyFromBytes :: "bytes \<Rightarrow> Key option" where
  "KeyFromBytes b =
     (if length b \<noteq> 14 then None
      else case RootKeyFromBytes (take 10 b) of
        None \<Rightarrow> None
      | Some r \<Rightarrow>
          let k = \<lparr>root = r, season = word_of_nat (unbe (take 2 (drop 10 b))),
                   episode = word_of_nat (unbe (drop 12 b))\<rparr>
          in if kind r = Movie \<and> (season k \<noteq> 0 \<or> episode k \<noteq> 0) then None else Some k)"

subsection \<open>Well-formed keys\<close>

text \<open>
  \<open>validRoot\<close> and \<open>validKey\<close> are what key.go's comments promise of every non-zero value:
  a kind and scheme some key text spells, an id \<open>ValidExternalID\<close> admits, and no season
  or episode on a movie.
\<close>

definition validRoot :: "RootKey \<Rightarrow> bool" where
  "validRoot r \<longleftrightarrow> (kind r, scheme r) \<in> snd ` set keyPrefixes \<and> ValidExternalID (id_of r)"

definition validKey :: "Key \<Rightarrow> bool" where
  "validKey k \<longleftrightarrow> validRoot (root k) \<and> (kind (root k) = Movie \<longrightarrow> season k = 0 \<and> episode k = 0)"

definition prefixOf :: "RootKey \<Rightarrow> string" where
  "prefixOf r = (if kind r = Movie then (if scheme r = TMDB then ''tmdb-'' else ''tt'')
     else if scheme r = TVDB then ''tvdb-'' else if scheme r = TMDB then ''tmdbtv-'' else ''imdbtv-tt'')"

lemma validRoot_cases:
  "validRoot r \<Longrightarrow> kind r = Movie \<and> scheme r = TMDB \<or> kind r = Movie \<and> scheme r = IMDb \<or>
     kind r = Episode \<and> scheme r = TVDB \<or> kind r = Episode \<and> scheme r = TMDB \<or>
     kind r = Episode \<and> scheme r = IMDb"
  by (auto simp: validRoot_def keyPrefixes_def)

lemma validRoot_kind: "validRoot r \<Longrightarrow> kind r = Movie \<or> kind r = Episode"
  using validRoot_cases by blast

lemma RootKey_String_valid: "validRoot r \<Longrightarrow> RootKey_String r = prefixOf r @ idText (scheme r) (id_of r)"
  using validRoot_cases [of r] by (auto simp: RootKey_String_def keyPrefixes_def prefixOf_def)

lemma RootKey_String_empty_iff:
  "RootKey_String r = [] \<longleftrightarrow> (kind r, scheme r) \<notin> snd ` set keyPrefixes"
  by (auto simp: RootKey_String_def keyPrefixes_def)

lemma RootKey_String_zero [simp]: "RootKey_String zeroRoot = []"
  by (simp add: RootKey_String_empty_iff zeroRoot_def keyPrefixes_def)

lemma ValidExternalID_nat: "ValidExternalID i \<longleftrightarrow> 1 \<le> unat i \<and> unat i < 2 ^ 53"
  by (simp add: ValidExternalID_def word_le_nat_alt word_less_nat_alt unsigned_push_bit_eq push_bit_eq_mult)

lemma idText_digits [simp]: "list_all isDigit (idText s i)"
  by (simp add: idText_def)

lemma idText_not_Nil [simp]: "idText s i \<noteq> []"
  by (simp add: idText_def)

lemma parse_idText [simp]: "parse_uint 64 (idText s i) = Some (unat i)"
  using unsigned_less [of i, where ?'a = nat] by (simp add: idText_def parse_uint_pad parse_uint_dec)

lemma parseRootIn_append:
  assumes "(text, k, sc) = (prefixOf r, kind r, scheme r)" and "validRoot r"
    and "rest = [] \<or> \<not> isDigit (hd rest)"
  shows "parseRootIn ((text, k, sc) # ps) (prefixOf r @ idText (scheme r) (id_of r) @ rest) = Some (r, rest)"
  using assms by (simp add: cutDigits_append validRoot_def)

lemma parseRoot_string:
  assumes v: "validRoot r" and rest: "rest = [] \<or> \<not> isDigit (hd rest)"
  shows "parseRoot (RootKey_String r @ rest) = Some (r, rest)"
  using validRoot_cases [OF v] parseRootIn_append [OF _ v rest]
  unfolding parseRoot_def RootKey_String_valid [OF v]
  by (elim disjE) (simp_all add: keyPrefixes_def prefixOf_def)

lemma parseRootIn_sound:
  "parseRootIn ps s = Some (r, rest) \<Longrightarrow> \<exists>text. (text, kind r, scheme r) \<in> set ps \<and>
     ValidExternalID (id_of r) \<and> s = text @ idText (scheme r) (id_of r) @ rest"
proof (induction ps s rule: parseRootIn.induct)
  case (1 s)
  then show ?case by simp
next
  case (2 tx k sc ps s)
  show ?case
  proof (cases "cut_prefix tx s")
    case None
    with 2 show ?thesis by auto
  next
    case (Some rest')
    then have "s = tx @ rest'" by (simp add: cut_prefix_Some)
    moreover obtain digits rest'' where cd: "cutDigits rest' = (digits, rest'')" by fastforce
    ultimately show ?thesis using Some "2.prems" cutDigits_concat [OF cd]
      by (auto split: option.splits if_splits)
  qed
qed

lemma prefixOf_unique:
  "(text, kind r, scheme r) \<in> set keyPrefixes \<Longrightarrow> text = prefixOf r"
  by (auto simp: keyPrefixes_def prefixOf_def)

lemma parseRoot_sound:
  assumes "parseRoot s = Some (r, rest)"
  shows "validRoot r \<and> s = RootKey_String r @ rest"
proof -
  from assms obtain tx where t: "(tx, kind r, scheme r) \<in> set keyPrefixes"
    "ValidExternalID (id_of r)" "s = tx @ idText (scheme r) (id_of r) @ rest"
    unfolding parseRoot_def using parseRootIn_sound by blast
  then have v: "validRoot r" by (force simp: validRoot_def)
  with t show ?thesis by (simp add: RootKey_String_valid prefixOf_unique)
qed

lemma cutNumber_pad:
  "rest = [] \<or> \<not> isDigit (hd rest) \<Longrightarrow> cutNumber (pad 2 (unat n) @ rest) = Some (n, rest)"
  using unsigned_less [of n, where ?'a = nat] by (simp add: cutNumber_def cutDigits_append parse_uint_pad)

lemma cutNumber_sound: "cutNumber s = Some (n, rest) \<Longrightarrow> s = pad 2 (unat n) @ rest"
  by (auto simp: cutNumber_def parse_uint_def unat_of_nat split: prod.splits option.splits if_splits
      dest!: cutDigits_concat)

lemma not_isDigit_e [simp]: "\<not> isDigit (CHR ''e'')"
  by (simp add: isDigit_def)

lemma parseEpisode_string:
  "parseEpisode (''-s'' @ pad 2 (unat sn) @ ''e'' @ pad 2 (unat ep)) = Some (sn, ep)"
  using cutNumber_pad [of "[]" ep] cutNumber_pad [of "''e'' @ pad 2 (unat ep)" sn]
  by (simp add: parseEpisode_def)

lemma parseEpisode_sound:
  "parseEpisode s = Some (sn, ep) \<Longrightarrow> s = ''-s'' @ pad 2 (unat sn) @ ''e'' @ pad 2 (unat ep)"
  by (auto simp: parseEpisode_def cut_prefix_Some split: option.splits prod.splits if_splits
      dest!: cutNumber_sound)

lemma pad_length_bound: "n < 10 ^ k \<Longrightarrow> 0 < k \<Longrightarrow> j \<le> k \<Longrightarrow> length (pad j n) \<le> k"
  using dec_length_bound [of n k] by (simp add: pad_def)

lemma idText_length: "ValidExternalID i \<Longrightarrow> length (idText s i) \<le> 16"
proof -
  assume "ValidExternalID i"
  then have "unat i < 10 ^ 16" by (simp add: ValidExternalID_nat)
  then show ?thesis using pad_length_bound [of "unat i" 16 7] dec_length_bound [of "unat i" 16]
    by (simp add: idText_def)
qed

lemma pad2_length: "length (pad 2 (unat (n :: 16 word))) \<le> 5"
  using pad_length_bound [of "unat n" 5 2] unsigned_less [of n, where ?'a = nat] by simp

lemma RootKey_String_length: "validRoot r \<Longrightarrow> length (RootKey_String r) \<le> 26"
  using idText_length [of "id_of r" "scheme r"]
  by (auto simp: RootKey_String_valid validRoot_def prefixOf_def)

lemma Key_String_length: "validKey k \<Longrightarrow> length (Key_String k) \<le> maxKeyText"
  using RootKey_String_length [of "root k"] pad2_length [of "season k"] pad2_length [of "episode k"]
  by (simp add: Key_String_def validKey_def maxKeyText_def)

lemma Key_String_movie: "kind (root k) = Movie \<Longrightarrow> Key_String k = RootKey_String (root k)"
  by (simp add: Key_String_def)

lemma ParseKey_Key_String: "validKey k \<Longrightarrow> ParseKey (Key_String k) = Some k"
proof -
  assume v: "validKey k"
  then have r: "validRoot (root k)" by (simp add: validKey_def)
  have len: "\<not> maxKeyText < length (Key_String k)" using Key_String_length [OF v] by simp
  show ?thesis
  proof (cases "kind (root k) = Movie")
    case True
    then show ?thesis using v len parseRoot_string [OF r, of "[]"]
      by (simp add: ParseKey_def Key_String_movie validKey_def)
  next
    case False
    then have ep: "kind (root k) = Episode" using validRoot_kind [OF r] by simp
    let ?rest = "''-s'' @ pad 2 (unat (season k)) @ ''e'' @ pad 2 (unat (episode k))"
    have "parseRoot (RootKey_String (root k) @ ?rest) = Some (root k, ?rest)"
      by (rule parseRoot_string [OF r]) (simp add: isDigit_def)
    then show ?thesis using len ep parseEpisode_string [of "season k" "episode k"]
      by (simp add: ParseKey_def Key_String_def)
  qed
qed

lemma ParseKey_sound:
  assumes "ParseKey s = Some k"
  shows "validKey k \<and> s = Key_String k"
proof -
  from assms obtain r rest where pr: "parseRoot s = Some (r, rest)"
    by (auto simp: ParseKey_def split: if_splits option.splits)
  with parseRoot_sound have r: "validRoot r" "s = RootKey_String r @ rest" by blast+
  show ?thesis
  proof (cases "kind r = Movie \<and> rest = []")
    case True
    with assms pr have "k = \<lparr>root = r, season = 0, episode = 0\<rparr>"
      by (simp add: ParseKey_def split: if_splits)
    with True r show ?thesis by (simp add: validKey_def Key_String_def)
  next
    case False
    with assms pr obtain sn ep where k: "kind r = Episode" "parseEpisode rest = Some (sn, ep)"
        "k = \<lparr>root = r, season = sn, episode = ep\<rparr>"
      by (auto simp: ParseKey_def split: if_splits option.splits)
    with r parseEpisode_sound [OF k(2)] show ?thesis by (simp add: validKey_def Key_String_def)
  qed
qed

lemma ParseRootKey_iff: "ParseRootKey s = Some r \<longleftrightarrow> validRoot r \<and> s = RootKey_String r"
proof
  assume "ParseRootKey s = Some r"
  then have "parseRoot s = Some (r, [])" by (auto simp: ParseRootKey_def split: if_splits option.splits)
  from parseRoot_sound [OF this] show "validRoot r \<and> s = RootKey_String r" by simp
next
  assume r: "validRoot r \<and> s = RootKey_String r"
  then have "\<not> maxKeyText < length s" using RootKey_String_length [of r] by (simp add: maxKeyText_def)
  then show "ParseRootKey s = Some r" using r parseRoot_string [of r "[]"] by (simp add: ParseRootKey_def)
qed

lemma length_RootKey_Bytes [simp]: "length (RootKey_Bytes r) = 10"
  by (simp add: RootKey_Bytes_def)

lemma unbe_be64: "unbe (be 8 (unat (i :: 64 word))) = unat i"
  using unsigned_less [of i, where ?'a = nat] by simp

lemma unbe_be16: "unbe (be 2 (unat (i :: 16 word))) = unat i"
  using unsigned_less [of i, where ?'a = nat] by simp

lemma be_word64: "length b = 8 \<Longrightarrow> be 8 (unat (word_of_nat (unbe b) :: 64 word)) = b"
  using unbe_bound [of b] be_unbe [of b] by (simp add: unat_of_nat)

lemma be_word16: "length b = 2 \<Longrightarrow> be 2 (unat (word_of_nat (unbe b) :: 16 word)) = b"
  using unbe_bound [of b] be_unbe [of b] by (simp add: unat_of_nat)

lemma RootKeyFromBytes_iff: "RootKeyFromBytes b = Some r \<longleftrightarrow> validRoot r \<and> b = RootKey_Bytes r"
proof
  assume "validRoot r \<and> b = RootKey_Bytes r"
  then show "RootKeyFromBytes b = Some r"
    by (auto simp: RootKeyFromBytes_def RootKey_Bytes_def validRoot_def RootKey_String_empty_iff unbe_be64)
next
  assume R: "RootKeyFromBytes b = Some r"
  then have len: "length b = 10" by (simp add: RootKeyFromBytes_def split: if_splits)
  then obtain x y c where b: "b = x # y # c" "length c = 8"
    by (auto simp: length_Suc_conv numeral_eq_Suc)
  with R show "validRoot r \<and> b = RootKey_Bytes r"
    by (auto simp: RootKeyFromBytes_def RootKey_Bytes_def validRoot_def RootKey_String_empty_iff
        be_word64 Let_def split: if_splits; force)
qed

lemma KeyFromBytes_Key_Bytes: "validKey k \<Longrightarrow> KeyFromBytes (Key_Bytes k) = Some k"
  using RootKeyFromBytes_iff [of "RootKey_Bytes (root k)" "root k"]
  by (auto simp: KeyFromBytes_def Key_Bytes_def validKey_def unbe_be16)

lemma KeyFromBytes_sound:
  assumes K: "KeyFromBytes b = Some k"
  shows "validKey k \<and> b = Key_Bytes k"
proof -
  from K have len: "length b = 14" by (simp add: KeyFromBytes_def split: if_splits)
  from K obtain r where r: "RootKeyFromBytes (take 10 b) = Some r"
    by (auto simp: KeyFromBytes_def split: if_splits option.splits)
  have b: "b = take 10 b @ take 2 (drop 10 b) @ drop 12 b"
    using append_take_drop_id [of 10 b] append_take_drop_id [of 2 "drop 10 b"] by simp
  have k: "root k = r" "season k = word_of_nat (unbe (take 2 (drop 10 b)))"
    "episode k = word_of_nat (unbe (drop 12 b))"
    using K r by (auto simp: KeyFromBytes_def Let_def split: if_splits)
  have m: "kind r = Movie \<longrightarrow> season k = 0 \<and> episode k = 0"
    using K r by (auto simp: KeyFromBytes_def Let_def split: if_splits)
  have "be 2 (unat (season k)) = take 2 (drop 10 b)" "be 2 (unat (episode k)) = drop 12 b"
    unfolding k by (rule be_word16, simp add: len)+
  moreover have "validRoot r" "take 10 b = RootKey_Bytes r" using r by (simp_all add: RootKeyFromBytes_iff)
  ultimately show ?thesis using b m k(1) by (simp add: Key_Bytes_def validKey_def)
qed

lemma ids_of_valid: "ids_of e s = Some i \<Longrightarrow> ValidExternalID i \<and> s \<in> {TVDB, TMDB, IMDb}"
  by (auto simp: ids_of_def Let_def split: if_splits option.splits)

lemma toUint16_Some: "toUint16 n = Some w \<longleftrightarrow> ValidEpisodeNumber n \<and> uint w = n"
  by (auto simp: toUint16_def ValidEpisodeNumber_def uint_word_of_int)

subsection \<open>Properties\<close>

text \<open>C13. The text of a key is canonical: ParseKey accepts exactly the texts Key.String
  writes for the valid keys, and reads each back as the key it was written from. So one
  item has one text, and no other spelling, length or kind of text is a key.\<close>

theorem ParseKey_canonical: "ParseKey s = Some k \<longleftrightarrow> validKey k \<and> s = Key_String k"
  using ParseKey_Key_String ParseKey_sound by blast

text \<open>C25. The stored bytes of a key are canonical too: KeyFromBytes accepts exactly the
  fourteen-byte encodings of the valid keys.\<close>

theorem KeyFromBytes_canonical: "KeyFromBytes b = Some k \<longleftrightarrow> validKey k \<and> b = Key_Bytes k"
  using KeyFromBytes_Key_Bytes KeyFromBytes_sound by blast

text \<open>The id a caller gives under a scheme.\<close>

definition givenId :: "ExternalIDs \<Rightarrow> Scheme \<Rightarrow> 64 word \<Rightarrow> bool" where
  "givenId ids s i \<longleftrightarrow> (s = TVDB \<and> i = tvdb_id ids) \<or> (s = TMDB \<and> i = tmdb_id ids) \<or> (s = IMDb \<and> i = imdb_id ids)"

lemma ids_of_given: "ids_of ids s = Some i \<longleftrightarrow> givenId ids s i \<and> ValidExternalID i"
  by (auto simp: ids_of_def givenId_def)

lemma Choose_movie:
  "Choose Movie ids n = Some k \<longleftrightarrow> validKey k \<and> kind (root k) = Movie \<and>
     ((scheme (root k) = TMDB \<and> id_of (root k) = tmdb_id ids) \<or>
      (scheme (root k) = IMDb \<and> id_of (root k) = imdb_id ids \<and> \<not> ValidExternalID (tmdb_id ids)))"
  by (cases k, cases "root k")
    (auto simp: Choose_def ids_of_def validKey_def validRoot_def keyPrefixes_def split: option.splits)

lemma Choose_episode:
  "Choose Episode ids n = Some k \<longleftrightarrow> validKey k \<and> kind (root k) = Episode \<and> scheme (root k) = nscheme n
     \<and> givenId ids (nscheme n) (id_of (root k)) \<and> uint (season k) = nseason n \<and> uint (episode k) = nepisode n"
proof
  assume "Choose Episode ids n = Some k"
  then obtain i u v where c: "ids_of ids (nscheme n) = Some i" "toUint16 (nseason n) = Some u" "toUint16 (nepisode n) = Some v"
    "k = \<lparr>root = \<lparr>kind = Episode, scheme = nscheme n, id_of = i\<rparr>, season = u, episode = v\<rparr>"
    by (auto simp: Choose_def split: option.splits)
  then show "validKey k \<and> kind (root k) = Episode \<and> scheme (root k) = nscheme n
     \<and> givenId ids (nscheme n) (id_of (root k)) \<and> uint (season k) = nseason n \<and> uint (episode k) = nepisode n"
    using ids_of_valid [OF c(1)] by (auto simp: ids_of_given toUint16_Some validKey_def validRoot_def keyPrefixes_def)
next
  assume a: "validKey k \<and> kind (root k) = Episode \<and> scheme (root k) = nscheme n
     \<and> givenId ids (nscheme n) (id_of (root k)) \<and> uint (season k) = nseason n \<and> uint (episode k) = nepisode n"
  then have "ids_of ids (nscheme n) = Some (id_of (root k))" by (simp add: ids_of_given validKey_def validRoot_def)
  moreover have "toUint16 (nseason n) = Some (season k)" "toUint16 (nepisode n) = Some (episode k)"
    using a unsigned_less [of "season k", where ?'a = int] unsigned_less [of "episode k", where ?'a = int] uint_nonnegative [of "season k"] uint_nonnegative [of "episode k"]
    by (auto simp: toUint16_Some ValidEpisodeNumber_def)
  ultimately show "Choose Episode ids n = Some k" using a by (cases k, cases "root k") (simp add: Choose_def)
qed

text \<open>C26. What \<open>Choose\<close> answers, and when: a valid key of the kind asked for; for an episode by the id of the numbering's
  scheme, with its numbers and no wrap into sixteen bits; for a movie by its TMDB id, or its IMDb id when the
  TMDB one is refused. No key means that no such key exists.\<close>

theorem Choose_valid:
  "Choose knd ids n = Some k \<longleftrightarrow> validKey k \<and> kind (root k) = knd \<and>
     ((knd = Episode \<and> scheme (root k) = nscheme n \<and> givenId ids (nscheme n) (id_of (root k))
        \<and> uint (season k) = nseason n \<and> uint (episode k) = nepisode n)
      \<or> (knd = Movie \<and> scheme (root k) = TMDB \<and> id_of (root k) = tmdb_id ids)
      \<or> (knd = Movie \<and> scheme (root k) = IMDb \<and> id_of (root k) = imdb_id ids \<and> ValidExternalID (tmdb_id ids) = False))"
proof -
  consider "knd = Episode" | "knd = Movie" | "knd \<noteq> Episode" "knd \<noteq> Movie" by blast
  then show ?thesis
  proof cases
    case 1
    then show ?thesis using Choose_episode [of ids n k] by auto
  next
    case 2
    then show ?thesis using Choose_movie [of ids n k] by auto
  next
    case 3
    then show ?thesis by (simp add: Choose_def)
  qed
qed

theorem Choose_valid_witness:
  "Choose Movie \<lparr>tvdb_id = 0, tmdb_id = 0, imdb_id = 944947\<rparr> \<lparr>nscheme = TMDB, nseason = 2, nepisode = 3\<rparr>
     = Some \<lparr>root = \<lparr>kind = Movie, scheme = IMDb, id_of = 944947\<rparr>, season = 0, episode = 0\<rparr>"
  by (simp add: Choose_valid validKey_def validRoot_def keyPrefixes_def ValidExternalID_def)

text \<open>A prefix scan over one root's ten bytes reaches exactly the keys of that root.\<close>

theorem root_prefix_scan: "(\<exists>rest. Key_Bytes k = RootKey_Bytes r @ rest) \<longleftrightarrow> root k = r"
proof
  assume "\<exists>rest. Key_Bytes k = RootKey_Bytes r @ rest"
  then have "RootKey_Bytes (root k) = RootKey_Bytes r"
    by (auto simp: Key_Bytes_def append_eq_append_conv)
  then have "kind (root k) = kind r" "scheme (root k) = scheme r" "be 8 (unat (id_of (root k))) = be 8 (unat (id_of r))"
    by (auto simp: RootKey_Bytes_def)
  then show "root k = r" by (metis RootKey.equality old.unit.exhaust unbe_be64 word_unat_eq_iff)
qed (auto simp: Key_Bytes_def)

end
