(* ===== verification/F64.thy ===== *)
theory F64
  imports Complex_Main Prelude "HOL-Library.Log_Nat"
begin

text \<open>
  Go's \<^verbatim>\<open>float64\<close>: a \<^typ>\<open>64 word\<close> of IEEE 754 bits (\<^verbatim>\<open>math.Float64bits\<close>) with its
  rational value, and the rounding every arithmetic operation applies to its exact
  result: to 53 significant bits, ties to the even neighbour. The exponent of a result
  is not bounded here: the operations the model performs have results between \<open>2 ^ -60\<close>
  and \<open>2 ^ 60\<close>, far inside the format's normal range.
\<close>

type_synonym f64 = "64 word"

subsection \<open>Bits and values\<close>

definition f64_neg :: "f64 \<Rightarrow> bool" where
  "f64_neg b \<longleftrightarrow> 2 ^ 63 \<le> unat b"

definition f64_exp :: "f64 \<Rightarrow> nat" where
  "f64_exp b = unat b div 2 ^ 52 mod 2 ^ 11"

definition f64_man :: "f64 \<Rightarrow> nat" where
  "f64_man b = unat b mod 2 ^ 52"

definition f64_isNaN :: "f64 \<Rightarrow> bool" where
  "f64_isNaN b \<longleftrightarrow> f64_exp b = 2047 \<and> f64_man b \<noteq> 0"

text \<open>The infinities read as \<open>2 ^ 1024\<close> with their sign: above, respectively below, every
  finite value, so comparing the values compares the floats.\<close>

definition f64_val :: "f64 \<Rightarrow> rat" where
  "f64_val b =
     (if f64_neg b then -1 else 1) *
     (if f64_exp b = 0 then of_nat (f64_man b) * 2 powi (-1074)
      else of_nat (2 ^ 52 + f64_man b) * 2 powi (int (f64_exp b) - 1075))"

subsection \<open>Rounding\<close>

definition rexp :: "rat \<Rightarrow> int" where
  "rexp y = (case quotient_of \<bar>y\<bar> of (n, d) \<Rightarrow>
     let k = bitlen n - bitlen d in if 2 powi k \<le> \<bar>y\<bar> then k else k - 1)"

definition rne :: "rat \<Rightarrow> int" where
  "rne x = (let f = \<lfloor>x\<rfloor>; d = x - of_int f
     in if d < 1 / 2 then f else if 1 / 2 < d then f + 1 else if even f then f else f + 1)"

definition rnd :: "rat \<Rightarrow> rat" where
  "rnd y = (if y = 0 then 0
     else let e = rexp y - 52 in of_int (rne (y * 2 powi (- e))) * 2 powi e)"

text \<open>\<^verbatim>\<open>math.Round\<close>: the nearest integer, halves away from zero.\<close>

definition math_Round :: "rat \<Rightarrow> int" where
  "math_Round x = (if x < 0 then - \<lfloor>- x + 1 / 2\<rfloor> else \<lfloor>x + 1 / 2\<rfloor>)"

lemma two_powi_le_iff: "(2 powi a :: rat) \<le> 2 powi b \<longleftrightarrow> a \<le> b"
proof
  assume "(2 powi a :: rat) \<le> 2 powi b"
  then show "a \<le> b" using power_int_strict_increasing [of b a "2::rat"] by fastforce
qed (rule power_int_increasing, simp_all)

lemma bitlen_pos: "0 < n \<Longrightarrow> 2 powi (bitlen n - 1) \<le> (of_int n :: rat) \<and> (of_int n :: rat) < 2 powi bitlen n"
proof -
  assume n: "0 < n"
  then have b: "2 ^ nat (bitlen n - 1) \<le> n \<and> n < 2 ^ nat (bitlen n)" by (rule bitlen_bounds)
  have p: "0 \<le> bitlen n - 1" using n bitlen_nonneg [of n] bitlen_eq_zero_iff [of n] by linarith
  have "(2::rat) powi (bitlen n - 1) = of_int (2 ^ nat (bitlen n - 1))"
    "(2::rat) powi bitlen n = of_int (2 ^ nat (bitlen n))"
    using p by (simp_all add: power_int_def)
  then show ?thesis using b by (metis of_int_le_iff of_int_less_iff)
qed

lemma rexp_bounds:
  assumes y: "y \<noteq> 0"
  shows "2 powi rexp y \<le> \<bar>y\<bar>" and "\<bar>y\<bar> < 2 powi (rexp y + 1)"
proof -
  obtain n d where q: "quotient_of \<bar>y\<bar> = (n, d)" by fastforce
  have d: "0 < d" using quotient_of_denom_pos [OF q] .
  have yv: "\<bar>y\<bar> = of_int n / of_int d" using quotient_of_div [OF q] .
  have n: "0 < n" using y d yv by (metis abs_le_zero_iff divide_nonpos_pos linorder_not_less of_int_0_less_iff of_int_le_0_iff)
  let ?k = "bitlen n - bitlen d"
  note bn = bitlen_pos [OF n] and bd = bitlen_pos [OF d]
  have up: "\<bar>y\<bar> < 2 powi (?k + 1)"
  proof -
    have "(of_int n :: rat) < 2 powi bitlen n" using bn by simp
    also have "2 powi bitlen n = (2 powi (?k + 1)) * (2 powi (bitlen d - 1) :: rat)"
      by (simp flip: power_int_add)
    also have "\<dots> \<le> 2 powi (?k + 1) * of_int d" using bd by (simp add: mult_left_mono)
    finally show ?thesis using d by (simp add: yv pos_divide_less_eq)
  qed
  have low: "2 powi (?k - 1) \<le> \<bar>y\<bar>"
  proof -
    have "2 powi (?k - 1) * of_int d \<le> (2 powi (?k - 1)) * (2 powi bitlen d :: rat)"
      using bd by (simp add: mult_left_mono)
    also have "\<dots> = 2 powi (bitlen n - 1)" by (simp flip: power_int_add)
    also have "\<dots> \<le> (of_int n :: rat)" using bn by simp
    finally show ?thesis using d by (simp add: yv pos_le_divide_eq)
  qed
  show "2 powi rexp y \<le> \<bar>y\<bar>" and "\<bar>y\<bar> < 2 powi (rexp y + 1)"
    using up low by (simp_all add: rexp_def q Let_def)
qed

lemma rne_error: "\<bar>of_int (rne x) - x\<bar> \<le> 1 / 2"
proof -
  have "of_int \<lfloor>x\<rfloor> \<le> x" "x < of_int \<lfloor>x\<rfloor> + 1" using floor_correct [of x] by simp_all
  then show ?thesis by (simp add: rne_def Let_def abs_le_iff)
qed

lemma rne_int [simp]: "rne (of_int i) = i"
  by (simp add: rne_def)

lemma rnd_0 [simp]: "rnd 0 = 0"
  by (simp add: rnd_def)

lemma rnd_error:
  assumes "y \<noteq> 0"
  shows "\<bar>rnd y - y\<bar> \<le> 2 powi (rexp y - 53)"
proof -
  let ?e = "rexp y - 52"
  let ?x = "y * 2 powi (- ?e)"
  have y: "y = ?x * 2 powi ?e" by (simp add: mult.assoc flip: power_int_add)
  have "\<bar>rnd y - y\<bar> = \<bar>of_int (rne ?x) - ?x\<bar> * 2 powi ?e"
    using assms by (subst (2) y) (simp add: rnd_def Let_def abs_mult flip: left_diff_distrib)
  also have "\<dots> \<le> 1 / 2 * 2 powi ?e" by (rule mult_right_mono [OF rne_error]) simp
  also have "\<dots> = 2 powi (rexp y - 53)" by (simp add: power_int_diff)
  finally show ?thesis .
qed

lemma rnd_rel_error: "\<bar>rnd y - y\<bar> \<le> \<bar>y\<bar> / 2 ^ 53"
proof (cases "y = 0")
  case False
  have "\<bar>rnd y - y\<bar> \<le> 2 powi rexp y / 2 ^ 53" using rnd_error [OF False] by (simp add: power_int_diff)
  also have "\<dots> \<le> \<bar>y\<bar> / 2 ^ 53" using rexp_bounds(1) [OF False] by (simp add: divide_right_mono)
  finally show ?thesis .
qed simp

lemma rnd_scaled:
  "y \<noteq> 0 \<Longrightarrow> y * 2 powi (- (rexp y - 52)) = of_int j \<Longrightarrow> rnd y = of_int j * 2 powi (rexp y - 52)"
  by (simp only: rnd_def Let_def if_False rne_int)

text \<open>A value with at most 53 significant bits is not changed.\<close>

lemma rnd_exact:
  assumes m: "\<bar>m\<bar> \<le> 2 ^ 53" and y: "y = of_int m * 2 powi e"
  shows "rnd y = y"
proof (cases "m = 0")
  case True
  then show ?thesis using y by simp
next
  case False
  have y0: "y \<noteq> 0" using False y by simp
  have "2 powi rexp y \<le> \<bar>y\<bar>" by (rule rexp_bounds [OF y0])
  also have "\<bar>y\<bar> = of_int \<bar>m\<bar> * 2 powi e" by (simp add: y abs_mult)
  also have "\<dots> \<le> of_int (2 ^ 53) * 2 powi e" using m by (intro mult_right_mono) (simp_all only: of_int_le_iff, simp)
  also have "\<dots> = 2 powi (53 + e)" by (simp add: power_int_add)
  finally have le: "rexp y \<le> 53 + e" by (simp only: two_powi_le_iff)
  show ?thesis
  proof (cases "rexp y = 53 + e")
    case True
    then have "2 powi (53 + e) \<le> of_int \<bar>m\<bar> * (2 powi e :: rat)"
      using rexp_bounds(1) [OF y0] by (simp add: y abs_mult)
    then have "(of_int (2 ^ 53) :: rat) \<le> of_int \<bar>m\<bar>" by (simp add: power_int_add)
    then have "\<bar>m\<bar> = 2 ^ 53" using m by (simp only: of_int_le_iff)
    then have "m = 2 * 2 ^ 52 \<or> m = 2 * - (2 ^ 52)" by (auto simp: abs_if split: if_splits)
    then obtain i where i: "m = 2 * i" by blast
    have r: "rexp y - 52 = e + 1" using True by simp
    have y2: "y = of_int i * 2 powi (e + 1)" by (simp add: y i power_int_add)
    then have "y * 2 powi (- (e + 1)) = of_int i" by (simp add: mult.assoc flip: power_int_add)
    then have "rnd y = of_int i * 2 powi (e + 1)" using rnd_scaled [OF y0, of i] by (simp only: r)
    with y2 show ?thesis by simp
  next
    case False
    with le have n: "0 \<le> e - (rexp y - 52)" by simp
    have "y * 2 powi (- (rexp y - 52)) = of_int m * 2 powi (e - (rexp y - 52))"
      by (subst (1) y) (simp add: mult.assoc algebra_simps flip: power_int_add)
    also have "\<dots> = of_int (m * 2 ^ nat (e - (rexp y - 52)))" using n by (simp add: power_int_def)
    finally have "rnd y = of_int (m * 2 ^ nat (e - (rexp y - 52))) * 2 powi (rexp y - 52)"
      by (rule rnd_scaled [OF y0])
    also have "\<dots> = of_int m * 2 powi (e - (rexp y - 52)) * 2 powi (rexp y - 52)"
      using n by (simp add: power_int_def)
    also have "\<dots> = y" by (simp add: y mult.assoc flip: power_int_add)
    finally show ?thesis .
  qed
qed

lemma rnd_int: "\<bar>i\<bar> \<le> 2 ^ 53 \<Longrightarrow> rnd (of_int i) = of_int i"
  using rnd_exact [of i "of_int i" 0] by simp

lemma math_Round_error: "\<bar>of_int (math_Round x) - x\<bar> \<le> 1 / 2"
proof -
  have "of_int \<lfloor>x + 1 / 2\<rfloor> \<le> x + 1 / 2" "x + 1 / 2 < of_int \<lfloor>x + 1 / 2\<rfloor> + 1"
    "of_int \<lfloor>- x + 1 / 2\<rfloor> \<le> - x + 1 / 2" "- x + 1 / 2 < of_int \<lfloor>- x + 1 / 2\<rfloor> + 1"
    using floor_correct [of "x + 1 / 2"] floor_correct [of "- x + 1 / 2"] by simp_all
  then show ?thesis unfolding math_Round_def by (cases "x < 0"; simp only: if_True if_False of_int_minus; linarith)
qed

lemma math_Round_int [simp]: "math_Round (of_int i) = i"
  by (simp add: math_Round_def floor_eq_iff)

end
