(* ===== verification/Cues.thy ===== *)
theory Cues
  imports F64
begin

text \<open>
  internal/timing/cues.go: a parsed subtitle document and the byte-by-byte reading of its
  lines and stamps. A document is a \<^typ>\<open>string\<close> (Isabelle characters are bytes). A
  \<open>view\<close> is the document with every timestamp findable byte by byte. Offsets are \<^typ>\<open>nat\<close>;
  each scanning loop that only advances an index is the length of a \<^const>\<open>takeWhile\<close>.
  The \<open>Encoding\<close> constants are internal/subtitleenc's.
\<close>

datatype Encoding = Unknown | UTF8 | UTF16LE | UTF16BE | ISO2022JP
  | Windows1250 | Windows1251 | Windows1252 | Windows1253 | Windows1254 | Windows1255 | Windows1256
  | ISO8859_2 | ISO8859_5 | ISO8859_6 | ISO8859_7 | ISO8859_8 | KOI8R | KOI8U
  | ShiftJIS | EUCJP | GB18030 | Big5 | EUCKR

datatype Format = NoFormat | SRT | ASS | SSA

record span =
  sfrom :: nat
  sto :: nat

record cue =
  cstyle :: string
  startMs :: int
  endMs :: int
  cstart :: span
  cend :: span
  ctext :: span
  cblock :: span
  cindex :: span

record Cues =
  doc :: string
  events :: "cue list"
  format :: Format
  enc :: Encoding

datatype parse_error =
    EmptyDocument
  | DocumentOver nat
  | IsContainer string
  | NotASCIITransparent Encoding
  | OddUTF16
  | OverEvents
  | Untimed string
  | NoVTTCue
  | VTTPastSRT

definition noSpan :: span where "noSpan = \<lparr>sfrom = 0, sto = 0\<rparr>"

definition maxDocumentBytes :: nat where "maxDocumentBytes = 16777216"
definition maxParsedBytes :: nat where "maxParsedBytes = 2 * maxDocumentBytes"
definition maxEvents :: nat where "maxEvents = 100000"

definition ASCIITransparent :: "Encoding \<Rightarrow> bool" where
  "ASCIITransparent e \<longleftrightarrow> e \<noteq> UTF16LE \<and> e \<noteq> UTF16BE \<and> e \<noteq> ISO2022JP"

definition checkSize :: "string \<Rightarrow> nat \<Rightarrow> parse_error option" where
  "checkSize b limit =
     (if length b = 0 then Some EmptyDocument
      else if limit < length b then Some (DocumentOver (length b)) else None)"

subsection \<open>The view\<close>

record view =
  vb :: string
  base :: nat
  unit :: nat

definition off :: "view \<Rightarrow> nat \<Rightarrow> nat" where
  "off v i = base v + i * unit v"

definition vspan :: "view \<Rightarrow> nat \<Rightarrow> nat \<Rightarrow> span" where
  "vspan v f t = \<lparr>sfrom = off v f, sto = off v t\<rparr>"

definition bomUTF8 :: string where "bomUTF8 = [CHR 0xEF, CHR 0xBB, CHR 0xBF]"
definition bomUTF16LE :: string where "bomUTF16LE = [CHR 0xFF, CHR 0xFE]"
definition bomUTF16BE :: string where "bomUTF16BE = [CHR 0xFE, CHR 0xFF]"

definition hasPrefix :: "string \<Rightarrow> string \<Rightarrow> bool" where
  "hasPrefix p b \<longleftrightarrow> take (length p) b = p"

definition above7F :: "char \<Rightarrow> bool" where
  "above7F c \<longleftrightarrow> 128 \<le> (of_char c :: nat)"

text \<open>One view byte per two-byte unit: 0x80 stands for any unit outside ASCII.\<close>

fun utf16Units :: "bool \<Rightarrow> string \<Rightarrow> string" where
  "utf16Units little (x # y # b) =
     (let lo = (if little then x else y); hi = (if little then y else x)
      in (if hi \<noteq> CHR 0x00 \<or> above7F lo then CHR 0x80 else lo) # utf16Units little b)"
| "utf16Units little b = []"

definition utf16View :: "string \<Rightarrow> bool \<Rightarrow> parse_error + view" where
  "utf16View b little =
     (let bom = (if little then bomUTF16LE else bomUTF16BE);
          bs = (if hasPrefix bom b then length bom else 0)
      in if (length b - bs) mod 2 \<noteq> 0 then Inl OddUTF16
         else Inr \<lparr>vb = utf16Units little (drop bs b), base = bs, unit = 2\<rparr>)"

definition newView :: "string \<Rightarrow> Encoding \<Rightarrow> parse_error + view" where
  "newView b e =
     (if e = UTF16LE \<or> e = UTF16BE then utf16View b (e = UTF16LE)
      else if \<not> ASCIITransparent e then Inl (NotASCIITransparent e)
      else let bs = (if hasPrefix bomUTF8 b then length bomUTF8 else 0)
           in Inr \<lparr>vb = drop bs b, base = bs, unit = 1\<rparr>)"

text \<open>\<open>appendASCII\<close> appends in the encoding's code units.\<close>

definition asciiUnit :: "Encoding \<Rightarrow> char \<Rightarrow> string" where
  "asciiUnit e c = (if e = UTF16LE then [c, CHR 0x00] else if e = UTF16BE then [CHR 0x00, c] else [c])"

definition appendASCII :: "string \<Rightarrow> string \<Rightarrow> Encoding \<Rightarrow> string" where
  "appendASCII b s e = b @ concat (map (asciiUnit e) s)"

subsection \<open>Lines\<close>

record line =
  lstart :: nat
  lend :: nat
  lnext :: nat

definition LF :: char where "LF = CHR 0x0A"
definition CR :: char where "CR = CHR 0x0D"
definition TAB :: char where "TAB = CHR 0x09"

definition notEOL :: "char \<Rightarrow> bool" where
  "notEOL c \<longleftrightarrow> c \<noteq> LF \<and> c \<noteq> CR"

definition lineAt :: "string \<Rightarrow> nat \<Rightarrow> line" where
  "lineAt b i =
     (let j = i + length (takeWhile notEOL (drop i b));
          n = (if j < length b
               then (if b ! j = CR \<and> j + 1 < length b \<and> b ! (j + 1) = LF then j + 2 else j + 1)
               else j)
      in \<lparr>lstart = i, lend = j, lnext = n\<rparr>)"

definition content :: "string \<Rightarrow> line \<Rightarrow> string" where
  "content b l = take (lend l - lstart l) (drop (lstart l) b)"

definition isBlank :: "char \<Rightarrow> bool" where
  "isBlank c \<longleftrightarrow> c = CHR '' '' \<or> c = TAB"

definition trimBlank :: "string \<Rightarrow> string" where
  "trimBlank b = rev (dropWhile isBlank (rev (dropWhile isBlank b)))"

definition isASCII :: "string \<Rightarrow> bool" where
  "isASCII b \<longleftrightarrow> list_all (\<lambda>c. \<not> above7F c) b"

lemma lineAt_start [simp]: "lstart (lineAt b i) = i"
  by (simp add: lineAt_def Let_def)

lemma lineAt_end: "i \<le> lend (lineAt b i)" "i \<le> length b \<Longrightarrow> lend (lineAt b i) \<le> length b"
  using length_takeWhile_le [of notEOL "drop i b"] by (simp_all add: lineAt_def Let_def)

lemma lineAt_end_next: "lend (lineAt b i) \<le> lnext (lineAt b i)"
  by (simp add: lineAt_def Let_def)

lemma lineAt_next: "i < length b \<Longrightarrow> i < lnext (lineAt b i) \<and> lnext (lineAt b i) \<le> length b"
  using length_takeWhile_le [of notEOL "drop i b"]
  by (cases "i + length (takeWhile notEOL (drop i b)) < length b") (auto simp: lineAt_def Let_def)

lemma content_length: "i \<le> length b \<Longrightarrow> length (content b (lineAt b i)) = lend (lineAt b i) - i"
  using lineAt_end [of i b] by (simp add: content_def)

text \<open>The first line holding anything but spaces and tabs.\<close>

function firstLineFrom :: "string \<Rightarrow> nat \<Rightarrow> string" where
  "firstLineFrom b i =
     (if i < length b then
        let l = lineAt b i; c = trimBlank (content b l)
        in if 0 < length c then c else firstLineFrom b (lnext l)
      else [])"
  by pat_completeness auto
termination
  by (relation "measure (\<lambda>(b, i). length b - i)") (auto dest: lineAt_next)

declare firstLineFrom.simps [simp del]

definition firstLine :: "string \<Rightarrow> string" where
  "firstLine b = firstLineFrom b 0"

definition isWebVTT :: "string \<Rightarrow> bool" where
  "isWebVTT b \<longleftrightarrow>
     (case cut_prefix ''WEBVTT'' b of None \<Rightarrow> False
      | Some rest \<Rightarrow> rest = [] \<or> hd rest \<in> {CHR '' '', TAB, CR, LF})"

text \<open>
  The parsers compare texts with ASCII words only, so Go's case mappings are given up to that
  comparison: \<^verbatim>\<open>strings.ToLower\<close> sends the letters A to Z to a to z, U+0130 (C4 B0) to i and the
  Kelvin sign (E2 84 AA) to k, and no other non-ASCII text to ASCII; \<^verbatim>\<open>bytes.EqualFold\<close> folds the
  long s (C5 BF) with s and the Kelvin sign with k.
\<close>

definition lower :: "char \<Rightarrow> char" where
  "lower c = (if CHR ''A'' \<le> c \<and> c \<le> CHR ''Z'' then char_of ((of_char c :: nat) + 32) else c)"

lemma lower_simps [simp]:
  "lower (CHR ''A'') = CHR ''a''" "lower (CHR ''B'') = CHR ''b''" "lower (CHR ''C'') = CHR ''c''"
  "lower (CHR ''D'') = CHR ''d''" "lower (CHR ''E'') = CHR ''e''" "lower (CHR ''F'') = CHR ''f''"
  "lower (CHR ''G'') = CHR ''g''" "lower (CHR ''H'') = CHR ''h''" "lower (CHR ''I'') = CHR ''i''"
  "lower (CHR ''J'') = CHR ''j''" "lower (CHR ''K'') = CHR ''k''" "lower (CHR ''L'') = CHR ''l''"
  "lower (CHR ''M'') = CHR ''m''" "lower (CHR ''N'') = CHR ''n''" "lower (CHR ''O'') = CHR ''o''"
  "lower (CHR ''P'') = CHR ''p''" "lower (CHR ''Q'') = CHR ''q''" "lower (CHR ''R'') = CHR ''r''"
  "lower (CHR ''S'') = CHR ''s''" "lower (CHR ''T'') = CHR ''t''" "lower (CHR ''U'') = CHR ''u''"
  "lower (CHR ''V'') = CHR ''v''" "lower (CHR ''W'') = CHR ''w''" "lower (CHR ''X'') = CHR ''x''"
  "lower (CHR ''Y'') = CHR ''y''" "lower (CHR ''Z'') = CHR ''z''"
  by (simp_all add: lower_def less_eq_char_def char_of_eq_iff)

lemma lower_other: "\<not> (CHR ''A'' \<le> c \<and> c \<le> CHR ''Z'') \<Longrightarrow> lower c = c"
  unfolding lower_def by (rule if_not_P)

fun toLower :: "string \<Rightarrow> string" where
  "toLower [] = []"
| "toLower (c # s) =
     (if c = CHR 0xC4 \<and> hasPrefix [CHR 0xB0] s then CHR ''i'' # toLower (drop 1 s)
      else if c = CHR 0xE2 \<and> hasPrefix [CHR 0x84, CHR 0xAA] s then CHR ''k'' # toLower (drop 2 s)
      else lower c # toLower s)"

fun foldKey :: "string \<Rightarrow> string" where
  "foldKey [] = []"
| "foldKey (c # s) =
     (if c = CHR 0xC5 \<and> hasPrefix [CHR 0xBF] s then CHR ''s'' # foldKey (drop 1 s)
      else if c = CHR 0xE2 \<and> hasPrefix [CHR 0x84, CHR 0xAA] s then CHR ''k'' # foldKey (drop 2 s)
      else lower c # foldKey s)"

definition isASSFamily :: "string \<Rightarrow> bool" where
  "isASSFamily b \<longleftrightarrow> foldKey (firstLine b) = ''[script info]''"

text \<open>
  The parsers' common loop, \<^verbatim>\<open>for i < len(v.b) { l := v.line(i); i = l.next; ... }\<close>: each line's step
  may fail or change the parser's state.
\<close>

function scanLines :: "(line \<Rightarrow> 's \<Rightarrow> 'e + 's) \<Rightarrow> string \<Rightarrow> nat \<Rightarrow> 's \<Rightarrow> 'e + 's" where
  "scanLines f b i p =
     (if i < length b then
        case f (lineAt b i) p of Inl e \<Rightarrow> Inl e | Inr q \<Rightarrow> scanLines f b (lnext (lineAt b i)) q
      else Inr p)"
  by pat_completeness auto
termination
  by (relation "measure (\<lambda>(f, b, i, p). length b - i)") (auto dest: lineAt_next)

declare scanLines.simps [simp del]

lemma scanLines_invariant:
  assumes "scanLines f b i p = Inr q" and "I i p" and "i \<le> length b"
    and "\<And>i p q. i < length b \<Longrightarrow> I i p \<Longrightarrow> f (lineAt b i) p = Inr q \<Longrightarrow> I (lnext (lineAt b i)) q"
  shows "I (length b) q"
  using assms
proof (induction f b i p rule: scanLines.induct)
  case (1 f b i p)
  show ?case
  proof (cases "i < length b")
    case False
    with "1.prems" show ?thesis by (simp add: scanLines.simps)
  next
    case True
    with "1.prems"(1) obtain r where r: "f (lineAt b i) p = Inr r"
        "scanLines f b (lnext (lineAt b i)) r = Inr q"
      by (auto simp: scanLines.simps [of f b i p] split: sum.splits)
    have "I (lnext (lineAt b i)) r" using True "1.prems"(2,4) r by blast
    then show ?thesis using "1.IH" [OF True r] "1.prems"(4) lineAt_next [OF True] by blast
  qed
qed

subsection \<open>Numbers and stamps\<close>

text \<open>\<open>digits\<close> reads 1 to \<open>maxN\<close> digits, refusing a longer run; the Boolean is Go's \<^verbatim>\<open>ok\<close>.\<close>

definition digits :: "string \<Rightarrow> nat \<Rightarrow> nat \<Rightarrow> nat \<times> nat \<times> bool" where
  "digits b i maxN =
     (let run = takeWhile isDigit (drop i b)
      in if maxN < length run then (0, i, False)
         else (undec run, i + length run, run \<noteq> []))"

definition clockField :: "string \<Rightarrow> nat \<Rightarrow> nat \<Rightarrow> string \<Rightarrow> (nat \<times> nat) option" where
  "clockField b i maxN sep =
     (case digits b i maxN of (v, j, ok) \<Rightarrow>
        if \<not> ok then None
        else if length b \<le> j \<or> b ! j \<notin> set sep then None
        else Some (v, j + 1))"

definition clock :: "string \<Rightarrow> nat \<Rightarrow> string \<Rightarrow> nat \<Rightarrow> nat \<Rightarrow> (nat \<times> nat) option" where
  "clock b i seps fracDigits fracMs =
     (case clockField b i 3 '':'' of None \<Rightarrow> None | Some (h, i1) \<Rightarrow>
      (case clockField b i1 2 '':'' of None \<Rightarrow> None | Some (m, i2) \<Rightarrow>
       (case clockField b i2 2 seps of None \<Rightarrow> None | Some (s, i3) \<Rightarrow>
        (case digits b i3 fracDigits of (f, i4, ok) \<Rightarrow>
           if \<not> ok then None
           else Some (((h * 60 + m) * 60 + s) * 1000 + f * fracMs, i4)))))"

text \<open>
  What a stamp looks like: \<open>clockText\<close> is the grammar of the texts \<^const>\<open>clock\<close> reads, independent
  of where they stand, and \<open>clock_iff\<close> says the reader accepts exactly that grammar.
\<close>

definition digitsText :: "nat \<Rightarrow> string \<Rightarrow> bool" where
  "digitsText n w \<longleftrightarrow> w \<noteq> [] \<and> length w \<le> n \<and> list_all isDigit w"

definition clockText :: "string \<Rightarrow> nat \<Rightarrow> nat \<Rightarrow> string \<Rightarrow> nat \<Rightarrow> bool" where
  "clockText seps fd fm w ms \<longleftrightarrow>
     (\<exists>h m s c f. w = h @ '':'' @ m @ '':'' @ s @ [c] @ f \<and> digitsText 3 h \<and> digitsText 2 m
        \<and> digitsText 2 s \<and> c \<in> set seps \<and> digitsText fd f
        \<and> ms = ((undec h * 60 + undec m) * 60 + undec s) * 1000 + undec f * fm)"

lemma digits_intro:
  assumes "digitsText n w" and "r = [] \<or> \<not> isDigit (hd r)"
  shows "digits (u @ w @ r) (length u) n = (undec w, length u + length w, True)"
proof -
  have "takeWhile isDigit (w @ r) = w"
    using assms by (cases r) (auto simp: digitsText_def list_all_iff takeWhile_append)
  then show ?thesis using assms by (simp add: digits_def digitsText_def)
qed

lemma digits_elim:
  assumes "digits b i n = (x, j, True)" and "i \<le> length b"
  obtains u w r where "b = u @ w @ r" "length u = i" "digitsText n w" "r = [] \<or> \<not> isDigit (hd r)"
    "x = undec w" "j = i + length w"
proof -
  let ?w = "takeWhile isDigit (drop i b)"
  have 1: "b = take i b @ ?w @ dropWhile isDigit (drop i b)" by simp
  have 2: "length (take i b) = i" using assms by simp
  have 3: "digitsText n ?w" "x = undec ?w" "j = i + length ?w"
    using assms by (auto simp: digits_def digitsText_def Let_def list_all_iff split: if_splits dest: set_takeWhileD)
  have 4: "dropWhile isDigit (drop i b) = [] \<or> \<not> isDigit (hd (dropWhile isDigit (drop i b)))"
    using hd_dropWhile by blast
  show ?thesis by (rule that [OF 1 2 3(1) 4 3(2,3)])
qed

lemma not_isDigit [simp]: "\<not> isDigit (CHR '':'')" "\<not> isDigit (CHR '','')" "\<not> isDigit (CHR ''.'')"
  by (simp_all add: isDigit_def)

lemma clockField_intro:
  assumes "digitsText n w" and "c \<in> set seps" and "\<not> isDigit c" and "i = length u"
  shows "clockField (u @ w @ c # r) i n seps = Some (undec w, i + length w + 1)"
  using digits_intro [OF assms(1), of "c # r" u] assms by (simp add: clockField_def nth_append)

lemma clockField_elim:
  assumes "clockField b i n seps = Some (x, j)" and "i \<le> length b"
  obtains u w c r where "b = u @ w @ c # r" "length u = i" "digitsText n w" "c \<in> set seps"
    "x = undec w" "j = i + length w + 1"
proof -
  from assms obtain k where k: "digits b i n = (x, k, True)" "k < length b" "b ! k \<in> set seps" "j = k + 1"
    by (auto simp: clockField_def split: prod.splits if_splits)
  obtain u w r where w: "b = u @ w @ r" "length u = i" "digitsText n w" "x = undec w" "k = i + length w"
    using digits_elim [OF k(1) assms(2)] by metis
  then have "r \<noteq> []" using k(2) by auto
  then obtain c r' where r: "r = c # r'" by (cases r) auto
  show ?thesis
    using that [of u w c r'] w r k by (simp add: nth_append)
qed

lemma clockField_colon:
  assumes "clockField b i n '':'' = Some (x, j)" and "i \<le> length b"
  obtains u w r where "b = u @ w @ CHR '':'' # r" "length u = i" "digitsText n w"
    "x = undec w" "j = i + length w + 1"
proof -
  obtain u w c r where *: "b = u @ w @ c # r" "length u = i" "digitsText n w" "c \<in> set '':''"
    "x = undec w" "j = i + length w + 1" by (rule clockField_elim [OF assms])
  then have "c = CHR '':''" by simp
  then show ?thesis using that * by blast
qed

lemma clock_intro:
  assumes t: "clockText seps fd fm w ms" and seps: "\<forall>c\<in>set seps. \<not> isDigit c"
    and r: "r = [] \<or> \<not> isDigit (hd r)"
  shows "clock (u @ w @ r) (length u) seps fd fm = Some (ms, length u + length w)"
proof -
  obtain h m s c f where w: "w = h @ '':'' @ m @ '':'' @ s @ [c] @ f"
    and d: "digitsText 3 h" "digitsText 2 m" "digitsText 2 s" "c \<in> set seps" "digitsText fd f"
    and ms: "ms = ((undec h * 60 + undec m) * 60 + undec s) * 1000 + undec f * fm"
    using t unfolding clockText_def by metis
  let ?b = "u @ w @ r"
  let ?i1 = "length u + length h + 1"
  let ?i2 = "?i1 + length m + 1"
  let ?i3 = "?i2 + length s + 1"
  have 1: "clockField ?b (length u) 3 '':'' = Some (undec h, ?i1)"
    using clockField_intro [OF d(1), of "CHR '':''" "'':''" "length u" u "m @ '':'' @ s @ [c] @ f @ r"]
    by (simp add: w)
  have 2: "clockField ?b ?i1 2 '':'' = Some (undec m, ?i2)"
    using clockField_intro [OF d(2), of "CHR '':''" "'':''" ?i1 "u @ h @ '':''" "s @ [c] @ f @ r"]
    by (simp add: w)
  have 3: "clockField ?b ?i2 2 seps = Some (undec s, ?i3)"
    using clockField_intro [OF d(3,4), of ?i2 "u @ h @ '':'' @ m @ '':''" "f @ r"] seps d(4)
    by (simp add: w)
  have 4: "digits ?b ?i3 fd = (undec f, ?i3 + length f, True)"
    using digits_intro [OF d(5) r, of "u @ h @ '':'' @ m @ '':'' @ s @ [c]"] by (simp add: w add.assoc)
  show ?thesis using 1 2 3 4 by (simp add: clock_def ms w)
qed

lemma clock_elim:
  assumes c: "clock b i seps fd fm = Some (ms, j)" and i: "i \<le> length b"
  obtains u w r where "b = u @ w @ r" "length u = i" "clockText seps fd fm w ms"
    "r = [] \<or> \<not> isDigit (hd r)" "j = i + length w"
proof -
  from c obtain h i1 m i2 s i3 f where
    f1: "clockField b i 3 '':'' = Some (h, i1)" and f2: "clockField b i1 2 '':'' = Some (m, i2)" and
    f3: "clockField b i2 2 seps = Some (s, i3)" and f4: "digits b i3 fd = (f, j, True)" and
    ms: "ms = ((h * 60 + m) * 60 + s) * 1000 + f * fm"
    by (auto simp: clock_def split: option.splits prod.splits if_splits)
  obtain u1 w1 r1 where 1: "b = u1 @ w1 @ CHR '':'' # r1" "length u1 = i" "digitsText 3 w1"
      "h = undec w1" "i1 = i + length w1 + 1"
    by (rule clockField_colon [OF f1 i])
  have l1: "i1 \<le> length b" using 1 by simp
  obtain u2 w2 r2 where 2: "b = u2 @ w2 @ CHR '':'' # r2" "length u2 = i1" "digitsText 2 w2"
      "m = undec w2" "i2 = i1 + length w2 + 1"
    by (rule clockField_colon [OF f2 l1])
  have l2: "i2 \<le> length b" using 2 by simp
  obtain u3 w3 c r3 where 3: "b = u3 @ w3 @ c # r3" "length u3 = i2" "digitsText 2 w3" "c \<in> set seps"
      "s = undec w3" "i3 = i2 + length w3 + 1"
    by (rule clockField_elim [OF f3 l2])
  have l3: "i3 \<le> length b" using 3 by simp
  obtain u4 w4 r4 where 4: "b = u4 @ w4 @ r4" "length u4 = i3" "digitsText fd w4"
      "r4 = [] \<or> \<not> isDigit (hd r4)" "f = undec w4" "j = i3 + length w4"
    by (rule digits_elim [OF f4 l3])
  have u2: "u2 = u1 @ w1 @ '':''" "r1 = w2 @ CHR '':'' # r2"
    using 1(1,2,5) 2(1,2) append_eq_append_conv [of u2 "u1 @ w1 @ '':''" "w2 @ CHR '':'' # r2" r1] by auto
  have u3: "u3 = u2 @ w2 @ '':''" "r2 = w3 @ c # r3"
    using 2(1,2,5) 3(1,2) append_eq_append_conv [of u3 "u2 @ w2 @ '':''" "w3 @ c # r3" r2] by auto
  have u4: "u4 = u3 @ w3 @ [c]" "r3 = w4 @ r4"
    using 3(1,2,6) 4(1,2) append_eq_append_conv [of u4 "u3 @ w3 @ [c]" "w4 @ r4" r3] by auto
  let ?w = "w1 @ '':'' @ w2 @ '':'' @ w3 @ [c] @ w4"
  have "clockText seps fd fm ?w ms"
    unfolding clockText_def using 1 2 3 4 ms by blast
  moreover have "b = u1 @ ?w @ r4" using 1(1) u2 u3 u4 by simp
  moreover have "j = i + length ?w" using 1 2 3 4 by simp
  ultimately show ?thesis using that 1(2) 4(4) by blast
qed

lemma digitsText_less: "digitsText n w \<Longrightarrow> undec w < 10 ^ n"
  using undec_less [of w] power_increasing [of "length w" n "10::nat"]
  by (auto simp: digitsText_def intro: less_le_trans)

lemma clockText_bound:
  assumes "clockText seps fd fm w ms" and "10 ^ fd * fm \<le> 1000"
  shows "ms < 2 ^ 32"
proof -
  obtain h m s f where d: "digitsText 3 h" "digitsText 2 m" "digitsText 2 s" "digitsText fd f"
    and ms: "ms = ((undec h * 60 + undec m) * 60 + undec s) * 1000 + undec f * fm"
    using assms(1) unfolding clockText_def by metis
  have "undec f * fm \<le> 10 ^ fd * fm" using digitsText_less [OF d(4)] by simp
  then have "undec f * fm \<le> 1000" using assms(2) by linarith
  then show ?thesis
    using digitsText_less [OF d(1)] digitsText_less [OF d(2)] digitsText_less [OF d(3)] ms by simp
qed

lemma clock_bound:
  assumes "clock b i seps fd fm = Some (ms, j)" and "i \<le> length b" and "10 ^ fd * fm \<le> 1000"
  shows "ms < 2 ^ 32"
  by (rule clock_elim [OF assms(1,2)]) (use clockText_bound assms(3) in blast)

lemma clock_dvd: "clock b i seps fd fm = Some (ms, j) \<Longrightarrow> k dvd 1000 \<Longrightarrow> k dvd fm \<Longrightarrow> k dvd ms"
proof -
  assume "clock b i seps fd fm = Some (ms, j)"
  then have "\<exists>a f. ms = a * 1000 + f * fm"
    unfolding clock_def by (auto simp only: split: option.splits prod.splits if_splits)
  then show "k dvd 1000 \<Longrightarrow> k dvd fm \<Longrightarrow> k dvd ms" by (auto intro!: dvd_add dvd_mult)
qed

lemma clockText_not_Nil: "clockText seps fd fm w ms \<Longrightarrow> 0 < length w"
  by (auto simp: clockText_def)

lemma clock_bounds: "clock b i seps fd fm = Some (ms, j) \<Longrightarrow> i \<le> length b \<Longrightarrow> i < j \<and> j \<le> length b"
  by (erule clock_elim) (auto dest: clockText_not_Nil)

subsection \<open>Refusals\<close>

definition containers :: "(string \<times> string) list" where
  "containers =
     [(''rar4 archive'', ''Rar!'' @ [CHR 0x1A, CHR 0x07, CHR 0x00]),
      (''rar5 archive'', ''Rar!'' @ [CHR 0x1A, CHR 0x07, CHR 0x01, CHR 0x00]),
      (''7z archive'', ''7z'' @ [CHR 0xBC, CHR 0xAF, CHR 0x27, CHR 0x1C]),
      (''gzip archive'', [CHR 0x1F, CHR 0x8B]),
      (''xz archive'', [CHR 0xFD] @ ''7zXZ'' @ [CHR 0x00]),
      (''bzip2 archive'', ''BZh''),
      (''zip archive'', ''PK'' @ [CHR 0x03, CHR 0x04]),
      (''empty zip archive'', ''PK'' @ [CHR 0x05, CHR 0x06]),
      (''VobSub (MPEG program stream)'', [CHR 0x00, CHR 0x00, CHR 0x01, CHR 0xBA])]"

fun containerIn :: "(string \<times> string) list \<Rightarrow> string \<Rightarrow> string" where
  "containerIn [] b = []"
| "containerIn ((name, magic) # cs) b = (if hasPrefix magic b then name else containerIn cs b)"

definition container :: "string \<Rightarrow> string" where
  "container b = containerIn containers b"

definition isMicroDVD :: "string \<Rightarrow> bool" where
  "isMicroDVD l =
     (if length l = 0 \<or> l ! 0 \<noteq> CHR ''{'' then False
      else case digits l 1 9 of (_, i, ok) \<Rightarrow>
        if \<not> ok \<or> length l \<le> i + 1 \<or> l ! i \<noteq> CHR ''}'' \<or> l ! (i + 1) \<noteq> CHR ''{'' then False
        else case digits l (i + 2) 9 of (_, j, _) \<Rightarrow> j < length l \<and> l ! j = CHR ''}'')"

definition controlByte :: "char \<Rightarrow> bool" where
  "controlByte c \<longleftrightarrow> c < TAB \<or> (CR < c \<and> c < CHR '' '' \<and> c \<noteq> CHR 0x1B)"

definition untimed :: "string \<Rightarrow> string" where
  "untimed b =
     (if isMicroDVD (firstLine b) then ''MicroDVD''
      else let head = take 512 b; n = length (filter controlByte head)
           in if length head < n * 10
              then ''binary data ('' @ dec n @ '' of the first '' @ dec (length head) @ '' bytes are not text)''
              else ''no timed event'')"

definition countEvent :: "nat \<Rightarrow> parse_error option" where
  "countEvent n = (if maxEvents \<le> n then Some OverEvents else None)"

end
