(* ===== verification/ParseSRT.thy ===== *)
theory ParseSRT
  imports Cues
begin

text \<open>
  internal/timing/parse_srt.go: the SubRip parser. \<open>srtParser\<close> is the parser's state, one
  definition per method, and \<open>parseSRT\<close> runs them over the view's lines. What the parser
  promises is \<open>events_wf\<close>: the events' blocks follow one another inside the document, and inside
  a block the index, the two stamps and the text stand in that order, none overlapping.
\<close>

record srtStamps =
  tstart :: span
  tend :: span
  tstartMs :: nat
  tendMs :: nat

record srtParser =
  pevents :: "cue list"
  pindex :: line
  ptextEnd :: nat
  phasIndex :: bool

definition skipBlank :: "string \<Rightarrow> nat \<Rightarrow> nat" where
  "skipBlank b i = i + length (takeWhile isBlank (drop i b))"

definition trimmedBounds :: "string \<Rightarrow> nat \<times> nat" where
  "trimmedBounds b =
     (let lo = length (takeWhile isBlank b)
      in (lo, length b - length (takeWhile isBlank (rev (drop lo b)))))"

definition isLoneNumber :: "string \<Rightarrow> bool" where
  "isLoneNumber b =
     (case trimmedBounds b of (lo, hi) \<Rightarrow>
        if lo = hi then False else list_all isDigit (take (hi - lo) (drop lo b)))"

definition srtTiming :: "string \<Rightarrow> srtStamps option" where
  "srtTiming b =
     (if \<not> isASCII b then None else
      let i0 = skipBlank b 0
      in case clock b i0 '',.'' 3 1 of None \<Rightarrow> None | Some (ms1, i1) \<Rightarrow>
         (let i2 = skipBlank b i1
          in case cut_prefix ''-->'' (drop i2 b) of None \<Rightarrow> None | Some rest \<Rightarrow>
             (let i3 = skipBlank b (length b - length rest)
              in case clock b i3 '',.'' 3 1 of None \<Rightarrow> None | Some (ms2, i4) \<Rightarrow>
                 Some \<lparr>tstart = \<lparr>sfrom = i0, sto = i1\<rparr>, tend = \<lparr>sfrom = i3, sto = i4\<rparr>,
                       tstartMs = ms1, tendMs = ms2\<rparr>)))"

text \<open>Go's \<^verbatim>\<open>e := &p.c.events[len-1]; e.text.to = ...; e.block.to = ...\<close>.\<close>

definition setEnds :: "nat \<Rightarrow> nat \<Rightarrow> cue \<Rightarrow> cue" where
  "setEnds textTo blockTo e =
     e\<lparr>ctext := (ctext e)\<lparr>sto := textTo\<rparr>, cblock := (cblock e)\<lparr>sto := blockTo\<rparr>\<rparr>"

definition closeOpen :: "view \<Rightarrow> nat \<Rightarrow> srtParser \<Rightarrow> srtParser" where
  "closeOpen v n p =
     (if pevents p = [] then p
      else let te = (if phasIndex p then lend (pindex p) else ptextEnd p)
           in p\<lparr>ptextEnd := te,
                pevents := butlast (pevents p) @ [setEnds (off v te) (off v n) (last (pevents p))]\<rparr>)"

definition timing :: "view \<Rightarrow> line \<Rightarrow> srtStamps \<Rightarrow> srtParser \<Rightarrow> parse_error + srtParser" where
  "timing v l t p =
     (case countEvent (length (pevents p)) of Some err \<Rightarrow> Inl err | None \<Rightarrow>
        let blockStart = (if phasIndex p then lstart (pindex p) else lstart l);
            idx = (if phasIndex p
                   then case trimmedBounds (content (vb v) (pindex p)) of (lo, hi) \<Rightarrow>
                          vspan v (lstart (pindex p) + lo) (lstart (pindex p) + hi)
                   else noSpan);
            q = closeOpen v blockStart (p\<lparr>phasIndex := False\<rparr>);
            e = \<lparr>cstyle = [], startMs = int (tstartMs t), endMs = int (tendMs t),
                 cstart = vspan v (lstart l + sfrom (tstart t)) (lstart l + sto (tstart t)),
                 cend = vspan v (lstart l + sfrom (tend t)) (lstart l + sto (tend t)),
                 ctext = \<lparr>sfrom = off v (lnext l), sto = 0\<rparr>,
                 cblock = \<lparr>sfrom = off v blockStart, sto = 0\<rparr>,
                 cindex = idx\<rparr>
        in Inr (q\<lparr>pevents := pevents q @ [e], ptextEnd := lnext l\<rparr>))"

definition textLine :: "line \<Rightarrow> string \<Rightarrow> srtParser \<Rightarrow> srtParser" where
  "textLine l c p =
     (let opn = 0 < length (pevents p);
          p1 = (if opn \<and> phasIndex p then p\<lparr>ptextEnd := lend (pindex p)\<rparr> else p);
          p2 = p1\<lparr>phasIndex := isLoneNumber c\<rparr>
      in if phasIndex p2 then p2\<lparr>pindex := l\<rparr>
         else if opn then p2\<lparr>ptextEnd := lend l\<rparr> else p2)"

definition srtLine :: "view \<Rightarrow> line \<Rightarrow> srtParser \<Rightarrow> parse_error + srtParser" where
  "srtLine v l p =
     (let c = content (vb v) l
      in case srtTiming c of Some t \<Rightarrow> timing v l t p
         | None \<Rightarrow> if 0 < length (trimBlank c) then Inr (textLine l c p) else Inr p)"

definition srtInit :: srtParser where
  "srtInit = \<lparr>pevents = [], pindex = \<lparr>lstart = 0, lend = 0, lnext = 0\<rparr>, ptextEnd = 0, phasIndex = False\<rparr>"

definition parseSRT :: "string \<Rightarrow> view \<Rightarrow> Encoding \<Rightarrow> parse_error + Cues" where
  "parseSRT d v e =
     (case scanLines (srtLine v) (vb v) 0 srtInit of
        Inl err \<Rightarrow> Inl err
      | Inr p \<Rightarrow> Inr \<lparr>doc = d, events = pevents (closeOpen v (length (vb v)) p), format = SRT, enc = e\<rparr>)"

subsection \<open>Where the pieces stand\<close>

definition head_wf :: "cue \<Rightarrow> bool" where
  "head_wf e \<longleftrightarrow> sfrom (cblock e) \<le> sfrom (cstart e) \<and> sfrom (cstart e) \<le> sto (cstart e)
     \<and> sto (cstart e) \<le> sfrom (cend e) \<and> sfrom (cend e) \<le> sto (cend e)
     \<and> sto (cend e) \<le> sfrom (ctext e)
     \<and> (sfrom (cindex e) < sto (cindex e) \<longrightarrow>
          sfrom (cblock e) \<le> sfrom (cindex e) \<and> sto (cindex e) \<le> sfrom (cstart e))"

definition cue_wf :: "cue \<Rightarrow> bool" where
  "cue_wf e \<longleftrightarrow> head_wf e \<and> sfrom (ctext e) \<le> sto (ctext e) \<and> sto (ctext e) \<le> sto (cblock e)"

fun events_wf :: "nat \<Rightarrow> nat \<Rightarrow> cue list \<Rightarrow> bool" where
  "events_wf lo hi [] \<longleftrightarrow> lo \<le> hi"
| "events_wf lo hi (e # es) \<longleftrightarrow> lo \<le> sfrom (cblock e) \<and> cue_wf e \<and> events_wf (sto (cblock e)) hi es"

text \<open>\<open>tiled\<close> is the SubRip parser's stronger promise: a block ends where the next one starts.\<close>

fun tiled :: "nat \<Rightarrow> nat \<Rightarrow> cue list \<Rightarrow> bool" where
  "tiled lo hi [] \<longleftrightarrow> lo = hi"
| "tiled lo hi (e # es) \<longleftrightarrow> sfrom (cblock e) = lo \<and> cue_wf e \<and> tiled (sto (cblock e)) hi es"

lemma tiled_append:
  "tiled lo hi (es @ es') \<longleftrightarrow> (\<exists>mid. tiled lo mid es \<and> tiled mid hi es')"
  by (induction es arbitrary: lo) auto

lemma tiled_events_wf: "tiled lo hi es \<Longrightarrow> events_wf lo hi es"
  by (induction es arbitrary: lo) auto

lemma cue_wf_block: "cue_wf e \<Longrightarrow> sfrom (cblock e) \<le> sto (cblock e)"
  by (simp add: cue_wf_def head_wf_def)

lemma events_wf_le: "events_wf lo hi es \<Longrightarrow> lo \<le> hi"
  by (induction es arbitrary: lo) (auto dest!: cue_wf_block intro: order_trans)

lemma events_wf_mono: "events_wf lo hi es \<Longrightarrow> lo' \<le> lo \<Longrightarrow> events_wf lo' hi es"
  by (cases es) auto

lemma off_mono: "i \<le> j \<Longrightarrow> off v i \<le> off v j"
  by (simp add: off_def)

lemma trimmedBounds_bounds:
  "trimmedBounds b = (lo, hi) \<Longrightarrow> lo \<le> hi \<and> hi \<le> length b"
  using length_takeWhile_le [of isBlank b]
    length_takeWhile_le [of isBlank "rev (drop (length (takeWhile isBlank b)) b)"]
  by (auto simp: trimmedBounds_def Let_def)

lemma skipBlank_bounds: "i \<le> length b \<Longrightarrow> i \<le> skipBlank b i \<and> skipBlank b i \<le> length b"
  using length_takeWhile_le [of isBlank "drop i b"] by (simp add: skipBlank_def)

lemma srtTiming_elim:
  assumes "srtTiming b = Some t"
  obtains "sfrom (tstart t) < sto (tstart t)" "sto (tstart t) \<le> sfrom (tend t)"
    "sfrom (tend t) < sto (tend t)" "sto (tend t) \<le> length b"
    "clock b (sfrom (tstart t)) '',.'' 3 1 = Some (tstartMs t, sto (tstart t))"
    "clock b (sfrom (tend t)) '',.'' 3 1 = Some (tendMs t, sto (tend t))"
proof -
  from assms obtain i1 rest where
    c1: "clock b (sfrom (tstart t)) '',.'' 3 1 = Some (tstartMs t, i1)" and
    s1: "sfrom (tstart t) = skipBlank b 0" "sto (tstart t) = i1" and
    r: "cut_prefix ''-->'' (drop (skipBlank b i1) b) = Some rest" and
    s2: "sfrom (tend t) = skipBlank b (length b - length rest)" and
    c2: "clock b (sfrom (tend t)) '',.'' 3 1 = Some (tendMs t, sto (tend t))"
    by (auto simp: srtTiming_def Let_def split: option.splits prod.splits if_splits)
  have 0: "sfrom (tstart t) \<le> length b" using s1 skipBlank_bounds [of 0 b] by simp
  from clock_bounds [OF c1 0] have 1: "sfrom (tstart t) < i1" "i1 \<le> length b" by simp_all
  have "length (drop (skipBlank b i1) b) = 3 + length rest"
    using r by (simp add: cut_prefix_Some)
  then have 2: "length rest \<le> length b" "skipBlank b i1 \<le> length b - length rest"
    using skipBlank_bounds [OF 1(2)] by auto
  then have 3: "sfrom (tend t) \<le> length b" "i1 \<le> sfrom (tend t)"
    using s2 skipBlank_bounds [of "length b - length rest" b] skipBlank_bounds [OF 1(2)] by auto
  from clock_bounds [OF c2 3(1)] show ?thesis using that c1 c2 1 3 s1 by simp
qed

subsection \<open>The parser's invariant\<close>

definition srt_inv :: "view \<Rightarrow> nat \<Rightarrow> srtParser \<Rightarrow> bool" where
  "srt_inv v i p \<longleftrightarrow>
     ptextEnd p \<le> i
     \<and> (phasIndex p \<longrightarrow> pindex p = lineAt (vb v) (lstart (pindex p)) \<and> lstart (pindex p) \<le> length (vb v)
          \<and> lend (pindex p) \<le> i \<and> (pevents p \<noteq> [] \<longrightarrow> ptextEnd p \<le> lstart (pindex p)))
     \<and> (pevents p \<noteq> [] \<longrightarrow>
          (\<exists>lo \<ge> base v. tiled lo (sfrom (cblock (last (pevents p)))) (butlast (pevents p)))
          \<and> head_wf (last (pevents p)) \<and> sfrom (ctext (last (pevents p))) \<le> off v (ptextEnd p))"

lemma tiled_setEnds:
  "head_wf e \<Longrightarrow> sfrom (ctext e) \<le> te \<Longrightarrow> te \<le> n \<Longrightarrow> tiled (sfrom (cblock e)) n [setEnds te n e]"
  by (simp add: cue_wf_def head_wf_def setEnds_def)

lemma closeOpen_tiled:
  assumes "pevents p \<noteq> []" and "tiled lo (sfrom (cblock (last (pevents p)))) (butlast (pevents p))"
    and "head_wf (last (pevents p))" and "te = (if phasIndex p then lend (pindex p) else ptextEnd p)"
    and "sfrom (ctext (last (pevents p))) \<le> off v te" and "te \<le> n"
  shows "tiled lo (off v n) (pevents (closeOpen v n p))"
proof -
  have "tiled (sfrom (cblock (last (pevents p)))) (off v n) [setEnds (off v te) (off v n) (last (pevents p))]"
    using assms(3,5,6) off_mono by (intro tiled_setEnds)
  then have "tiled lo (off v n) (butlast (pevents p) @ [setEnds (off v te) (off v n) (last (pevents p))])"
    using assms(2) tiled_append by blast
  then show ?thesis using assms(1,4) by (simp add: closeOpen_def Let_def)
qed

lemma srt_inv_textLine:
  assumes inv: "srt_inv v i p" and i: "i < length (vb v)"
  shows "srt_inv v (lnext (lineAt (vb v) i)) (textLine (lineAt (vb v) i) c p)"
proof -
  let ?te = "if pevents p \<noteq> [] \<and> phasIndex p then lend (pindex p) else ptextEnd p"
  have l: "i \<le> lend (lineAt (vb v) i)" "lend (lineAt (vb v) i) \<le> lnext (lineAt (vb v) i)"
    using lineAt_end(1) lineAt_end_next by blast+
  have idx: "phasIndex p \<Longrightarrow> lstart (pindex p) \<le> lend (pindex p)"
    using inv lineAt_end(1) [of "lstart (pindex p)" "vb v"] by (metis srt_inv_def)
  have te: "?te \<le> i" "pevents p \<noteq> [] \<Longrightarrow> ptextEnd p \<le> ?te"
    using inv idx by (auto simp: srt_inv_def)
  have ev: "pevents p \<noteq> [] \<Longrightarrow>
       (\<exists>lo \<ge> base v. tiled lo (sfrom (cblock (last (pevents p)))) (butlast (pevents p)))
       \<and> head_wf (last (pevents p)) \<and> sfrom (ctext (last (pevents p))) \<le> off v ?te
       \<and> sfrom (ctext (last (pevents p))) \<le> off v (lend (lineAt (vb v) i))"
    using inv te l off_mono [of "ptextEnd p" ?te v]
      off_mono [of "ptextEnd p" "lend (lineAt (vb v) i)" v] by (simp add: srt_inv_def)
  have "ptextEnd p \<le> lnext (lineAt (vb v) i)" using inv l by (simp add: srt_inv_def)
  then show ?thesis
    using te(1) ev l i by (auto simp: srt_inv_def textLine_def Let_def)
qed

text \<open>What a timing line does to the parser, in one equation.\<close>

lemma timing_Inr:
  assumes "timing v l t p = Inr q"
  obtains bs e where "bs = (if phasIndex p then lstart (pindex p) else lstart l)"
    "pevents q = pevents (closeOpen v bs (p\<lparr>phasIndex := False\<rparr>)) @ [e]"
    "ptextEnd q = lnext l" "\<not> phasIndex q" "length (pevents p) < maxEvents"
    "startMs e = int (tstartMs t)" "endMs e = int (tendMs t)"
    "cstart e = vspan v (lstart l + sfrom (tstart t)) (lstart l + sto (tstart t))"
    "cend e = vspan v (lstart l + sfrom (tend t)) (lstart l + sto (tend t))"
    "sfrom (ctext e) = off v (lnext l)" "sfrom (cblock e) = off v bs"
    "phasIndex p \<Longrightarrow> cindex e = (case trimmedBounds (content (vb v) (pindex p)) of (lo, hi) \<Rightarrow>
       vspan v (lstart (pindex p) + lo) (lstart (pindex p) + hi))"
    "\<not> phasIndex p \<Longrightarrow> cindex e = noSpan"
  using assms
  by (auto simp: timing_def Let_def countEvent_def closeOpen_def split: option.splits if_splits)

lemma head_wf_timing:
  assumes inv: "srt_inv v i p" and i: "i < length (vb v)"
    and t: "srtTiming (content (vb v) (lineAt (vb v) i)) = Some t"
    and bs: "bs = (if phasIndex p then lstart (pindex p) else i)"
    and e: "cstart e = vspan v (i + sfrom (tstart t)) (i + sto (tstart t))"
      "cend e = vspan v (i + sfrom (tend t)) (i + sto (tend t))"
      "sfrom (ctext e) = off v (lnext (lineAt (vb v) i))" "sfrom (cblock e) = off v bs"
    and x: "phasIndex p \<Longrightarrow> cindex e = (case trimmedBounds (content (vb v) (pindex p)) of (lo, hi) \<Rightarrow>
       vspan v (lstart (pindex p) + lo) (lstart (pindex p) + hi))"
    and x0: "\<not> phasIndex p \<Longrightarrow> cindex e = noSpan"
  shows "head_wf e"
proof -
  have len: "i + length (content (vb v) (lineAt (vb v) i)) \<le> lnext (lineAt (vb v) i)"
    using lineAt_end [of i "vb v"] lineAt_end_next [of "vb v" i] i by (simp add: content_length)
  have bsi: "bs \<le> i" and idx: "phasIndex p \<Longrightarrow> lstart (pindex p) + length (content (vb v) (pindex p)) \<le> i"
    using inv bs lineAt_end(1) [of "lstart (pindex p)" "vb v"]
      content_length [of "lstart (pindex p)" "vb v"] by (auto simp: srt_inv_def)
  have idxp: "phasIndex p \<Longrightarrow> off v bs \<le> sfrom (cindex e) \<and> sto (cindex e) \<le> off v (i + sfrom (tstart t))"
  proof -
    assume h: "phasIndex p"
    obtain lo hi where b: "trimmedBounds (content (vb v) (pindex p)) = (lo, hi)" by fastforce
    then have "lo \<le> hi" "hi \<le> length (content (vb v) (pindex p))" using trimmedBounds_bounds by blast+
    then show ?thesis using h b x idx bs by (simp add: vspan_def off_mono)
  qed
  have "sfrom (cindex e) < sto (cindex e) \<Longrightarrow> phasIndex p"
    using x0 by (cases "phasIndex p") (simp_all add: noSpan_def)
  then show ?thesis
    using e bsi len idxp by (rule_tac srtTiming_elim [OF t])
      (auto simp: head_wf_def vspan_def off_mono)
qed

lemma srt_inv_timing:
  assumes inv: "srt_inv v i p" and i: "i < length (vb v)"
    and t: "srtTiming (content (vb v) (lineAt (vb v) i)) = Some t"
    and q: "timing v (lineAt (vb v) i) t p = Inr q"
  shows "srt_inv v (lnext (lineAt (vb v) i)) q"
proof (rule timing_Inr [OF q], goal_cases)
  case (1 bs e)
  have e: "head_wf e"
    by (rule head_wf_timing [OF inv i t]) (use 1 in auto)
  have n: "i < lnext (lineAt (vb v) i)" using lineAt_next [OF i] by simp
  let ?p = "p\<lparr>phasIndex := False\<rparr>"
  have "\<exists>lo \<ge> base v. tiled lo (off v bs) (pevents (closeOpen v bs ?p))"
  proof (cases "pevents p = []")
    case True
    then show ?thesis by (auto simp: closeOpen_def off_def)
  next
    case False
    then obtain lo where lo: "base v \<le> lo"
        "tiled lo (sfrom (cblock (last (pevents p)))) (butlast (pevents p))"
      using inv by (auto simp: srt_inv_def)
    have "tiled lo (off v bs) (pevents (closeOpen v bs ?p))"
      by (rule closeOpen_tiled) (use inv False lo 1 in \<open>auto simp: srt_inv_def\<close>)
    then show ?thesis using lo by blast
  qed
  then show ?case using 1 e n by (simp add: srt_inv_def)
qed

lemma srt_inv_line:
  assumes "i < length (vb v)" and "srt_inv v i p" and "srtLine v (lineAt (vb v) i) p = Inr q"
  shows "srt_inv v (lnext (lineAt (vb v) i)) q"
proof -
  have "srt_inv v (lnext (lineAt (vb v) i)) p"
    using assms(1,2) lineAt_next [OF assms(1)] by (fastforce simp: srt_inv_def)
  then show ?thesis
    using assms srt_inv_timing [OF assms(2,1)] srt_inv_textLine [OF assms(2,1)]
    by (auto simp: srtLine_def Let_def split: option.splits if_splits)
qed

lemma parseSRT_tiled:
  assumes "parseSRT d v e = Inr c"
  shows "events c = [] \<or> (\<exists>lo \<ge> base v. tiled lo (off v (length (vb v))) (events c))"
proof -
  from assms obtain p where p: "scanLines (srtLine v) (vb v) 0 srtInit = Inr p"
    and c: "events c = pevents (closeOpen v (length (vb v)) p)"
    by (auto simp: parseSRT_def split: sum.splits)
  have "srt_inv v 0 srtInit" by (simp add: srt_inv_def srtInit_def)
  then have inv: "srt_inv v (length (vb v)) p"
    using scanLines_invariant [OF p, of "srt_inv v"] srt_inv_line by blast
  show ?thesis
  proof (cases "pevents p = []")
    case True
    then show ?thesis by (simp add: c closeOpen_def)
  next
    case False
    then obtain lo where lo: "base v \<le> lo"
        "tiled lo (sfrom (cblock (last (pevents p)))) (butlast (pevents p))"
      using inv by (auto simp: srt_inv_def)
    have "phasIndex p \<Longrightarrow> ptextEnd p \<le> lend (pindex p)"
      using inv False lineAt_end(1) [of "lstart (pindex p)" "vb v"]
      by (auto simp: srt_inv_def intro: order_trans)
    then have "tiled lo (off v (length (vb v))) (pevents (closeOpen v (length (vb v)) p))"
      by (intro closeOpen_tiled [OF False lo(2)])
        (use inv False off_mono in \<open>auto simp: srt_inv_def intro: order_trans\<close>)
    then show ?thesis using lo c by auto
  qed
qed

subsection \<open>One event per timing line\<close>

text \<open>The lines the scanning loop visits, and the times their timing lines give.\<close>

function linesFrom :: "string \<Rightarrow> nat \<Rightarrow> line list" where
  "linesFrom b i = (if i < length b then lineAt b i # linesFrom b (lnext (lineAt b i)) else [])"
  by pat_completeness auto
termination
  by (relation "measure (\<lambda>(b, i). length b - i)") (auto dest: lineAt_next)

declare linesFrom.simps [simp del]

definition lineTimes :: "string \<Rightarrow> line \<Rightarrow> (int \<times> int) option" where
  "lineTimes b l = map_option (\<lambda>t. (int (tstartMs t), int (tendMs t))) (srtTiming (content b l))"

definition srtTimes :: "string \<Rightarrow> nat \<Rightarrow> (int \<times> int) list" where
  "srtTimes b i = List.map_filter (lineTimes b) (linesFrom b i)"

definition cueTimes :: "cue list \<Rightarrow> (int \<times> int) list" where
  "cueTimes es = map (\<lambda>e. (startMs e, endMs e)) es"

lemma cueTimes_closeOpen [simp]: "cueTimes (pevents (closeOpen v n p)) = cueTimes (pevents p)"
proof (cases "pevents p" rule: rev_cases)
  case Nil
  then show ?thesis by (simp add: closeOpen_def)
next
  case (snoc es e)
  then show ?thesis by (simp add: closeOpen_def cueTimes_def setEnds_def Let_def)
qed

lemma length_cueTimes [simp]: "length (cueTimes es) = length es"
  by (simp add: cueTimes_def)

lemma srtLine_times:
  "srtLine v l p =
     (case lineTimes (vb v) l of
        None \<Rightarrow> Inr (if 0 < length (trimBlank (content (vb v) l)) then textLine l (content (vb v) l) p else p)
      | Some _ \<Rightarrow> timing v l (the (srtTiming (content (vb v) l))) p)"
  by (auto simp: srtLine_def lineTimes_def Let_def split: option.splits)

lemma timing_times:
  "lineTimes (vb v) l = Some ts \<Longrightarrow>
   (case timing v l (the (srtTiming (content (vb v) l))) p of
      Inl err \<Rightarrow> err = OverEvents \<and> maxEvents \<le> length (pevents p)
    | Inr q \<Rightarrow> length (pevents p) < maxEvents \<and> cueTimes (pevents q) = cueTimes (pevents p) @ [ts])"
  using cueTimes_closeOpen [of v _ "p\<lparr>phasIndex := False\<rparr>"]
  by (auto simp: timing_def lineTimes_def countEvent_def Let_def cueTimes_def split: option.splits)

lemma textLine_times [simp]: "cueTimes (pevents (textLine l c p)) = cueTimes (pevents p)"
  by (simp add: textLine_def Let_def)

lemma srtTimes_step:
  "srtTimes b i =
     (if i < length b
      then (case lineTimes b (lineAt b i) of None \<Rightarrow> [] | Some t \<Rightarrow> [t]) @ srtTimes b (lnext (lineAt b i))
      else [])"
  unfolding srtTimes_def
  by (subst linesFrom.simps) (auto simp: map_filter_simps split: option.splits)

lemma scanLines_times:
  "length (pevents p) \<le> maxEvents \<Longrightarrow>
   (case scanLines (srtLine v) (vb v) i p of
      Inl err \<Rightarrow> err = OverEvents \<and> maxEvents < length (pevents p) + length (srtTimes (vb v) i)
    | Inr q \<Rightarrow> length (pevents p) + length (srtTimes (vb v) i) \<le> maxEvents
        \<and> cueTimes (pevents q) = cueTimes (pevents p) @ srtTimes (vb v) i)"
proof (induction "srtLine v" "vb v" i p rule: scanLines.induct)
  case (1 i p)
  show ?case
  proof (cases "i < length (vb v)")
    case False
    then show ?thesis using 1 by (simp add: scanLines.simps srtTimes_step [of _ i])
  next
    case True
    let ?l = "lineAt (vb v) i"
    show ?thesis
    proof (cases "srtLine v ?l p")
      case (Inl err)
      then obtain ts where ts: "lineTimes (vb v) ?l = Some ts"
        by (auto simp: srtLine_times split: option.splits)
      then show ?thesis
        using True Inl timing_times [OF ts, of p]
        by (simp add: scanLines.simps [of _ _ i] srtTimes_step [of _ i] srtLine_times)
    next
      case (Inr q)
      have q: "length (pevents q) \<le> maxEvents
          \<and> length (pevents q) + length (srtTimes (vb v) (lnext ?l)) = length (pevents p) + length (srtTimes (vb v) i)
          \<and> cueTimes (pevents q) @ srtTimes (vb v) (lnext ?l) = cueTimes (pevents p) @ srtTimes (vb v) i"
      proof (cases "lineTimes (vb v) ?l")
        case None
        then have t: "cueTimes (pevents q) = cueTimes (pevents p)" using Inr by (auto simp: srtLine_times)
        then have "length (pevents q) = length (pevents p)" by (metis length_cueTimes)
        then show ?thesis using None t True "1.prems" by (simp add: srtTimes_step [of _ i])
      next
        case (Some ts)
        then have t: "cueTimes (pevents q) = cueTimes (pevents p) @ [ts]" "length (pevents p) < maxEvents"
          using Inr timing_times [OF Some, of p] by (simp_all add: srtLine_times)
        then have "length (pevents q) = length (pevents p) + 1" by (metis length_append_singleton length_cueTimes Suc_eq_plus1)
        then show ?thesis using Some t True by (simp add: srtTimes_step [of _ i])
      qed
      then show ?thesis
        using True Inr "1.hyps" [OF True Inr]
        by (auto simp: scanLines.simps [of _ _ i] split: sum.splits)
    qed
  qed
qed

lemma length_utf16Units [simp]: "length (utf16Units little b) = length b div 2"
  by (induction little b rule: utf16Units.induct) (simp_all add: Let_def)

lemma newView_off: "newView d e = Inr v \<Longrightarrow> off v (length (vb v)) = length d"
proof -
  assume v: "newView d e = Inr v"
  have p: "hasPrefix x d \<Longrightarrow> length x \<le> length d" for x
    by (metis hasPrefix_def length_take min.cobounded1 min.commute)
  have "utf16View d little = Inr v \<Longrightarrow> off v (length (vb v)) = length d" for little
    using p [of "if little then bomUTF16LE else bomUTF16BE"]
    by (auto simp: utf16View_def off_def Let_def split: if_splits)
  then show ?thesis
    using v p [of bomUTF8] by (auto simp: newView_def off_def Let_def split: if_splits)
qed

lemma parseSRT_spec:
  "case parseSRT d v e of
     Inl err \<Rightarrow> err = OverEvents \<and> maxEvents < length (srtTimes (vb v) 0)
   | Inr c \<Rightarrow> length (events c) \<le> maxEvents \<and> cueTimes (events c) = srtTimes (vb v) 0
       \<and> doc c = d \<and> format c = SRT \<and> enc c = e"
  using scanLines_times [of srtInit v 0]
  by (auto simp: parseSRT_def srtInit_def cueTimes_def [of "[]"] split: sum.splits)
    (metis length_cueTimes cueTimes_closeOpen)+

lemma parseSRT_cueTimes:
  "parseSRT d v e = Inr c \<Longrightarrow> cueTimes (events c) = srtTimes (vb v) 0 \<and> doc c = d \<and> format c = SRT \<and> enc c = e"
  using parseSRT_spec [where d = d and v = v and e = e] by simp

subsection \<open>Properties\<close>

text \<open>C16. The SubRip parser finds exactly the document's timing lines: it makes one event per line
  that reads as a timing line, in document order and with the line's two times, and it refuses
  the document exactly when there are more than 100,000 of them.\<close>

theorem parseSRT_events:
  "case parseSRT d v e of
     Inl err \<Rightarrow> err = OverEvents \<and> maxEvents < length (srtTimes (vb v) 0)
   | Inr c \<Rightarrow> length (events c) \<le> maxEvents \<and> cueTimes (events c) = srtTimes (vb v) 0
       \<and> doc c = d \<and> format c = SRT \<and> enc c = e"
  by (rule parseSRT_spec)

text \<open>C17. The SubRip parser's spans are a map of the document: the blocks of the events tile the bytes
  from the first block to the document's end, each inside it, and within a block the index, the
  start stamp, the end stamp and the text follow one another without overlapping.\<close>

theorem parseSRT_spans:
  assumes "newView d e = Inr v" and "parseSRT d v e = Inr c" and "events c \<noteq> []"
  shows "\<exists>lo. tiled lo (length d) (events c)"
  using parseSRT_tiled [OF assms(2)] newView_off [OF assms(1)] assms(3) by auto

text \<open>The definitions a concrete document evaluates through.\<close>

lemmas doc_eval = newView_def hasPrefix_def bomUTF8_def ASCIITransparent_def parseSRT_def
  scanLines.simps srtLine_def srtTiming_def lineAt_def content_def isASCII_def above7F_def
  skipBlank_def clock_def clockField_def digits_def isDigit_def less_eq_char_def isBlank_def
  notEOL_def LF_def CR_def TAB_def undec_def digit_val_def Let_def timing_def countEvent_def
  maxEvents_def srtInit_def closeOpen_def vspan_def off_def setEnds_def noSpan_def

definition oneCue :: cue where
  "oneCue = \<lparr>cstyle = [], startMs = 0, endMs = 1000, cstart = \<lparr>sfrom = 0, sto = 7\<rparr>,
     cend = \<lparr>sfrom = 10, sto = 17\<rparr>, ctext = \<lparr>sfrom = 17, sto = 17\<rparr>,
     cblock = \<lparr>sfrom = 0, sto = 17\<rparr>, cindex = noSpan\<rparr>"

lemma newView_oneCue:
  "newView ''0:0:0,0-->0:0:1,0'' UTF8 = Inr \<lparr>vb = ''0:0:0,0-->0:0:1,0'', base = 0, unit = 1\<rparr>"
  by (simp add: doc_eval)

lemma parseSRT_oneCue:
  "parseSRT ''0:0:0,0-->0:0:1,0'' \<lparr>vb = ''0:0:0,0-->0:0:1,0'', base = 0, unit = 1\<rparr> UTF8
   = Inr \<lparr>doc = ''0:0:0,0-->0:0:1,0'', events = [oneCue], format = SRT, enc = UTF8\<rparr>"
  by (simp add: doc_eval oneCue_def)

theorem parseSRT_spans_witness: "\<exists>lo. tiled lo 17 [oneCue]"
  using parseSRT_spans [OF newView_oneCue parseSRT_oneCue] by simp

end
