(* ===== verification/ParseASS.thy ===== *)
theory ParseASS
  imports ParseSRT
begin

text \<open>
  internal/timing/parse_ass.go: the ASS and SSA parser. \<open>assParser\<close> is its state, \<open>assLine\<close> the
  step of one line. Decoding the style name (\<^verbatim>\<open>Cues.decode\<close>, over golang.org/x/text) is the
  parameter \<open>decode\<close>. A document whose Format lines name Start before End gives \<open>events_wf\<close>.
\<close>

record assFields =
  fn :: int
  fstart :: int
  fend :: int
  fstyle :: int

record assParser =
  asection :: string
  aevents :: "cue list"
  afields :: assFields
  scriptType :: Format
  stylesHeader :: Format

definition defaultASSFields :: assFields where
  "defaultASSFields = \<lparr>fn = 10, fstart = 1, fend = 2, fstyle = 3\<rparr>"

definition scriptTypes :: "string \<Rightarrow> Format" where
  "scriptTypes s = (if s = ''v4.00+'' then ASS else if s = ''v4.00'' then SSA else NoFormat)"

definition cutKey :: "string \<Rightarrow> string \<Rightarrow> string option" where
  "cutKey c key = map_option trimBlank (cut_prefix key c)"

text \<open>The loop over the Format line's names from the \<open>k\<close>-th on, then the check after it.\<close>

fun formatNames :: "string list \<Rightarrow> int \<Rightarrow> assFields \<Rightarrow> assFields option" where
  "formatNames [] k f = Some f"
| "formatNames (name # names) k f =
     (let w = toLower (trimBlank name)
      in if w = ''start'' then formatNames names (k + 1) (f\<lparr>fstart := k\<rparr>)
         else if w = ''end'' then formatNames names (k + 1) (f\<lparr>fend := k\<rparr>)
         else if w = ''style'' then formatNames names (k + 1) (f\<lparr>fstyle := k\<rparr>)
         else if w = ''text'' \<and> k \<noteq> fn f - 1 then None
         else formatNames names (k + 1) f)"

definition readASSFormat :: "string \<Rightarrow> assFields option" where
  "readASSFormat val =
     (let names = splitOn (CHR '','') val
      in case formatNames names 0 \<lparr>fn = int (length names), fstart = -1, fend = -1, fstyle = -1\<rparr> of
           None \<Rightarrow> None
         | Some f \<Rightarrow> if fstart f < 0 \<or> fend f < 0 \<or> toLower (trimBlank (last names)) \<noteq> ''text''
                     then None else Some f)"

definition assTime :: "view \<Rightarrow> span \<Rightarrow> (span \<times> nat) option" where
  "assTime v field =
     (let b = take (sto field - sfrom field) (drop (sfrom field) (vb v))
      in case trimmedBounds b of (lo, hi) \<Rightarrow>
         if \<not> isASCII (take (hi - lo) (drop lo b)) then None
         else case clock (take hi b) lo ''.'' 2 10 of
                None \<Rightarrow> None
              | Some (ms, n) \<Rightarrow> if n \<noteq> hi then None
                                else Some (vspan v (sfrom field + lo) (sfrom field + hi), ms))"

text \<open>
  The loop over a Dialogue line's leading fields: \<open>m\<close> iterations remain, \<open>k\<close> is the field's number
  and \<open>p\<close> its first byte; the spans are Go's \<^verbatim>\<open>startF\<close>, \<^verbatim>\<open>endF\<close> and \<^verbatim>\<open>styleF\<close>.
\<close>

fun dialogueFields ::
  "string \<Rightarrow> nat \<Rightarrow> assFields \<Rightarrow> nat \<Rightarrow> int \<Rightarrow> nat \<Rightarrow> span \<Rightarrow> span \<Rightarrow> span
   \<Rightarrow> (nat \<times> span \<times> span \<times> span) option" where
  "dialogueFields b le f 0 k p sF eF yF = Some (p, sF, eF, yF)"
| "dialogueFields b le f (Suc m) k p sF eF yF =
     (let rest = take (le - p) (drop p b);
          comma = length (takeWhile (\<lambda>c. c \<noteq> CHR '','') rest);
          w = \<lparr>sfrom = p, sto = p + comma\<rparr>
      in if comma = length rest then None
         else if k = fstart f then dialogueFields b le f m (k + 1) (p + comma + 1) w eF yF
         else if k = fend f then dialogueFields b le f m (k + 1) (p + comma + 1) sF w yF
         else if k = fstyle f then dialogueFields b le f m (k + 1) (p + comma + 1) sF eF w
         else dialogueFields b le f m (k + 1) (p + comma + 1) sF eF yF)"

definition assDialogue :: "view \<Rightarrow> line \<Rightarrow> assFields \<Rightarrow> (cue \<times> span) option" where
  "assDialogue v l f =
     (let c = content (vb v) l
      in case cut_prefix ''Dialogue:'' c of None \<Rightarrow> None | Some rest \<Rightarrow>
         (case dialogueFields (vb v) (lend l) f (nat (fn f - 1)) 0 (lstart l + length c - length rest)
                 noSpan noSpan noSpan of
            None \<Rightarrow> None
          | Some (p, sF, eF, yF) \<Rightarrow>
              (case assTime v sF of None \<Rightarrow> None | Some (st, ms1) \<Rightarrow>
               (case assTime v eF of None \<Rightarrow> None | Some (en, ms2) \<Rightarrow>
                  let style = (if 0 \<le> fstyle f
                               then case trimmedBounds (take (sto yF - sfrom yF) (drop (sfrom yF) (vb v))) of
                                      (lo, hi) \<Rightarrow> vspan v (sfrom yF + lo) (sfrom yF + hi)
                               else noSpan)
                  in Some (\<lparr>cstyle = [], startMs = int ms1, endMs = int ms2, cstart = st, cend = en,
                            ctext = vspan v p (lend l), cblock = vspan v (lstart l) (lnext l),
                            cindex = noSpan\<rparr>, style)))))"

definition slice :: "string \<Rightarrow> nat \<Rightarrow> nat \<Rightarrow> string" where
  "slice b i j = take (j - i) (drop i b)"

definition eventLine ::
  "(Encoding \<Rightarrow> string \<Rightarrow> string) \<Rightarrow> string \<Rightarrow> Encoding \<Rightarrow> view \<Rightarrow> line \<Rightarrow> assParser \<Rightarrow> parse_error + assParser" where
  "eventLine decode d e v l p =
     (case cutKey (content (vb v) l) ''Format:'' of
        Some val \<Rightarrow> (case readASSFormat val of Some f \<Rightarrow> Inr (p\<lparr>afields := f\<rparr>) | None \<Rightarrow> Inr p)
      | None \<Rightarrow>
         (case assDialogue v l (afields p) of None \<Rightarrow> Inr p | Some (ev, style) \<Rightarrow>
            (case countEvent (length (aevents p)) of Some err \<Rightarrow> Inl err | None \<Rightarrow>
               Inr (p\<lparr>aevents := aevents p @ [ev\<lparr>cstyle := decode e (slice d (sfrom style) (sto style))\<rparr>]\<rparr>))))"

definition assLine ::
  "(Encoding \<Rightarrow> string \<Rightarrow> string) \<Rightarrow> string \<Rightarrow> Encoding \<Rightarrow> view \<Rightarrow> line \<Rightarrow> assParser \<Rightarrow> parse_error + assParser" where
  "assLine decode d e v l p =
     (let c = content (vb v) l; trimmed = trimBlank c
      in if 1 < length trimmed \<and> hd trimmed = CHR ''['' \<and> last trimmed = CHR '']''
         then let s = toLower trimmed; q = p\<lparr>asection := s\<rparr>
              in Inr (if s = ''[v4+ styles]'' then q\<lparr>stylesHeader := ASS\<rparr>
                      else if s = ''[v4 styles]'' then q\<lparr>stylesHeader := SSA\<rparr> else q)
         else if asection p = ''[script info]''
         then case cutKey c ''ScriptType:'' of
                Some val \<Rightarrow> Inr (p\<lparr>scriptType := scriptTypes (toLower val)\<rparr>) | None \<Rightarrow> Inr p
         else if asection p = ''[events]'' then eventLine decode d e v l p
         else Inr p)"

definition assInit :: assParser where
  "assInit = \<lparr>asection = [], aevents = [], afields = defaultASSFields,
     scriptType = NoFormat, stylesHeader = NoFormat\<rparr>"

definition orFormat :: "Format \<Rightarrow> Format \<Rightarrow> Format" where
  "orFormat a b = (if a = NoFormat then b else a)"

definition parseASS ::
  "(Encoding \<Rightarrow> string \<Rightarrow> string) \<Rightarrow> string \<Rightarrow> view \<Rightarrow> Encoding \<Rightarrow> parse_error + Cues" where
  "parseASS decode d v e =
     (case scanLines (assLine decode d e v) (vb v) 0 assInit of
        Inl err \<Rightarrow> Inl err
      | Inr p \<Rightarrow> Inr \<lparr>doc = d, events = aevents p,
                      format = orFormat (scriptType p) (orFormat (stylesHeader p) ASS), enc = e\<rparr>)"

subsection \<open>A Dialogue line's spans\<close>

definition fields_ok :: "assFields \<Rightarrow> bool" where
  "fields_ok f \<longleftrightarrow> 0 \<le> fstart f \<and> fstart f < fend f \<and> fend f < fn f - 1"

definition seen :: "assFields \<Rightarrow> int \<Rightarrow> nat \<Rightarrow> nat \<Rightarrow> span \<Rightarrow> span \<Rightarrow> bool" where
  "seen f k lo p sF eF \<longleftrightarrow>
     (fstart f < k \<longrightarrow> lo \<le> sfrom sF \<and> sfrom sF \<le> sto sF \<and> sto sF \<le> p)
     \<and> (fend f < k \<longrightarrow> sto sF \<le> sfrom eF \<and> sfrom eF \<le> sto eF \<and> sto eF \<le> p)"

lemma seen_step:
  assumes "seen f k lo p sF eF" and "fstart f < fend f" and "lo \<le> p" and "w = \<lparr>sfrom = p, sto = p + n\<rparr>"
  shows "k = fstart f \<Longrightarrow> seen f (k + 1) lo (p + n + 1) w eF"
    and "k = fend f \<Longrightarrow> seen f (k + 1) lo (p + n + 1) sF w"
    and "k \<noteq> fstart f \<Longrightarrow> k \<noteq> fend f \<Longrightarrow> seen f (k + 1) lo (p + n + 1) sF eF"
  using assms by (auto simp: seen_def)

lemma dialogueFields_bounds:
  "dialogueFields b le f m k p sF eF yF = Some (q, s, e, y) \<Longrightarrow> fstart f < fend f \<Longrightarrow>
   seen f k lo p sF eF \<Longrightarrow> lo \<le> p \<Longrightarrow> p \<le> le \<Longrightarrow> le \<le> length b \<Longrightarrow>
   seen f (k + int m) lo q s e \<and> p \<le> q \<and> q \<le> le"
proof (induction b le f m k p sF eF yF rule: dialogueFields.induct)
  case (1 b le f k p sF eF yF)
  then show ?case by simp
next
  case (2 b le f m k p sF eF yF)
  let ?rest = "take (le - p) (drop p b)"
  define n where "n = length (takeWhile (\<lambda>c. c \<noteq> CHR '','') ?rest)"
  have "n \<le> length ?rest" unfolding n_def by (rule length_takeWhile_le)
  moreover have "n \<noteq> length ?rest" using "2.prems"(1) by (auto simp: n_def Let_def split: if_splits)
  ultimately have n: "p + n + 1 \<le> le" using "2.prems" by simp
  note st = seen_step [OF "2.prems"(3,2,4), of "\<lparr>sfrom = p, sto = p + n\<rparr>" n]
  have "\<exists>sF' eF' yF'. dialogueFields b le f m (k + 1) (p + n + 1) sF' eF' yF' = Some (q, s, e, y)
      \<and> seen f (k + 1) lo (p + n + 1) sF' eF'
      \<and> (seen f (k + 1) lo (p + n + 1) sF' eF' \<longrightarrow> lo \<le> p + n + 1 \<longrightarrow>
           seen f (k + 1 + int m) lo q s e \<and> p + n + 1 \<le> q \<and> q \<le> le)"
    using "2.prems" "2.IH" [OF refl refl refl] st n
    by (auto simp: Let_def n_def [symmetric] split: if_splits)
  then show ?case using n "2.prems"(4) by (auto simp: algebra_simps)
qed

lemma assTime_bounds:
  assumes "assTime v field = Some (sp, ms)" and "sfrom field \<le> sto field"
  shows "off v (sfrom field) \<le> sfrom sp \<and> sfrom sp \<le> sto sp \<and> sto sp \<le> off v (sto field)"
proof -
  let ?b = "take (sto field - sfrom field) (drop (sfrom field) (vb v))"
  obtain lo hi where b: "trimmedBounds ?b = (lo, hi)" by fastforce
  with trimmedBounds_bounds have "lo \<le> hi" "hi \<le> length ?b" by blast+
  moreover from this have "sfrom field + hi \<le> sto field" using assms(2) by (simp, arith)
  ultimately show ?thesis
    using assms b by (auto simp: assTime_def Let_def vspan_def off_mono split: option.splits if_splits)
qed

lemma assDialogue_wf:
  assumes f: "fields_ok f" and l: "l = lineAt (vb v) i" and i: "i < length (vb v)"
    and d: "assDialogue v l f = Some (ev, style)"
  shows "cue_wf ev \<and> sfrom (cblock ev) = off v i \<and> sto (cblock ev) = off v (lnext l)"
proof -
  let ?c = "content (vb v) l"
  from d obtain rest p sF eF yF ms1 ms2 where
    r: "cut_prefix ''Dialogue:'' ?c = Some rest" and
    df: "dialogueFields (vb v) (lend l) f (nat (fn f - 1)) 0 (lstart l + length ?c - length rest)
           noSpan noSpan noSpan = Some (p, sF, eF, yF)" and
    ts: "assTime v sF = Some (cstart ev, ms1)" and te: "assTime v eF = Some (cend ev, ms2)" and
    ev: "ctext ev = vspan v p (lend l)" "cblock ev = vspan v (lstart l) (lnext l)" "cindex ev = noSpan"
    by (auto simp: assDialogue_def Let_def split: option.splits prod.splits)
  have lens: "length ?c = lend l - i" "i \<le> lend l" "lend l \<le> length (vb v)" "lend l \<le> lnext l"
    using l i content_length lineAt_end lineAt_end_next by auto
  have "length ?c = 9 + length rest" using r by (simp add: cut_prefix_Some)
  then have at: "i \<le> lstart l + length ?c - length rest" "lstart l + length ?c - length rest \<le> lend l"
    using lens l by auto
  have "seen f 0 i (lstart l + length ?c - length rest) noSpan noSpan"
    using f by (simp add: seen_def fields_ok_def)
  then have "seen f (0 + int (nat (fn f - 1))) i p sF eF \<and> p \<le> lend l"
    using dialogueFields_bounds [OF df] f at lens by (auto simp: fields_ok_def)
  then have s: "i \<le> sfrom sF" "sfrom sF \<le> sto sF" "sto sF \<le> sfrom eF" "sfrom eF \<le> sto eF" "sto eF \<le> p"
      "p \<le> lend l"
    using f by (simp_all add: seen_def fields_ok_def)
  have "off v (sto sF) \<le> off v (sfrom eF)" "off v i \<le> off v (sfrom sF)" "off v (sto eF) \<le> off v p"
    "off v p \<le> off v (lend l)" "off v (lend l) \<le> off v (lnext l)"
    using s lens by (simp_all add: off_mono)
  then show ?thesis
    using assTime_bounds [OF ts s(2)] assTime_bounds [OF te s(4)] ev l
    by (auto simp: cue_wf_def head_wf_def vspan_def noSpan_def)
qed

subsection \<open>The document's spans\<close>

text \<open>Every Format line of the document that reads names Start before End.\<close>

definition formatsOrdered :: "string \<Rightarrow> bool" where
  "formatsOrdered b \<longleftrightarrow>
     list_all (\<lambda>l. case cutKey (content b l) ''Format:'' of None \<Rightarrow> True
        | Some val \<Rightarrow> (case readASSFormat val of None \<Rightarrow> True | Some f \<Rightarrow> fstart f < fend f)) (linesFrom b 0)"

lemma formatNames_at:
  "formatNames names k f = Some g \<Longrightarrow>
   fn g = fn f
   \<and> (fstart g = fstart f \<or> (\<exists>j < length names. fstart g = k + int j \<and> toLower (trimBlank (names ! j)) = ''start''))
   \<and> (fend g = fend f \<or> (\<exists>j < length names. fend g = k + int j \<and> toLower (trimBlank (names ! j)) = ''end''))"
proof (induction names k f rule: formatNames.induct)
  case (1 k f)
  then show ?case by simp
next
  case (2 name names k f)
  have lift: "\<lbrakk>j < length names; P (names ! j); x = k + 1 + int j\<rbrakk> \<Longrightarrow>
      \<exists>j < length (name # names). x = k + int j \<and> P ((name # names) ! j)" for j x and P :: "string \<Rightarrow> bool"
    by (rule exI [of _ "Suc j"]) simp
  have here: "P name \<Longrightarrow> \<exists>j < length (name # names). k = k + int j \<and> P ((name # names) ! j)"
    for P :: "string \<Rightarrow> bool"
    by (rule exI [of _ 0]) simp
  note lift' = lift [of _ "\<lambda>s. toLower (trimBlank s) = ''start''"] lift [of _ "\<lambda>s. toLower (trimBlank s) = ''end''"]
  note here' = here [of "\<lambda>s. toLower (trimBlank s) = ''start''"] here [of "\<lambda>s. toLower (trimBlank s) = ''end''"]
  let ?w = "toLower (trimBlank name)"
  consider "?w = ''start''" | "?w = ''end''" | "?w = ''style''" | "?w \<notin> {''start'', ''end'', ''style''}" by blast
  then show ?case
  proof cases
    case 1
    then show ?thesis using "2.IH"(1) [OF refl 1] "2.prems" lift' here'(1) [OF 1] by (auto simp: Let_def)
  next
    case c: 2
    then show ?thesis using "2.IH"(2) [OF refl _ c] "2.prems" lift' here'(2) [OF c] by (auto simp: Let_def)
  next
    case 3
    then show ?thesis using "2.IH"(3) [OF refl _ _ 3] "2.prems" lift' by (auto simp: Let_def)
  next
    case 4
    then show ?thesis using "2.IH"(4) [OF refl] "2.prems" lift' by (auto simp: Let_def split: if_splits)
  qed
qed

lemma readASSFormat_ok:
  assumes "readASSFormat val = Some f" and "fstart f < fend f"
  shows "fields_ok f"
proof -
  let ?names = "splitOn (CHR '','') val"
  have f: "formatNames ?names 0 \<lparr>fn = int (length ?names), fstart = -1, fend = -1, fstyle = -1\<rparr> = Some f"
    "0 \<le> fstart f" "0 \<le> fend f" "toLower (trimBlank (last ?names)) = ''text''"
    using assms(1) by (auto simp: readASSFormat_def Let_def split: option.splits if_splits)
  from formatNames_at [OF f(1)] f(2,3) obtain j where
    n: "fn f = int (length ?names)" and
    j: "j < length ?names" "fend f = int j" "toLower (trimBlank (?names ! j)) = ''end''"
    by auto
  have "j \<noteq> length ?names - 1" using j f(4) by (auto simp: last_conv_nth)
  then show ?thesis using n j f(2) assms(2) by (auto simp: fields_ok_def)
qed

definition ass_inv :: "view \<Rightarrow> nat \<Rightarrow> assParser \<Rightarrow> bool" where
  "ass_inv v i p \<longleftrightarrow> fields_ok (afields p) \<and> events_wf (base v) (off v i) (aevents p)"

lemma events_wf_snoc:
  "events_wf lo hi (es @ [e]) \<longleftrightarrow> events_wf lo (sfrom (cblock e)) es \<and> cue_wf e \<and> sto (cblock e) \<le> hi"
  by (induction es arbitrary: lo) auto

lemma events_wf_hi: "events_wf lo hi es \<Longrightarrow> hi \<le> hi' \<Longrightarrow> events_wf lo hi' es"
  by (induction es arbitrary: lo) auto

lemma cue_wf_style [simp]: "cue_wf (e\<lparr>cstyle := s\<rparr>) = cue_wf e"
  by (simp add: cue_wf_def head_wf_def)

lemma ass_inv_line:
  assumes i: "i < length (vb v)" and inv: "ass_inv v i p"
    and q: "assLine decode d e v (lineAt (vb v) i) p = Inr q"
    and ord: "case cutKey (content (vb v) (lineAt (vb v) i)) ''Format:'' of None \<Rightarrow> True
        | Some val \<Rightarrow> (case readASSFormat val of None \<Rightarrow> True | Some f \<Rightarrow> fstart f < fend f)"
  shows "ass_inv v (lnext (lineAt (vb v) i)) q"
proof -
  let ?l = "lineAt (vb v) i"
  have "off v i \<le> off v (lnext ?l)" using lineAt_next [OF i] by (simp add: off_mono)
  then have k: "events_wf (base v) (off v (lnext ?l)) (aevents p)"
    using inv events_wf_hi by (auto simp: ass_inv_def)
  have ev: "eventLine decode d e v ?l p = Inr q \<Longrightarrow> ass_inv v (lnext ?l) q"
    using k inv ord assDialogue_wf [OF _ refl i] readASSFormat_ok
    by (fastforce simp: eventLine_def ass_inv_def events_wf_snoc split: option.splits)
  show ?thesis
    using q ev k inv by (auto simp: assLine_def ass_inv_def Let_def split: if_splits option.splits)
qed

lemma parseASS_wf:
  assumes c: "parseASS decode d v e = Inr c" and ord: "formatsOrdered (vb v)"
  shows "events_wf (base v) (off v (length (vb v))) (events c)"
proof -
  let ?ok = "\<lambda>l. case cutKey (content (vb v) l) ''Format:'' of None \<Rightarrow> True
        | Some val \<Rightarrow> (case readASSFormat val of None \<Rightarrow> True | Some f \<Rightarrow> fstart f < fend f)"
  let ?I = "\<lambda>i p. ass_inv v i p \<and> list_all ?ok (linesFrom (vb v) i)"
  from c obtain p where p: "scanLines (assLine decode d e v) (vb v) 0 assInit = Inr p"
    and ev: "events c = aevents p"
    by (auto simp: parseASS_def split: sum.splits)
  have "ass_inv v 0 assInit"
    by (simp add: ass_inv_def assInit_def defaultASSFields_def fields_ok_def off_def)
  then have 0: "?I 0 assInit" using ord by (simp add: formatsOrdered_def)
  have "?I (length (vb v)) p"
  proof (rule scanLines_invariant [of _ _ _ _ _ ?I, OF p 0])
    fix i p q
    assume i: "i < length (vb v)" and I: "?I i p" and q: "assLine decode d e v (lineAt (vb v) i) p = Inr q"
    then have "?ok (lineAt (vb v) i)" "list_all ?ok (linesFrom (vb v) (lnext (lineAt (vb v) i)))"
      by (simp_all add: linesFrom.simps [of "vb v" i])
    then show "?I (lnext (lineAt (vb v) i)) q" using ass_inv_line [OF i _ q] I by blast
  qed simp
  then show ?thesis by (simp add: ev ass_inv_def)
qed

subsection \<open>Properties\<close>

text \<open>C18. An ASS or SSA document whose Format lines name Start before End parses into events whose
  lines follow one another inside the document and in which the start stamp, the end stamp and the
  text stand in that order without overlapping.\<close>

theorem parseASS_spans:
  assumes "newView d e = Inr v" and "formatsOrdered (vb v)" and "parseASS decode d v e = Inr c"
  shows "events_wf 0 (length d) (events c)"
  using parseASS_wf [OF assms(3,2)] newView_off [OF assms(1)] events_wf_mono [of "base v"] by simp

text \<open>The definitions a concrete ASS document evaluates through.\<close>

lemmas dialogueFields_numeral =
  dialogueFields.simps(2) [of _ _ _ "pred_numeral n" for n, folded numeral_eq_Suc]

lemmas ass_eval = dialogueFields_numeral doc_eval parseASS_def assLine_def assInit_def
  defaultASSFields_def trimBlank_def lower_other eventLine_def cutKey_def assDialogue_def
  assTime_def trimmedBounds_def slice_def orFormat_def scriptTypes_def readASSFormat_def
  formatsOrdered_def linesFrom.simps

definition assDoc :: string where
  "assDoc = ''[Events]'' @ [LF] @ ''Dialogue: 0,0:0:1.0,0:0:2.0,,,,,,,x''"

definition assEvent :: cue where
  "assEvent = \<lparr>cstyle = [], startMs = 1000, endMs = 2000, cstart = \<lparr>sfrom = 21, sto = 28\<rparr>,
     cend = \<lparr>sfrom = 29, sto = 36\<rparr>, ctext = \<lparr>sfrom = 43, sto = 44\<rparr>,
     cblock = \<lparr>sfrom = 9, sto = 44\<rparr>, cindex = noSpan\<rparr>"

lemma newView_assDoc: "newView assDoc UTF8 = Inr \<lparr>vb = assDoc, base = 0, unit = 1\<rparr>"
  by (simp add: ass_eval assDoc_def)

lemma formatsOrdered_assDoc: "formatsOrdered (vb \<lparr>vb = assDoc, base = 0, unit = 1\<rparr>)"
  by (simp add: ass_eval assDoc_def)

lemma parseASS_assDoc:
  "parseASS (\<lambda>_ s. s) assDoc \<lparr>vb = assDoc, base = 0, unit = 1\<rparr> UTF8
   = Inr \<lparr>doc = assDoc, events = [assEvent], format = ASS, enc = UTF8\<rparr>"
  by (simp add: ass_eval assDoc_def assEvent_def)

theorem parseASS_spans_witness: "events_wf 0 44 [assEvent]"
  using parseASS_spans [OF newView_assDoc formatsOrdered_assDoc parseASS_assDoc]
  by (simp add: assDoc_def)

end
