(* ===== verification/ParseVTT.thy ===== *)
theory ParseVTT
  imports ParseASS
begin

text \<open>
  internal/timing/parse_vtt.go and the entry points of cues.go: a WebVTT document is converted to
  SubRip once and that text is parsed, so \<open>parse\<close> calls itself on the conversion. \<open>vttWriter\<close> is
  the conversion's state; the document and its view are arguments. The recursion ends because a
  conversion starts with a cue number, which no WebVTT document does (\<open>vttConvert_not_WebVTT\<close>).
  Encoding detection (\<^verbatim>\<open>subtitleenc.Detect\<close>, over golang.org/x/text) is the parameter \<open>detect\<close>.
\<close>

datatype vtt_error = NoVTTTiming | PastSRT

definition contains :: "string \<Rightarrow> string \<Rightarrow> bool" where
  "contains p s \<longleftrightarrow> list_ex (\<lambda>i. hasPrefix p (drop i s)) [0..<length s + 1]"

definition maxSRTHour :: nat where "maxSRTHour = 999"

subsection \<open>Timing lines\<close>

definition hourStep :: "nat \<Rightarrow> char \<Rightarrow> nat" where
  "hourStep v c = (if v \<le> maxSRTHour then v * 10 + digit_val c else v)"

definition hourDigits :: "string \<Rightarrow> nat \<Rightarrow> nat \<times> nat" where
  "hourDigits b i =
     (let run = takeWhile isDigit (drop i b) in (foldl hourStep 0 run, i + length run))"

definition fixedDigits :: "string \<Rightarrow> nat \<Rightarrow> nat \<Rightarrow> nat \<Rightarrow> nat \<times> nat \<times> bool" where
  "fixedDigits b i minN maxN = (case digits b i maxN of (v, n, ok) \<Rightarrow> (v, n, ok \<and> minN \<le> n - i))"

definition at_colon :: "string \<Rightarrow> nat \<Rightarrow> bool" where
  "at_colon b j \<longleftrightarrow> j < length b \<and> b ! j = CHR '':''"

definition vttClock :: "string \<Rightarrow> nat \<Rightarrow> ((nat \<times> nat \<times> nat) \<times> nat) option" where
  "vttClock b i =
     (case hourDigits b i of (h1, j) \<Rightarrow>
        if j = i \<or> \<not> at_colon b j then None
        else let hours = (j - i \<noteq> 2 \<or> 59 < h1)
             in case fixedDigits b (j + 1) 2 2 of (h2, j2, ok2) \<Rightarrow>
                  if \<not> ok2 then None
                  else if \<not> hours \<and> \<not> at_colon b j2 then Some ((0, h1, h2), j2)
                  else if \<not> at_colon b j2 then None
                  else (case fixedDigits b (j2 + 1) 2 2 of (h3, j3, ok3) \<Rightarrow>
                          if ok3 then Some ((h1, h2, h3), j3) else None))"

definition vttStamp :: "string \<Rightarrow> nat \<Rightarrow> vtt_error + (nat \<times> nat)" where
  "vttStamp b i =
     (case vttClock b i of None \<Rightarrow> Inl NoVTTTiming
      | Some ((h, m, s), j) \<Rightarrow>
          if length b \<le> j \<or> b ! j \<noteq> CHR ''.'' then Inl NoVTTTiming
          else case fixedDigits b (j + 1) 3 3 of (fr, k, ok) \<Rightarrow>
                 if \<not> ok \<or> 59 < m \<or> 59 < s then Inl NoVTTTiming
                 else if maxSRTHour < h then Inl PastSRT
                 else Inr (((h * 60 + m) * 60 + s) * 1000 + fr, k))"

definition vttTiming :: "string \<Rightarrow> vtt_error + (nat \<times> nat)" where
  "vttTiming b =
     (if \<not> isASCII b then Inl NoVTTTiming else
      case vttStamp b (skipBlank b 0) of Inl err \<Rightarrow> Inl err | Inr (s, i) \<Rightarrow>
        (case cut_prefix ''-->'' (drop (skipBlank b i) b) of None \<Rightarrow> Inl NoVTTTiming | Some rest \<Rightarrow>
           (case vttStamp b (skipBlank b (length b - length rest)) of Inl err \<Rightarrow> Inl err | Inr (n, j) \<Rightarrow>
              if j < length b \<and> \<not> isBlank (b ! j) then Inl NoVTTTiming else Inr (s, n))))"

subsection \<open>Cue text\<close>

definition vttReferences :: "string \<Rightarrow> (string \<times> string) option" where
  "vttReferences name =
     (if name = ''amp'' then Some (''&'', ''&'')
      else if name = ''lt'' then Some (''<'', ''<'')
      else if name = ''gt'' then Some (''>'', ''>'')
      else if name = ''nbsp'' then Some ([CHR 0xC2, CHR 0xA0], '' '')
      else if name = ''lrm'' then Some ([CHR 0xE2, CHR 0x80, CHR 0x8E], [])
      else if name = ''rlm'' then Some ([CHR 0xE2, CHR 0x80, CHR 0x8F], [])
      else None)"

definition maxReferenceName :: nat where "maxReferenceName = 4"

definition reference :: "Encoding \<Rightarrow> string \<Rightarrow> string \<times> string \<Rightarrow> string" where
  "reference e out r = (if e = UTF8 then out @ fst r else appendASCII out (snd r) e)"

definition vttTag :: "Encoding \<Rightarrow> string \<Rightarrow> string \<Rightarrow> string" where
  "vttTag e out body =
     (let closer = hasPrefix ''/'' body;
          name = takeWhile (\<lambda>c. c \<notin> {CHR ''.'', CHR '' '', TAB}) (if closer then drop 1 body else body)
      in if length name \<noteq> 1 \<or> hd name \<notin> set ''ibu'' then out
         else if closer then appendASCII out (''</'' @ name @ ''>'') e
         else appendASCII out (''<'' @ name @ ''>'') e)"

definition copyText :: "string \<Rightarrow> view \<Rightarrow> string \<Rightarrow> nat \<Rightarrow> nat \<Rightarrow> string" where
  "copyText d v out f t = out @ slice d (off v f) (off v t)"

text \<open>\<open>payload\<close>: the loop over view offsets \<open>k\<close> up to the line's end \<open>le\<close>; \<open>f\<close> is Go's \<^verbatim>\<open>from\<close>.\<close>

function payloadLoop :: "string \<Rightarrow> view \<Rightarrow> Encoding \<Rightarrow> nat \<Rightarrow> nat \<Rightarrow> nat \<Rightarrow> string \<Rightarrow> string" where
  "payloadLoop d v e le k f out =
     (if le \<le> k then copyText d v out f le
      else if vb v ! k = CHR ''<'' then
        let out1 = copyText d v out f k;
            rest = slice (vb v) k le;
            n = length (takeWhile (\<lambda>c. c \<noteq> CHR ''>'') rest)
        in if n = length rest then out1
           else payloadLoop d v e le (k + n + 1) (k + n + 1) (vttTag e out1 (slice (vb v) (k + 1) (k + n)))
      else if vb v ! k = CHR ''&'' then
        let window = slice (vb v) (k + 1) (min le (k + 2 + maxReferenceName));
            name = takeWhile (\<lambda>c. c \<noteq> CHR '';'') window
        in if length name = length window then payloadLoop d v e le (k + 1) f out
           else (case vttReferences name of
                   None \<Rightarrow> payloadLoop d v e le (k + 1) f out
                 | Some r \<Rightarrow>
                     payloadLoop d v e le (k + length name + 2) (k + length name + 2)
                       (reference e (copyText d v out f k) r))
      else payloadLoop d v e le (k + 1) f out)"
  by pat_completeness auto
termination
  by (relation "measure (\<lambda>(d, v, e, le, k, f, out). le - k)") auto

declare payloadLoop.simps [simp del]

definition payload :: "string \<Rightarrow> view \<Rightarrow> Encoding \<Rightarrow> line \<Rightarrow> string \<Rightarrow> string" where
  "payload d v e p out = payloadLoop d v e (lend p) (lstart p) (lstart p) out"

subsection \<open>Blocks\<close>

definition blankLine :: "string \<Rightarrow> nat \<Rightarrow> bool" where
  "blankLine b i \<longleftrightarrow> length (trimBlank (content b (lineAt b i))) = 0"

function skipBlock :: "string \<Rightarrow> nat \<Rightarrow> nat" where
  "skipBlock b i =
     (if i < length b then (if blankLine b i then i else skipBlock b (lnext (lineAt b i))) else i)"
  by pat_completeness auto
termination
  by (relation "measure (\<lambda>(b, i). length b - i)") (auto dest: lineAt_next)

declare skipBlock.simps [simp del]

definition isVTTBlockKeyword :: "string \<Rightarrow> bool" where
  "isVTTBlockKeyword c \<longleftrightarrow>
     list_ex (\<lambda>kw. case cut_prefix kw c of None \<Rightarrow> False
        | Some rest \<Rightarrow> rest = [] \<or> hd rest = CHR '' '' \<or> hd rest = TAB) [''NOTE'', ''STYLE'', ''REGION'']"

record vttWriter =
  wout :: string
  wnl :: string
  wn :: nat
  werr :: "parse_error option"

text \<open>The payload lines of one cue; the result is the text and where the next block starts.\<close>

function payloads :: "string \<Rightarrow> view \<Rightarrow> Encoding \<Rightarrow> string \<Rightarrow> nat \<Rightarrow> string \<Rightarrow> string \<times> nat" where
  "payloads d v e nl i out =
     (if i < length (vb v) then
        let p = lineAt (vb v) i; c = content (vb v) p
        in if length (trimBlank c) = 0 \<or> contains ''-->'' c then (out, i)
           else payloads d v e nl (lnext p) (appendASCII (payload d v e p out) nl e)
      else (out, i))"
  by pat_completeness auto
termination
  by (relation "measure (\<lambda>(d, v, e, nl, i, out). length (vb v) - i)") (auto dest: lineAt_next)

declare payloads.simps [simp del]

definition srtStamp :: "nat \<Rightarrow> string" where
  "srtStamp ms = pad 2 (ms div 3600000) @ '':'' @ pad 2 (ms div 60000 mod 60) @ '':''
     @ pad 2 (ms div 1000 mod 60) @ '','' @ pad 3 (ms mod 1000)"

definition vttCue :: "string \<Rightarrow> view \<Rightarrow> Encoding \<Rightarrow> line \<Rightarrow> vttWriter \<Rightarrow> vttWriter \<times> nat" where
  "vttCue d v e l w =
     (case vttTiming (content (vb v) l) of
        Inl NoVTTTiming \<Rightarrow> (w, skipBlock (vb v) (lnext l))
      | Inl PastSRT \<Rightarrow> (w\<lparr>werr := Some VTTPastSRT\<rparr>, length (vb v))
      | Inr (s, n) \<Rightarrow>
          let k = wn w + 1;
              out1 = appendASCII (wout w) (dec k @ wnl w @ srtStamp s @ '' --> '' @ srtStamp n @ wnl w) e
          in case payloads d v e (wnl w) (lnext l) out1 of
               (out2, i) \<Rightarrow> (w\<lparr>wn := k, wout := appendASCII out2 (wnl w) e\<rparr>, i))"

subsection \<open>The conversion\<close>

lemma skipBlock_ge: "i \<le> skipBlock b i"
proof (induction b i rule: skipBlock.induct)
  case (1 b i)
  show ?case
    using "1.IH" lineAt_next [of i b] by (subst skipBlock.simps) (auto split: if_splits)
qed

lemma payloads_ge: "i \<le> snd (payloads d v e nl i out)"
proof (induction d v e nl i out rule: payloads.induct)
  case (1 d v e nl i out)
  show ?case
    using "1.IH" lineAt_next [of i "vb v"] by (subst payloads.simps) (fastforce simp: Let_def)
qed

lemma vttCue_ge: "lnext l \<le> length (vb v) \<Longrightarrow> lnext l \<le> snd (vttCue d v e l w)"
  using skipBlock_ge payloads_ge
  by (auto simp: vttCue_def Let_def split: sum.splits vtt_error.splits prod.splits) (metis snd_conv)

lemma vttCue_progress:
  assumes "i < length (vb v)" and "(w', j) = vttCue d v e (lineAt (vb v) i) w"
  shows "i < j"
proof -
  have "lnext (lineAt (vb v) i) \<le> snd (vttCue d v e (lineAt (vb v) i) w)"
    using lineAt_next [OF assms(1)] by (intro vttCue_ge) simp
  then show ?thesis using lineAt_next [OF assms(1)] assms(2) by (metis less_le_trans snd_conv)
qed

lemma skipBlock_progress: "i < length b \<Longrightarrow> i < skipBlock b (lnext (lineAt b i))"
  using lineAt_next skipBlock_ge less_le_trans by blast

function vttLoop :: "string \<Rightarrow> view \<Rightarrow> Encoding \<Rightarrow> nat \<Rightarrow> vttWriter \<Rightarrow> vttWriter" where
  "vttLoop d v e i w =
     (if i < length (vb v) then
        let l = lineAt (vb v) i; c = content (vb v) l
        in if length (trimBlank c) = 0 then vttLoop d v e (lnext l) w
           else if isVTTBlockKeyword c then vttLoop d v e (skipBlock (vb v) (lnext l)) w
           else if contains ''-->'' c
           then (case vttCue d v e l w of (w', j) \<Rightarrow> vttLoop d v e j w')
           else let n = lineAt (vb v) (lnext l)
                in if lnext l < length (vb v) \<and> contains ''-->'' (content (vb v) n)
                   then (case vttCue d v e n w of (w', j) \<Rightarrow> vttLoop d v e j w')
                   else vttLoop d v e (skipBlock (vb v) (lnext l)) w
      else w)"
  by pat_completeness auto
termination
proof (relation "measure (\<lambda>(d, v, e, i, w). length (vb v) - i)", goal_cases)
  case (5 d v e i w x xa xb z y)
  then have "lnext (lineAt (vb v) i) < y" using vttCue_progress by metis
  then show ?case using 5 lineAt_next [of i "vb v"] by (auto intro!: diff_less_mono2)
qed (auto dest: lineAt_next vttCue_progress skipBlock_progress intro: diff_less_mono2)

declare vttLoop.simps [simp del]

definition vttConvert :: "string \<Rightarrow> view \<Rightarrow> Encoding \<Rightarrow> parse_error + string" where
  "vttConvert d v e =
     (let l0 = lineAt (vb v) 0;
          nl = (if lnext l0 - lend l0 = 2 then [CR, LF] else [LF]);
          i = skipBlock (vb v) (lnext l0);
          w = vttLoop d v e i \<lparr>wout = take (base v) d, wnl = nl, wn = 0, werr = None\<rparr>
      in case werr w of Some err \<Rightarrow> Inl err
         | None \<Rightarrow> if wn w = 0 then Inl NoVTTCue else Inr (wout w))"

text \<open>The writer only appends, so its first cue number stays first.\<close>

definition grows :: "string \<Rightarrow> string \<Rightarrow> bool" where
  "grows out out' \<longleftrightarrow> (\<exists>r. out' = out @ r)"

lemma grows_refl [simp, intro]: "grows out out"
  by (simp add: grows_def)

lemma grows_trans: "grows a b \<Longrightarrow> grows b c \<Longrightarrow> grows a c"
  by (auto simp: grows_def)

lemma grows_append: "grows a b \<Longrightarrow> grows a (b @ r)"
  by (auto simp: grows_def)

lemma grows_appendASCII: "grows a b \<Longrightarrow> grows a (appendASCII b s e)"
  by (simp add: appendASCII_def grows_append)

lemma grows_copyText: "grows a b \<Longrightarrow> grows a (copyText d v b f t)"
  by (simp add: copyText_def grows_append)

lemma grows_vttTag: "grows a b \<Longrightarrow> grows a (vttTag e b body)"
  by (simp add: vttTag_def Let_def grows_appendASCII)

lemma grows_reference: "grows a b \<Longrightarrow> grows a (reference e b r)"
  by (simp add: reference_def grows_appendASCII grows_append)

lemmas grows = grows_copyText grows_vttTag grows_reference grows_appendASCII grows_append

lemma payloadLoop_grows: "grows out (payloadLoop d v e le k f out)"
proof (induction "le - k" arbitrary: k f out rule: less_induct)
  case less
  have IH: "grows a (payloadLoop d v e le (Suc k) f' out')"
      "grows a (payloadLoop d v e le (Suc (k + n)) f' out')"
      "grows a (payloadLoop d v e le (Suc (Suc (k + n))) f' out')"
    if "\<not> le \<le> k" "grows a out'" for n f' out' a
    by (rule grows_trans [OF that(2) less], use that in simp)+
  show ?case
    by (subst payloadLoop.simps) (auto simp: Let_def intro!: grows IH split: option.splits)
qed

lemma payloads_grows: "grows out (fst (payloads d v e nl i out))"
proof (induction d v e nl i out rule: payloads.induct)
  case (1 d v e nl i out)
  have "grows out (appendASCII (payload d v e (lineAt (vb v) i) out) nl e)"
    by (auto simp: payload_def intro: grows_appendASCII payloadLoop_grows)
  then show ?case
    using "1.IH" by (subst payloads.simps) (auto simp: Let_def intro: grows_trans)
qed

text \<open>Until its first cue the output is the byte order mark alone; from then on a 1 follows it.\<close>

definition vtt_inv :: "Encoding \<Rightarrow> string \<Rightarrow> vttWriter \<Rightarrow> bool" where
  "vtt_inv e pre w \<longleftrightarrow> (if wn w = 0 then wout w = pre else grows (pre @ asciiUnit e (CHR ''1'')) (wout w))"

lemma vttCue_inv:
  assumes "vtt_inv e pre w"
  shows "vtt_inv e pre (fst (vttCue d v e l w))"
proof (cases "vttTiming (content (vb v) l)")
  case (Inl err)
  then show ?thesis using assms by (cases err) (simp_all add: vttCue_def vtt_inv_def)
next
  case (Inr sn)
  obtain s n where sn: "sn = (s, n)" by fastforce
  define out1 where "out1 = appendASCII (wout w)
    (dec (wn w + 1) @ wnl w @ srtStamp s @ '' --> '' @ srtStamp n @ wnl w) e"
  obtain out2 i where p: "payloads d v e (wnl w) (lnext l) out1 = (out2, i)" by fastforce
  have "grows (pre @ asciiUnit e (CHR ''1'')) out1"
  proof (cases "wn w = 0")
    case True
    have "dec 1 = ''1''" by (subst dec.simps) simp
    then show ?thesis using assms True by (simp add: out1_def appendASCII_def vtt_inv_def grows_def)
  next
    case False
    then show ?thesis using assms by (simp add: out1_def vtt_inv_def grows_appendASCII)
  qed
  then have "grows (pre @ asciiUnit e (CHR ''1'')) out2"
    using payloads_grows [of out1 d v e "wnl w" "lnext l"] p by (auto intro: grows_trans)
  then show ?thesis
    using Inr sn p [unfolded out1_def] by (simp add: vttCue_def Let_def vtt_inv_def grows_appendASCII)
qed

lemma vttLoop_inv: "vtt_inv e pre w \<Longrightarrow> vtt_inv e pre (vttLoop d v e i w)"
proof (induction "length (vb v) - i" arbitrary: i w rule: less_induct)
  case less
  have IH: "vtt_inv e pre (vttLoop d v e j w')"
    if "i < length (vb v)" "i < j" "vtt_inv e pre w'" for j w'
    by (rule less.hyps) (use that in simp_all)
  have cue: "vtt_inv e pre (case vttCue d v e (lineAt (vb v) k) w of (w', j) \<Rightarrow> vttLoop d v e j w')"
    if "i < length (vb v)" "i \<le> k" "k < length (vb v)" for k
    using that vttCue_inv [OF less.prems, of d v "lineAt (vb v) k"] vttCue_progress [OF that(3)]
    by (auto intro!: IH split: prod.splits) (metis le_less_trans)+
  show ?case
    using less.prems lineAt_next [of i "vb v"] skipBlock_progress [of i "vb v"] cue
    by (subst vttLoop.simps) (auto simp: Let_def intro!: IH)
qed

lemma vttConvert_grows:
  assumes "vttConvert d v e = Inr out"
  shows "grows (take (base v) d @ asciiUnit e (CHR ''1'')) out"
proof -
  let ?w = "\<lparr>wout = take (base v) d, wnl = (if lnext (lineAt (vb v) 0) - lend (lineAt (vb v) 0) = 2
    then [CR, LF] else [LF]), wn = 0, werr = None\<rparr>"
  have "vtt_inv e (take (base v) d)
      (vttLoop d v e (skipBlock (vb v) (lnext (lineAt (vb v) 0))) ?w)"
    by (rule vttLoop_inv) (simp add: vtt_inv_def)
  then show ?thesis
    using assms by (auto simp: vttConvert_def Let_def vtt_inv_def split: option.splits if_splits)
qed

lemma newView_digit:
  assumes v: "newView d e = Inr v" and g: "grows (take (base v) d @ asciiUnit e (CHR ''1'')) out"
    and v': "newView out e = Inr v'"
  shows "\<exists>r. vb v' = CHR ''1'' # r"
proof -
  obtain r where out: "out = take (base v) d @ asciiUnit e (CHR ''1'') @ r" using g by (auto simp: grows_def)
  have take_prefix: "hasPrefix p d \<Longrightarrow> take (length p) d = p" for p by (simp add: hasPrefix_def)
  show ?thesis
  proof (cases "e = UTF16LE \<or> e = UTF16BE")
    case False
    then have "base v = (if hasPrefix bomUTF8 d then length bomUTF8 else 0)"
      using v by (auto simp: newView_def Let_def split: if_splits)
    then have "out = (if hasPrefix bomUTF8 d then bomUTF8 else []) @ ''1'' @ r"
      using out False take_prefix by (simp add: asciiUnit_def)
    then show ?thesis
      using v' False by (auto simp: newView_def Let_def hasPrefix_def bomUTF8_def split: if_splits)
  next
    case True
    define bom where "bom = (if e = UTF16LE then bomUTF16LE else bomUTF16BE)"
    have "base v = (if hasPrefix bom d then length bom else 0)"
      using v True by (auto simp: newView_def utf16View_def bom_def Let_def split: if_splits)
    then have "out = (if hasPrefix bom d then bom else []) @ asciiUnit e (CHR ''1'') @ r"
      using out take_prefix by simp
    then show ?thesis
      using v' True by (auto simp: newView_def utf16View_def bom_def Let_def hasPrefix_def asciiUnit_def
          bomUTF16LE_def bomUTF16BE_def above7F_def split: if_splits)
  qed
qed

lemma vttConvert_not_WebVTT:
  assumes "newView d e = Inr v" and "vttConvert d v e = Inr out" and "newView out e = Inr v'"
  shows "\<not> isWebVTT (vb v')"
  using newView_digit [OF assms(1) vttConvert_grows [OF assms(2)] assms(3)]
  by (auto simp: isWebVTT_def)

subsection \<open>Parsing any document\<close>

function parse ::
  "(Encoding \<Rightarrow> string \<Rightarrow> string) \<Rightarrow> string \<Rightarrow> Encoding \<Rightarrow> parse_error + Cues" where
  "parse decode b e =
     (if container b \<noteq> [] then Inl (IsContainer (container b)) else
      case newView b e of Inl err \<Rightarrow> Inl err | Inr v \<Rightarrow>
        if isWebVTT (vb v)
        then (case vttConvert b v e of Inl err \<Rightarrow> Inl err | Inr out \<Rightarrow> parse decode out e)
        else (case (if isASSFamily (vb v) then parseASS decode b v e else parseSRT b v e) of
                Inl err \<Rightarrow> Inl err
              | Inr c \<Rightarrow> if length (events c) = 0 then Inl (Untimed (untimed (vb v))) else Inr c))"
  by pat_completeness auto
termination
  by (relation "measure (\<lambda>(decode, b, e).
        case newView b e of Inl _ \<Rightarrow> 0 | Inr v \<Rightarrow> if isWebVTT (vb v) then 1 else 0)")
    (auto dest: vttConvert_not_WebVTT split: sum.splits)

declare parse.simps [simp del]

definition ParseCues ::
  "(Encoding \<Rightarrow> string \<Rightarrow> string) \<Rightarrow> (string \<Rightarrow> Encoding) \<Rightarrow> string \<Rightarrow> parse_error + Cues" where
  "ParseCues decode detect b =
     (case checkSize b maxDocumentBytes of Some err \<Rightarrow> Inl err | None \<Rightarrow> parse decode b (detect b))"

end
