(* ===== verification/Timing.thy ===== *)
theory Timing
  imports F64
begin

text \<open>
  internal/timing/timing.go and validate.go: a \<open>Timing\<close> maps each cue's baseline time
  to the time a media server shows it. Milliseconds are Go \<^verbatim>\<open>int64\<close>s; every bound the code
  checks keeps them far from the end of the type, so they are \<^typ>\<open>int\<close> here, and
  TimingCodec reads them with the 64-bit range written out. A scale is a \<^typ>\<open>f64\<close>.
  \<open>NilTiming\<close> is the interface value with no variant in it. An error is a value of
  \<open>timing_error\<close>; all of them are the sentinel \<^verbatim>\<open>ErrTimingInvalid\<close>.
\<close>

record Segment =
  FromMs :: int
  ToMs :: int
  OffsetMs :: int
  Drop :: bool

datatype Timing =
    NilTiming
  | Identity
  | Shift int
  | Linear f64 int
  | Piecewise f64 "Segment list"

datatype timing_error =
    UnknownVariant
  | OffsetOutside int
  | ScaleOutside f64
  | SegmentCount nat
  | SegmentStarts nat
  | SegmentOffset nat
  | SegmentEnds nat
  | LastSegmentEnds int
  | NotCanonical

subsection \<open>Bounds\<close>

definition maxOffsetMs :: int where "maxOffsetMs = 21600000"
definition minSegments :: nat where "minSegments = 2"
definition maxSegments :: nat where "maxSegments = 2048"
definition maxSegmentEndMs :: int where "maxSegmentEndMs = 86400000"

text \<open>The constants 0.9 and 1.1 as the floats nearest to them, and the float 1.\<close>

definition minScale :: f64 where "minScale = 0x3FECCCCCCCCCCCCD"
definition maxScale :: f64 where "maxScale = 0x3FF199999999999A"
definition oneScale :: f64 where "oneScale = 0x3FF0000000000000"

definition checkOffset :: "int \<Rightarrow> timing_error option" where
  "checkOffset ms = (if ms < - maxOffsetMs \<or> maxOffsetMs < ms then Some (OffsetOutside ms) else None)"

definition checkScale :: "f64 \<Rightarrow> timing_error option" where
  "checkScale s =
     (if f64_isNaN s \<or> f64_val s < f64_val minScale \<or> f64_val maxScale < f64_val s
      then Some (ScaleOutside s) else None)"

fun checkChain :: "nat \<Rightarrow> nat \<Rightarrow> int \<Rightarrow> Segment list \<Rightarrow> timing_error option" where
  "checkChain n i from [] = (if from \<noteq> 0 then Some (LastSegmentEnds from) else None)"
| "checkChain n i from (s # ss) =
     (if FromMs s \<noteq> from then Some (SegmentStarts i)
      else if OffsetMs s < - maxOffsetMs \<or> maxOffsetMs < OffsetMs s then Some (SegmentOffset i)
      else if i + 1 < n \<and> (ToMs s \<le> FromMs s \<or> maxSegmentEndMs < ToMs s) then Some (SegmentEnds i)
      else checkChain n (Suc i) (ToMs s) ss)"

definition checkSegments :: "Segment list \<Rightarrow> timing_error option" where
  "checkSegments segs =
     (let n = length segs
      in if n < minSegments \<or> maxSegments < n then Some (SegmentCount n)
         else checkChain n 0 0 segs)"

fun checkBounds :: "Timing \<Rightarrow> timing_error option" where
  "checkBounds Identity = None"
| "checkBounds (Shift ms) = checkOffset ms"
| "checkBounds (Linear s off) = (case checkScale s of Some e \<Rightarrow> Some e | None \<Rightarrow> checkOffset off)"
| "checkBounds (Piecewise s segs) = (case checkScale s of Some e \<Rightarrow> Some e | None \<Rightarrow> checkSegments segs)"
| "checkBounds NilTiming = Some UnknownVariant"

subsection \<open>The canonical form\<close>

definition singleOffset :: "Segment list \<Rightarrow> int option" where
  "singleOffset segs =
     (case segs of [] \<Rightarrow> None
      | s0 # _ \<Rightarrow> if list_ex (\<lambda>s. Drop s \<or> OffsetMs s \<noteq> OffsetMs s0) segs then None else Some (OffsetMs s0))"

definition f64_eq :: "f64 \<Rightarrow> f64 \<Rightarrow> bool" where
  "f64_eq a b \<longleftrightarrow> \<not> f64_isNaN a \<and> \<not> f64_isNaN b \<and> f64_val a = f64_val b"

fun canonPiecewise :: "Timing \<Rightarrow> Timing" where
  "canonPiecewise (Piecewise s segs) =
     (case singleOffset segs of Some off \<Rightarrow> Linear s off | None \<Rightarrow> Piecewise s segs)"
| "canonPiecewise t = t"

fun canonLinear :: "Timing \<Rightarrow> Timing" where
  "canonLinear (Linear s off) = (if f64_eq s oneScale then Shift off else Linear s off)"
| "canonLinear t = t"

fun canonShift :: "Timing \<Rightarrow> Timing" where
  "canonShift (Shift ms) = (if ms = 0 then Identity else Shift ms)"
| "canonShift t = t"

definition Canonical :: "Timing \<Rightarrow> Timing" where
  "Canonical t = (if checkBounds t \<noteq> None then t else canonShift (canonLinear (canonPiecewise t)))"

fun variant :: "Timing \<Rightarrow> nat" where
  "variant NilTiming = 0"
| "variant Identity = 1"
| "variant (Shift _) = 2"
| "variant (Linear _ _) = 3"
| "variant (Piecewise _ _) = 4"

definition Validate :: "Timing \<Rightarrow> timing_error option" where
  "Validate t =
     (case checkBounds t of Some e \<Rightarrow> Some e
      | None \<Rightarrow> if variant (Canonical t) \<noteq> variant t then Some NotCanonical else None)"

subsection \<open>The segment of a cue\<close>

text \<open>
  render.go's \<^verbatim>\<open>segmentOf\<close>. The loop is Go's \<^verbatim>\<open>slices.BinarySearchFunc\<close> on
  \<^verbatim>\<open>v.Segments[:len-1]\<close>, whose comparison never answers 0.
\<close>

function searchSegment :: "Segment list \<Rightarrow> int \<Rightarrow> nat \<Rightarrow> nat \<Rightarrow> nat" where
  "searchSegment segs t i j =
     (if i < j then
        let h = (i + j) div 2
        in if ToMs (segs ! h) \<le> t then searchSegment segs t (h + 1) j else searchSegment segs t i h
      else i)"
  by pat_completeness auto
termination
  by (relation "measure (\<lambda>(segs, t, i, j). j - i)") auto

declare searchSegment.simps [simp del]

fun segmentOf :: "Timing \<Rightarrow> int \<Rightarrow> f64 \<times> int \<times> bool" where
  "segmentOf (Shift ms) start = (oneScale, ms, True)"
| "segmentOf (Linear s off) start = (s, off, True)"
| "segmentOf (Piecewise s segs) start =
     (let g = segs ! searchSegment segs start 0 (length segs - 1)
      in (s, OffsetMs g, \<not> Drop g))"
| "segmentOf t start = (oneScale, 0, True)"

subsection \<open>Facts on bounds and segments\<close>

lemma f64_val_oneScale [simp]: "f64_val oneScale = 1"
  by (simp add: f64_val_def oneScale_def f64_neg_def f64_exp_def f64_man_def power_int_def power_divide)

lemma f64_val_minScale [simp]: "f64_val minScale = 8106479329266893 / 2 ^ 53"
  by (simp add: f64_val_def minScale_def f64_neg_def f64_exp_def f64_man_def power_int_def power_divide)

lemma f64_val_maxScale [simp]: "f64_val maxScale = 4953959590107546 / 2 ^ 52"
  by (simp add: f64_val_def maxScale_def f64_neg_def f64_exp_def f64_man_def power_int_def power_divide)

lemma f64_isNaN_oneScale [simp]: "\<not> f64_isNaN oneScale"
  by (simp add: f64_isNaN_def oneScale_def f64_exp_def f64_man_def)

lemma f64_eq_one: "f64_eq s oneScale \<Longrightarrow> f64_val s = 1"
  by (simp add: f64_eq_def)

lemma checkScale_bounds: "checkScale s = None \<Longrightarrow> 89 / 100 \<le> f64_val s \<and> f64_val s \<le> 111 / 100"
  by (simp add: checkScale_def split: if_splits)

lemma checkOffset_None [simp]: "checkOffset ms = None \<longleftrightarrow> - maxOffsetMs \<le> ms \<and> ms \<le> maxOffsetMs"
  by (simp add: checkOffset_def)

text \<open>What \<open>checkSegments\<close> accepts, read off at each index.\<close>

fun chained :: "int \<Rightarrow> Segment list \<Rightarrow> bool" where
  "chained from [] \<longleftrightarrow> from = 0"
| "chained from (s # ss) \<longleftrightarrow> FromMs s = from \<and> - maxOffsetMs \<le> OffsetMs s \<and> OffsetMs s \<le> maxOffsetMs \<and>
     (ss \<noteq> [] \<longrightarrow> FromMs s < ToMs s \<and> ToMs s \<le> maxSegmentEndMs) \<and> chained (ToMs s) ss"

lemma chained_nth:
  "chained from segs \<Longrightarrow> k < length segs \<Longrightarrow>
     FromMs (segs ! k) = (if k = 0 then from else ToMs (segs ! (k - 1))) \<and>
     - maxOffsetMs \<le> OffsetMs (segs ! k) \<and> OffsetMs (segs ! k) \<le> maxOffsetMs \<and>
     (Suc k < length segs \<longrightarrow> FromMs (segs ! k) < ToMs (segs ! k) \<and> ToMs (segs ! k) \<le> maxSegmentEndMs)"
proof (induction "from" segs arbitrary: k rule: chained.induct)
  case (1 "from")
  then show ?case by simp
next
  case (2 "from" s ss)
  show ?case
  proof (cases k)
    case 0
    with 2 show ?thesis by auto
  next
    case (Suc j)
    with 2 have "chained (ToMs s) ss" "j < length ss" by simp_all
    from "2.IH" [OF this] Suc show ?thesis by (cases j) auto
  qed
qed

lemma checkChain_chained:
  "i + length segs = n \<Longrightarrow> checkChain n i from segs = None \<Longrightarrow> chained from segs"
  by (induction n i "from" segs rule: checkChain.induct) (auto split: if_splits)

lemma checkSegments_chained:
  "checkSegments segs = None \<Longrightarrow> chained 0 segs \<and> 2 \<le> length segs \<and> length segs \<le> 2048"
  using checkChain_chained [of 0 segs "length segs" 0]
  by (cases "segs = []") (auto simp: checkSegments_def Let_def minSegments_def maxSegments_def split: if_splits)

lemma chained_from_less_to:
  "chained from segs \<Longrightarrow> Suc k < length segs \<Longrightarrow> FromMs (segs ! k) < ToMs (segs ! k)"
  using chained_nth [of "from" segs k] by simp

lemma chained_mono:
  assumes c: "chained from segs" and "Suc m < length segs" and "k \<le> m"
  shows "ToMs (segs ! k) \<le> ToMs (segs ! m)"
  using assms(3,2)
proof (induction m rule: dec_induct)
  case base
  then show ?case by simp
next
  case (step j)
  then have "ToMs (segs ! k) \<le> ToMs (segs ! j)" by simp
  also have "\<dots> = FromMs (segs ! Suc j)" using chained_nth [OF c, of "Suc j"] step.prems by simp
  also have "\<dots> < ToMs (segs ! Suc j)" using c step.prems by (rule chained_from_less_to)
  finally show ?case by simp
qed

lemma searchSegment_le: "i \<le> j \<Longrightarrow> searchSegment segs t i j \<le> j"
proof (induction segs t i j rule: searchSegment.induct)
  case (1 segs t i j)
  show ?case
  proof (cases "i < j")
    case True
    then have "(i + j) div 2 < j" "i \<le> (i + j) div 2" by simp_all
    then show ?thesis using True 1 by (auto simp: searchSegment.simps [of segs t i j] Let_def intro: le_trans)
  next
    case False
    then show ?thesis using "1.prems" by (subst searchSegment.simps) simp
  qed
qed

text \<open>The search keeps: everything below \<open>i\<close> ends at or before \<open>t\<close>, everything from
  \<open>j\<close> on ends after it.\<close>

lemma searchSegment_split:
  assumes "\<And>k m. k \<le> m \<Longrightarrow> m < n \<Longrightarrow> ToMs (segs ! k) \<le> ToMs (segs ! m)"
    and "i \<le> j" and "j \<le> n"
    and "\<And>k. k < i \<Longrightarrow> ToMs (segs ! k) \<le> t" and "\<And>k. j \<le> k \<Longrightarrow> k < n \<Longrightarrow> t < ToMs (segs ! k)"
    and "r = searchSegment segs t i j"
  shows "(\<forall>k < r. ToMs (segs ! k) \<le> t) \<and> (\<forall>k. r \<le> k \<and> k < n \<longrightarrow> t < ToMs (segs ! k))"
  using assms
proof (induction segs t i j rule: searchSegment.induct)
  case (1 segs t i j)
  show ?case
  proof (cases "i < j")
    case True
    let ?h = "(i + j) div 2"
    have h: "i \<le> ?h" "?h < j" using True by simp_all
    show ?thesis
    proof (cases "ToMs (segs ! ?h) \<le> t")
      case up: True
      have r: "r = searchSegment segs t (?h + 1) j"
        using "1.prems"(6) True up by (simp add: searchSegment.simps [of segs t i j] Let_def)
      have "ToMs (segs ! k) \<le> t" if "k < ?h + 1" for k
        using "1.prems"(1) [of k ?h] that h "1.prems"(3) up by fastforce
      then show ?thesis
        by (intro "1.IH"(1) [OF True refl up "1.prems"(1) _ "1.prems"(3) _ "1.prems"(5) r]) (use h in auto)
    next
      case down: False
      have r: "r = searchSegment segs t i ?h"
        using "1.prems"(6) True down by (simp add: searchSegment.simps [of segs t i j] Let_def)
      have "t < ToMs (segs ! k)" if "?h \<le> k" "k < n" for k
        using "1.prems"(1) [of ?h k] that down by fastforce
      then show ?thesis
        by (intro "1.IH"(2) [OF True refl down "1.prems"(1) h(1) _ "1.prems"(4) _ r]) (use h "1.prems"(3) in auto)
    qed
  next
    case False
    then have "searchSegment segs t i j = i" by (subst searchSegment.simps) simp
    then have "r = i" "i = j" using "1.prems"(2,6) False by simp_all
    then show ?thesis using "1.prems"(4,5) by simp
  qed
qed

lemma singleOffset_Some:
  "singleOffset segs = Some off \<Longrightarrow> segs \<noteq> [] \<and> (\<forall>s \<in> set segs. \<not> Drop s \<and> OffsetMs s = off)"
  by (auto simp: singleOffset_def list_ex_iff split: list.splits if_splits)

lemma singleOffset_bounds:
  "singleOffset segs = Some off \<Longrightarrow> checkSegments segs = None \<Longrightarrow> checkOffset off = None"
proof -
  assume so: "singleOffset segs = Some off" and cs: "checkSegments segs = None"
  from so obtain s ss where "segs = s # ss" "OffsetMs s = off"
    using singleOffset_Some by (cases segs) auto
  with checkSegments_chained [OF cs] show ?thesis by simp
qed

subsection \<open>Properties\<close>

lemma canonPiecewise_bounds: "checkBounds t = None \<Longrightarrow> checkBounds (canonPiecewise t) = None"
  by (cases t) (auto split: option.splits dest: singleOffset_bounds)

lemma canonLinear_bounds: "checkBounds t = None \<Longrightarrow> checkBounds (canonLinear t) = None"
  by (cases t) (auto split: option.splits)

lemma canonShift_bounds: "checkBounds t = None \<Longrightarrow> checkBounds (canonShift t) = None"
  by (cases t) auto

lemma Canonical_bounds: "checkBounds t = None \<Longrightarrow> checkBounds (Canonical t) = None"
  by (simp add: Canonical_def canonPiecewise_bounds canonLinear_bounds canonShift_bounds)

lemma canon_idem:
  "canonShift (canonLinear (canonPiecewise (canonShift (canonLinear (canonPiecewise t)))))
     = canonShift (canonLinear (canonPiecewise t))"
  by (cases t) (auto split: option.splits)

lemma canon_variant:
  "variant (canonShift (canonLinear (canonPiecewise t))) = variant t \<Longrightarrow>
     canonShift (canonLinear (canonPiecewise t)) = t"
  by (cases t) (auto split: option.splits if_splits)

lemma segmentOf_bounds:
  assumes "Validate t = None" and "segmentOf t start = (sc, ofs, kept)"
  shows "89 / 100 \<le> f64_val sc \<and> f64_val sc \<le> 111 / 100 \<and> \<bar>ofs\<bar> \<le> maxOffsetMs"
proof -
  have b: "checkBounds t = None" using assms(1) by (simp add: Validate_def split: option.splits)
  show ?thesis
  proof (cases t)
    case (Piecewise s segs)
    then have s: "checkScale s = None" and c: "checkSegments segs = None"
      using b by (auto split: option.splits)
    let ?k = "searchSegment segs start 0 (length segs - 1)"
    have "?k < length segs"
      using searchSegment_le [of 0 "length segs - 1" segs start] checkSegments_chained [OF c] by linarith
    then have "\<bar>OffsetMs (segs ! ?k)\<bar> \<le> maxOffsetMs"
      using chained_nth checkSegments_chained [OF c] by (simp add: abs_le_iff) (metis minus_le_iff)
    then show ?thesis using Piecewise assms(2) checkScale_bounds [OF s] by (auto simp: Let_def)
  qed (use b assms(2) checkScale_bounds in \<open>auto simp: maxOffsetMs_def checkOffset_def split: option.splits if_splits\<close>)
qed

text \<open>C23. Canonical is idempotent and only ever canonicalizes: what Validate accepts is
  exactly the in-bounds values Canonical leaves alone, and Canonical of an in-bounds value
  is accepted, so every producer that canonicalizes first passes Validate.\<close>

theorem Validate_canonical:
  "Canonical (Canonical t) = Canonical t \<and>
   (Validate t = None \<longleftrightarrow> checkBounds t = None \<and> Canonical t = t) \<and>
   (Validate (Canonical t) = None \<longleftrightarrow> checkBounds t = None)"
proof -
  have idem: "Canonical (Canonical t) = Canonical t"
    using Canonical_bounds [of t] by (simp add: Canonical_def canon_idem)
  have iff: "Validate u = None \<longleftrightarrow> checkBounds u = None \<and> Canonical u = u" for u
    using canon_variant [of u] by (auto simp: Validate_def Canonical_def split: option.splits)
  have "checkBounds (Canonical t) = None \<longleftrightarrow> checkBounds t = None"
    using Canonical_bounds [of t] by (auto simp: Canonical_def)
  with idem iff show ?thesis by simp
qed

lemma segmentOf_Canonical:
  "segmentOf (Canonical t) start = (s', off', keep') \<and> segmentOf t start = (s, off, keep) \<longrightarrow>
     f64_val s' = f64_val s \<and> off' = off \<and> keep' = keep"
proof (cases "checkBounds t = None")
  case False
  then show ?thesis by (auto simp: Canonical_def)
next
  case True
  show ?thesis
  proof (cases t)
    case (Piecewise sc segs)
    show ?thesis
    proof (cases "singleOffset segs")
      case None
      then show ?thesis using True Piecewise by (auto simp: Canonical_def)
    next
      case (Some o1)
      have len: "2 \<le> length segs"
        using True Piecewise checkSegments_chained by (auto split: option.splits)
      then have "searchSegment segs start 0 (length segs - 1) < length segs"
        using searchSegment_le [of 0 "length segs - 1" segs start] by simp
      then have "segmentOf t start = (sc, o1, True)"
        using singleOffset_Some [OF Some] Piecewise by (simp add: Let_def)
      then show ?thesis using True Piecewise Some f64_eq_one [of sc] by (auto simp: Canonical_def)
    qed
  qed (use True f64_eq_one in \<open>auto simp: Canonical_def\<close>)
qed

text \<open>C24. Canonicalizing never changes what a timing does: every cue start maps with the
  same scale value, the same offset and the same keep-or-drop answer.\<close>

theorem Canonical_same_map:
  "map_prod f64_val id (segmentOf (Canonical t) start) = map_prod f64_val id (segmentOf t start)"
proof -
  obtain s' off' keep' where 1: "segmentOf (Canonical t) start = (s', off', keep')" by (rule prod_cases3)
  obtain s off keep where 2: "segmentOf t start = (s, off, keep)" by (rule prod_cases3)
  have "f64_val s' = f64_val s \<and> off' = off \<and> keep' = keep"
    using segmentOf_Canonical [of t start s' off' keep' s off keep] 1 2 by blast
  then show ?thesis by (simp only: 1 2 map_prod_simp id_apply)
qed

text \<open>The binary search finds the segment a cue belongs to: for a Piecewise Validate
  accepts and any start at or after 0, the one segment with FromMs <= start < ToMs, the last
  segment being open-ended.\<close>

theorem segmentOf_member:
  assumes "Validate (Piecewise sc segs) = None" and "0 \<le> start"
  shows "\<exists>k < length segs. segmentOf (Piecewise sc segs) start = (sc, OffsetMs (segs ! k), \<not> Drop (segs ! k)) \<and>
    FromMs (segs ! k) \<le> start \<and> (start < ToMs (segs ! k) \<or> k = length segs - 1)"
proof -
  have c: "chained 0 segs" and len: "2 \<le> length segs"
    using assms(1) checkSegments_chained by (auto simp: Validate_def split: option.splits)
  define k where "k = searchSegment segs start 0 (length segs - 1)"
  have k: "k < length segs" using searchSegment_le [of 0 "length segs - 1" segs start] len by (simp add: k_def)
  have s: "(\<forall>m < k. ToMs (segs ! m) \<le> start) \<and> (\<forall>m. k \<le> m \<and> m < length segs - 1 \<longrightarrow> start < ToMs (segs ! m))"
    by (rule searchSegment_split [OF _ _ _ _ _ k_def]) (auto intro: chained_mono [OF c])
  have "FromMs (segs ! k) \<le> start"
  proof (cases k)
    case 0
    then show ?thesis using chained_nth [OF c k] assms(2) by simp
  next
    case (Suc j)
    then have "FromMs (segs ! k) = ToMs (segs ! j)" using chained_nth [OF c k] by simp
    then show ?thesis using s Suc by simp
  qed
  moreover have "start < ToMs (segs ! k) \<or> k = length segs - 1" using s k by (cases "k < length segs - 1") auto
  ultimately show ?thesis using k by (auto simp: k_def Let_def)
qed

definition twoSegments :: "Segment list" where
  "twoSegments = [\<lparr>FromMs = 0, ToMs = 1000, OffsetMs = 250, Drop = False\<rparr>,
     \<lparr>FromMs = 1000, ToMs = 0, OffsetMs = - 40, Drop = True\<rparr>]"

lemma twoSegments_valid: "Validate (Piecewise oneScale twoSegments) = None"
  by (simp add: twoSegments_def Validate_def checkScale_def checkSegments_def minSegments_def maxSegments_def
      maxOffsetMs_def maxSegmentEndMs_def Canonical_def singleOffset_def)

theorem segmentOf_member_witness:
  "\<exists>k < length twoSegments. segmentOf (Piecewise oneScale twoSegments) 1000 =
      (oneScale, OffsetMs (twoSegments ! k), \<not> Drop (twoSegments ! k)) \<and>
    FromMs (twoSegments ! k) \<le> 1000 \<and> (1000 < ToMs (twoSegments ! k) \<or> k = length twoSegments - 1)"
  by (rule segmentOf_member [OF twoSegments_valid]) simp

end
