(* ===== verification/Render.thy ===== *)
theory Render
  imports ParseVTT Timing
begin

text \<open>
  internal/timing/render.go: \<open>mapEvents\<close> maps the cues' times under a \<^typ>\<open>Timing\<close> and \<open>Render\<close>
  writes the document with only its timestamps rewritten. Go slices \<^verbatim>\<open>doc[i:j]\<close> panic out of
  range, so \<open>docSlice\<close> is partial and \<open>Panic\<close> is an outcome of \<open>Render\<close>. The float expression
  \<^verbatim>\<open>a*s+b\<close> may be fused on some targets (the Go specification allows it), which is the Boolean
  parameter \<open>fused\<close>: every theorem holds for both. \<open>renderRef\<close> is the specification: each block
  written on its own, the bytes between blocks copied.
\<close>

datatype render_error =
    NoDocument
  | TimingInvalid timing_error
  | PastLast int int

datatype 'a render_outcome = Rendered 'a | Refused render_error | Panic

definition maxSRTMs :: int where "maxSRTMs = ((int maxSRTHour * 60 + 59) * 60 + 59) * 1000 + 999"
definition maxASSMs :: int where "maxASSMs = ((9 * 60 + 59) * 60 + 59) * 1000 + 990"

record mappedCue =
  mstart :: int
  mend :: int
  keep :: bool

definition roundTo :: "rat \<Rightarrow> int \<Rightarrow> int" where
  "roundTo x u = math_Round (rnd (x / rnd (of_int u))) * u"

text \<open>\<^verbatim>\<open>float64(t)*scale + float64(offset)\<close>, rounded after each operation or fused.\<close>

definition affine :: "bool \<Rightarrow> f64 \<Rightarrow> int \<Rightarrow> int \<Rightarrow> rat" where
  "affine fused s ofs t =
     (if fused then rnd (rnd (of_int t) * f64_val s + rnd (of_int ofs))
      else rnd (rnd (rnd (of_int t) * f64_val s) + rnd (of_int ofs)))"

definition unitOf :: "Format \<Rightarrow> int" where
  "unitOf f = (if f \<noteq> SRT then 10 else 1)"

definition maxMsOf :: "Format \<Rightarrow> int" where
  "maxMsOf f = (if f \<noteq> SRT then maxASSMs else maxSRTMs)"

definition dropped :: mappedCue where
  "dropped = \<lparr>mstart = 0, mend = 0, keep = False\<rparr>"

definition past :: "int \<Rightarrow> int \<Rightarrow> int \<Rightarrow> bool" where
  "past maxMs mapped baseline \<longleftrightarrow> mapped \<noteq> baseline \<and> maxMs < mapped"

definition mapCue :: "bool \<Rightarrow> Format \<Rightarrow> Timing \<Rightarrow> cue \<Rightarrow> render_error + mappedCue" where
  "mapCue fused f t e =
     (case segmentOf t (startMs e) of (scale, offset, kept) \<Rightarrow>
        if \<not> kept then Inr dropped
        else let s = roundTo (affine fused scale offset (startMs e)) (unitOf f);
                 n = roundTo (affine fused scale offset (endMs e)) (unitOf f)
             in if n \<le> 0 then Inr dropped
                else let s' = max s 0
                     in if past (maxMsOf f) s' (startMs e) then Inl (PastLast s' (maxMsOf f))
                        else if past (maxMsOf f) n (endMs e) then Inl (PastLast n (maxMsOf f))
                        else Inr \<lparr>mstart = s', mend = n, keep = True\<rparr>)"

fun mapAll :: "('a \<Rightarrow> 'e + 'b) \<Rightarrow> 'a list \<Rightarrow> 'e + 'b list" where
  "mapAll g [] = Inr []"
| "mapAll g (x # xs) =
     (case g x of Inl e \<Rightarrow> Inl e | Inr y \<Rightarrow>
       (case mapAll g xs of Inl e \<Rightarrow> Inl e | Inr ys \<Rightarrow> Inr (y # ys)))"

definition mapEvents :: "bool \<Rightarrow> Cues \<Rightarrow> Timing \<Rightarrow> render_error + mappedCue list" where
  "mapEvents fused c t =
     (if format c = NoFormat then Inl NoDocument
      else case Validate t of Some err \<Rightarrow> Inl (TimingInvalid err)
           | None \<Rightarrow> mapAll (mapCue fused (format c) t) (events c))"

subsection \<open>Stamps\<close>

text \<open>\<^verbatim>\<open>%d:%02d:%02d.%02d\<close> of a time that is not negative; \<^verbatim>\<open>%02d:%02d:%02d,%03d\<close> is
  \<^const>\<open>srtStamp\<close>.\<close>

definition assStamp :: "nat \<Rightarrow> string" where
  "assStamp ms = dec (ms div 3600000) @ '':'' @ pad 2 (ms div 60000 mod 60) @ '':''
     @ pad 2 (ms div 1000 mod 60) @ ''.'' @ pad 2 (ms mod 1000 div 10)"

definition stampText :: "Format \<Rightarrow> int \<Rightarrow> string" where
  "stampText f ms = (if f = SRT then srtStamp (nat ms) else assStamp (nat ms))"

subsection \<open>Writing\<close>

definition docSlice :: "string \<Rightarrow> nat \<Rightarrow> nat \<Rightarrow> string option" where
  "docSlice d i j = (if i \<le> j \<and> j \<le> length d then Some (slice d i j) else None)"

definition appendStamp ::
  "Cues \<Rightarrow> string \<Rightarrow> nat \<Rightarrow> span \<Rightarrow> int \<Rightarrow> bool \<Rightarrow> (string \<times> nat) option" where
  "appendStamp c out pos stamp ms changed =
     (case docSlice (doc c) pos (sfrom stamp) of None \<Rightarrow> None | Some gap \<Rightarrow>
        if \<not> changed
        then (case docSlice (doc c) (sfrom stamp) (sto stamp) of None \<Rightarrow> None
              | Some old \<Rightarrow> Some (out @ gap @ old, sto stamp))
        else Some (appendASCII (out @ gap) (stampText (format c) ms) (enc c), sto stamp))"

fun renderEvents ::
  "Cues \<Rightarrow> bool \<Rightarrow> (cue \<times> mappedCue) list \<Rightarrow> nat \<Rightarrow> string \<Rightarrow> nat \<Rightarrow> string option" where
  "renderEvents c renumber [] n out pos =
     map_option (\<lambda>rest. out @ rest) (docSlice (doc c) pos (length (doc c)))"
| "renderEvents c renumber ((e, m) # ems) n out pos =
     (case docSlice (doc c) pos (sfrom (cblock e)) of None \<Rightarrow> None | Some gap \<Rightarrow>
        let out1 = out @ gap; pos1 = sfrom (cblock e)
        in if \<not> keep m then renderEvents c renumber ems n out1 (sto (cblock e))
           else
             (case (if renumber \<and> sfrom (cindex e) < sto (cindex e)
                    then map_option (\<lambda>g. (appendASCII (out1 @ g) (dec (n + 1)) (enc c), sto (cindex e)))
                           (docSlice (doc c) pos1 (sfrom (cindex e)))
                    else Some (out1, pos1)) of
                None \<Rightarrow> None
              | Some (out2, pos2) \<Rightarrow>
                  (case appendStamp c out2 pos2 (cstart e) (mstart m) (mstart m \<noteq> startMs e) of
                     None \<Rightarrow> None
                   | Some (out3, pos3) \<Rightarrow>
                       (case appendStamp c out3 pos3 (cend e) (mend m) (mend m \<noteq> endMs e) of
                          None \<Rightarrow> None
                        | Some (out4, pos4) \<Rightarrow> renderEvents c renumber ems (n + 1) out4 pos4))))"

definition Render :: "bool \<Rightarrow> Cues \<Rightarrow> Timing \<Rightarrow> string render_outcome" where
  "Render fused c t =
     (case mapEvents fused c t of Inl e \<Rightarrow> Refused e
      | Inr ms \<Rightarrow>
          (case renderEvents c (list_ex (\<lambda>m. \<not> keep m) ms) (zip (events c) ms) 0 [] 0 of
             None \<Rightarrow> Panic | Some out \<Rightarrow> Rendered out))"

subsection \<open>What Render writes\<close>

text \<open>The specification: a stamp, a block and the document, each from its own bytes.\<close>

definition stampRef :: "Cues \<Rightarrow> span \<Rightarrow> int \<Rightarrow> int \<Rightarrow> string" where
  "stampRef c sp ms old =
     (if ms = old then slice (doc c) (sfrom sp) (sto sp)
      else concat (map (asciiUnit (enc c)) (stampText (format c) ms)))"

definition headRef :: "Cues \<Rightarrow> bool \<Rightarrow> nat \<Rightarrow> cue \<Rightarrow> string" where
  "headRef c renumber n e =
     (if renumber \<and> sfrom (cindex e) < sto (cindex e)
      then slice (doc c) (sfrom (cblock e)) (sfrom (cindex e)) @ concat (map (asciiUnit (enc c)) (dec n))
           @ slice (doc c) (sto (cindex e)) (sfrom (cstart e))
      else slice (doc c) (sfrom (cblock e)) (sfrom (cstart e)))"

definition blockRef :: "Cues \<Rightarrow> bool \<Rightarrow> nat \<Rightarrow> cue \<Rightarrow> mappedCue \<Rightarrow> string" where
  "blockRef c renumber n e m =
     headRef c renumber n e @ stampRef c (cstart e) (mstart m) (startMs e)
     @ slice (doc c) (sto (cstart e)) (sfrom (cend e)) @ stampRef c (cend e) (mend m) (endMs e)
     @ slice (doc c) (sto (cend e)) (sto (cblock e))"

fun renderRef :: "Cues \<Rightarrow> bool \<Rightarrow> (cue \<times> mappedCue) list \<Rightarrow> nat \<Rightarrow> nat \<Rightarrow> string" where
  "renderRef c renumber [] n pos = slice (doc c) pos (length (doc c))"
| "renderRef c renumber ((e, m) # ems) n pos =
     slice (doc c) pos (sfrom (cblock e))
     @ (if keep m then blockRef c renumber (n + 1) e m @ renderRef c renumber ems (n + 1) (sto (cblock e))
        else renderRef c renumber ems n (sto (cblock e)))"

lemma slice_append: "i \<le> j \<Longrightarrow> j \<le> k \<Longrightarrow> slice d i j @ slice d j k = slice d i k"
proof -
  assume "i \<le> j" "j \<le> k"
  then have "take (k - i) (drop i d) = take (j - i) (drop i d) @ take (k - j) (drop (j - i) (drop i d))"
    using take_add [of "j - i" "k - j" "drop i d"] by simp
  then show ?thesis using \<open>i \<le> j\<close> by (simp add: slice_def)
qed

lemma slice_append2: "i \<le> j \<Longrightarrow> j \<le> k \<Longrightarrow> slice d i j @ slice d j k @ r = slice d i k @ r"
  using slice_append by (metis append.assoc)

lemma slice_all [simp]: "slice d 0 (length d) = d"
  by (simp add: slice_def)

lemma appendStamp_ref:
  assumes "pos \<le> sfrom sp" and "sfrom sp \<le> sto sp" and "sto sp \<le> length (doc c)"
  shows "appendStamp c out pos sp ms (ms \<noteq> old)
    = Some (out @ slice (doc c) pos (sfrom sp) @ stampRef c sp ms old, sto sp)"
  using assms by (simp add: appendStamp_def docSlice_def stampRef_def appendASCII_def)

text \<open>From a position inside the last written block, the tail of that block comes first.\<close>

lemma renderEvents_ref:
  "events_wf lo (length (doc c)) (map fst ems) \<Longrightarrow> pos \<le> lo \<Longrightarrow>
   renderEvents c renumber ems n out pos = Some (out @ slice (doc c) pos lo @ renderRef c renumber ems n lo)"
proof (induction ems arbitrary: lo n out pos)
  case Nil
  then show ?case by (simp add: docSlice_def slice_append)
next
  case (Cons em ems)
  obtain e m where em: "em = (e, m)" by fastforce
  from Cons.prems em have lo: "lo \<le> sfrom (cblock e)" and wf: "cue_wf e"
    and tl: "events_wf (sto (cblock e)) (length (doc c)) (map fst ems)" by simp_all
  have le: "sto (cblock e) \<le> length (doc c)" by (rule events_wf_le [OF tl])
  have o: "sfrom (cblock e) \<le> sfrom (cstart e)" "sfrom (cstart e) \<le> sto (cstart e)"
    "sto (cstart e) \<le> sfrom (cend e)" "sfrom (cend e) \<le> sto (cend e)" "sto (cend e) \<le> sto (cblock e)"
    and x: "sfrom (cindex e) < sto (cindex e) \<Longrightarrow>
      sfrom (cblock e) \<le> sfrom (cindex e) \<and> sto (cindex e) \<le> sfrom (cstart e)"
    using wf by (auto simp: cue_wf_def head_wf_def)
  have gap: "docSlice (doc c) pos (sfrom (cblock e)) = Some (slice (doc c) pos lo @ slice (doc c) lo (sfrom (cblock e)))"
    using Cons.prems(2) lo o le by (simp add: docSlice_def slice_append)
  show ?case
  proof (cases "keep m")
    case False
    then show ?thesis
      using Cons.IH [OF tl le_refl] gap by (simp add: em Let_def slice_def)
  next
    case True
    define out1 where "out1 = out @ slice (doc c) pos lo @ slice (doc c) lo (sfrom (cblock e))"
    obtain out2 pos2 where h: "(if renumber \<and> sfrom (cindex e) < sto (cindex e)
        then map_option (\<lambda>g. (appendASCII (out1 @ g) (dec (n + 1)) (enc c), sto (cindex e)))
               (docSlice (doc c) (sfrom (cblock e)) (sfrom (cindex e)))
        else Some (out1, sfrom (cblock e))) = Some (out2, pos2)"
      and h2: "pos2 \<le> sfrom (cstart e)"
        "out2 @ slice (doc c) pos2 (sfrom (cstart e)) = out1 @ headRef c renumber (n + 1) e"
    proof (cases "renumber \<and> sfrom (cindex e) < sto (cindex e)")
      case True
      with x o le show ?thesis
        by (intro that [of "appendASCII (out1 @ slice (doc c) (sfrom (cblock e)) (sfrom (cindex e))) (dec (n + 1)) (enc c)"])
          (simp_all add: headRef_def docSlice_def appendASCII_def)
    next
      case False
      with o show ?thesis by (intro that [of out1 "sfrom (cblock e)"]) (auto simp: headRef_def)
    qed
    have h3: "out2 @ slice (doc c) pos2 (sfrom (cstart e)) @ r = out1 @ headRef c renumber (n + 1) e @ r" for r
      using h2(2) by (metis append.assoc)
    have st: "appendStamp c out2 pos2 (cstart e) (mstart m) (mstart m \<noteq> startMs e) =
        Some (out1 @ headRef c renumber (n + 1) e @ stampRef c (cstart e) (mstart m) (startMs e), sto (cstart e))"
      using appendStamp_ref [OF h2(1) o(2), of c] o le h3 by simp
    have en: "appendStamp c out' (sto (cstart e)) (cend e) (mend m) (mend m \<noteq> endMs e) =
        Some (out' @ slice (doc c) (sto (cstart e)) (sfrom (cend e)) @ stampRef c (cend e) (mend m) (endMs e),
              sto (cend e))" for out'
      using appendStamp_ref [OF o(3,4), of c] o le by simp
    show ?thesis
      using Cons.IH [OF tl o(5)] gap h st en True
      by (simp add: em Let_def blockRef_def flip: out1_def)
  qed
qed

lemma mapAll_length: "mapAll g xs = Inr ys \<Longrightarrow> length ys = length xs"
  by (induction xs arbitrary: ys) (auto split: sum.splits)

lemma mapEvents_length: "mapEvents fused c t = Inr ms \<Longrightarrow> length ms = length (events c)"
  using mapAll_length by (auto simp: mapEvents_def split: if_splits option.splits)

subsection \<open>Unchanged times\<close>

lemma renderRef_unchanged:
  "events_wf pos (length (doc c)) (map fst ems) \<Longrightarrow>
   list_all (\<lambda>(e, m). keep m \<and> mstart m = startMs e \<and> mend m = endMs e) ems \<Longrightarrow>
   renderRef c False ems n pos = slice (doc c) pos (length (doc c))"
proof (induction ems arbitrary: n pos)
  case (Cons em ems)
  obtain e m where em: "em = (e, m)" by fastforce
  from Cons.prems em have o: "pos \<le> sfrom (cblock e)" "sfrom (cblock e) \<le> sfrom (cstart e)"
    "sfrom (cstart e) \<le> sto (cstart e)" "sto (cstart e) \<le> sfrom (cend e)" "sfrom (cend e) \<le> sto (cend e)"
    "sto (cend e) \<le> sto (cblock e)" and tl: "events_wf (sto (cblock e)) (length (doc c)) (map fst ems)"
    by (auto simp: cue_wf_def head_wf_def)
  have len: "sto (cblock e) \<le> length (doc c)" by (rule events_wf_le [OF tl])
  show ?case
    using Cons.IH [OF tl] Cons.prems(2) o len
    by (simp add: em blockRef_def headRef_def stampRef_def slice_append slice_append2)
qed simp

subsection \<open>Rounding\<close>

lemma rnd_ms: "\<bar>t\<bar> \<le> 2 ^ 53 \<Longrightarrow> rnd (of_int t) = of_int t"
  by (rule rnd_int)

lemma affine_one: 
  assumes "\<bar>t\<bar> \<le> 2 ^ 40" and "\<bar>ofs\<bar> \<le> 2 ^ 40"
  shows "affine fused oneScale ofs t = of_int (t + ofs)"
proof -
  have "\<bar>t + ofs\<bar> \<le> 2 ^ 53" using assms by (simp add: abs_le_iff)
  then show ?thesis
    using assms rnd_int [of "t + ofs"] by (simp add: affine_def rnd_ms)
qed

lemma roundTo_unit: "\<bar>k\<bar> \<le> 2 ^ 53 \<Longrightarrow> u = 1 \<or> u = 10 \<Longrightarrow> roundTo (of_int (k * u)) u = k * u"
  using rnd_int [of k] rnd_int [of u] by (auto simp: roundTo_def)

lemma roundTo_error:
  assumes u: "u = 1 \<or> u = 10"
  shows "\<bar>of_int (roundTo x u) - x\<bar> \<le> of_int u / 2 + \<bar>x\<bar> / 2 ^ 53"
proof -
  have r: "rnd (of_int u) = of_int u" using u rnd_int [of u] by auto
  have pos: "(0::rat) < of_int u" using u by auto
  have 1: "\<bar>rnd (x / of_int u) - x / of_int u\<bar> \<le> \<bar>x / of_int u\<bar> / 2 ^ 53" by (rule rnd_rel_error)
  have 2: "\<bar>of_int (math_Round (rnd (x / of_int u))) - rnd (x / of_int u)\<bar> \<le> 1 / 2"
    by (rule math_Round_error)
  have "\<bar>of_int (math_Round (rnd (x / of_int u))) - x / of_int u\<bar> \<le> 1 / 2 + \<bar>x / of_int u\<bar> / 2 ^ 53"
    using 1 2 by linarith
  then have "\<bar>of_int (math_Round (rnd (x / of_int u))) - x / of_int u\<bar> * of_int u
      \<le> (1 / 2 + \<bar>x / of_int u\<bar> / 2 ^ 53) * of_int u"
    using pos by (intro mult_right_mono) simp_all
  also have "\<dots> = of_int u / 2 + \<bar>x\<bar> / 2 ^ 53" using pos by (simp add: field_simps abs_divide)
  also have "\<bar>of_int (math_Round (rnd (x / of_int u))) - x / of_int u\<bar> * of_int u
      = \<bar>of_int (roundTo x u) - x\<bar>"
    using pos by (simp add: roundTo_def r left_diff_distrib abs_mult_pos)
  finally show ?thesis .
qed

lemma near_bound: "\<bar>a - b\<bar> \<le> e \<Longrightarrow> \<bar>b + c\<bar> \<le> m \<Longrightarrow> m + e \<le> k \<Longrightarrow> \<bar>a + c\<bar> \<le> k" for a b c :: rat
  by linarith

lemma near_trans: "\<bar>a - b\<bar> \<le> e1 \<Longrightarrow> \<bar>b - c\<bar> \<le> e2 \<Longrightarrow> e1 + e2 \<le> k \<Longrightarrow> \<bar>a - c\<bar> \<le> k" for a b c :: rat
  by linarith

lemma near_sum: "\<bar>a - (b + o') \<bar> \<le> e1 \<Longrightarrow> \<bar>b - c\<bar> \<le> e2 \<Longrightarrow> e1 + e2 \<le> k \<Longrightarrow> \<bar>a - (c + o')\<bar> \<le> k"
  for a b c :: rat
  by linarith

lemma affine_error:
  assumes t: "\<bar>t\<bar> \<le> 2 ^ 32" and o: "\<bar>ofs\<bar> \<le> 2 ^ 25" and s: "89 / 100 \<le> f64_val s" "f64_val s \<le> 111 / 100"
  shows "\<bar>affine fused s ofs t - (of_int t * f64_val s + of_int ofs)\<bar> \<le> 1 / 2 ^ 18
    \<and> \<bar>of_int t * f64_val s + of_int ofs\<bar> \<le> 2 ^ 33"
proof -
  let ?p = "of_int t * f64_val s"
  have t': "\<bar>of_int t :: rat\<bar> \<le> 2 ^ 32" and o': "\<bar>of_int ofs :: rat\<bar> \<le> 2 ^ 25"
    using t o by (simp_all flip: of_int_abs add: of_int_le_numeral_power_cancel_iff)
  have rt: "rnd (of_int t) = of_int t" "rnd (of_int ofs) = of_int ofs"
    using t o by (simp_all add: rnd_int)
  have "\<bar>?p\<bar> \<le> 2 ^ 32 * (111 / 100)"
    using t' s by (simp only: abs_mult) (intro mult_mono; simp)
  then have p: "\<bar>?p\<bar> \<le> 4800000000" by simp
  have x: "\<bar>?p + of_int ofs\<bar> \<le> 5000000000" using p o' by simp
  have r1: "\<bar>rnd ?p - ?p\<bar> \<le> 4800000000 / 2 ^ 53"
    using rnd_rel_error [of ?p] p by (simp add: field_simps)
  have x2: "\<bar>rnd ?p + of_int ofs\<bar> \<le> 5000000001" by (rule near_bound [OF r1 x]) simp
  have r2: "\<bar>rnd (?p + of_int ofs) - (?p + of_int ofs)\<bar> \<le> 5000000000 / 2 ^ 53"
    using rnd_rel_error [of "?p + of_int ofs"] x by (simp add: field_simps)
  have r3: "\<bar>rnd (rnd ?p + of_int ofs) - (rnd ?p + of_int ofs)\<bar> \<le> 5000000001 / 2 ^ 53"
    using rnd_rel_error [of "rnd ?p + of_int ofs"] x2 by (simp add: field_simps)
  have "\<bar>affine fused s ofs t - (?p + of_int ofs)\<bar> \<le> 1 / 2 ^ 18"
  proof (cases fused)
    case True
    then show ?thesis using order_trans [OF r2, of "1 / 2 ^ 18"] by (simp add: affine_def rt)
  next
    case False
    then show ?thesis using near_sum [OF r3 r1, of "1 / 2 ^ 18"] by (simp add: affine_def rt)
  qed
  then show ?thesis using x by simp
qed

lemma mapped_error:
  assumes "\<bar>t\<bar> \<le> 2 ^ 32" and "\<bar>ofs\<bar> \<le> 2 ^ 25" and "89 / 100 \<le> f64_val s" "f64_val s \<le> 111 / 100"
  shows "\<bar>of_int (roundTo (affine fused s ofs t) (unitOf f)) - (of_int t * f64_val s + of_int ofs)\<bar>
    \<le> of_int (unitOf f) / 2 + 1 / 2 ^ 17"
proof -
  let ?x = "affine fused s ofs t"
  have a: "\<bar>?x - (of_int t * f64_val s + of_int ofs)\<bar> \<le> 1 / 2 ^ 18"
    "\<bar>of_int t * f64_val s + of_int ofs\<bar> \<le> 2 ^ 33"
    using affine_error [OF assms] by blast+
  have "\<bar>of_int (roundTo ?x (unitOf f)) - ?x\<bar> \<le> of_int (unitOf f) / 2 + \<bar>?x\<bar> / 2 ^ 53"
    by (rule roundTo_error) (simp add: unitOf_def)
  moreover have le: "\<bar>?x\<bar> / 2 ^ 53 \<le> 1 / 2 ^ 18"
  proof -
    have "\<bar>?x\<bar> \<le> 2 ^ 35" using near_bound [OF a(1), of 0 "2 ^ 33"] a(2) by simp
    then show ?thesis by simp
  qed
  ultimately have "\<bar>of_int (roundTo ?x (unitOf f)) - ?x\<bar> \<le> of_int (unitOf f) / 2 + 1 / 2 ^ 18"
    by linarith
  then show ?thesis by (rule near_trans [OF _ a(1)]) simp
qed

subsection \<open>Identity\<close>

text \<open>Times the parsers produce: in range, and multiples of the format's unit.\<close>

definition times_ok :: "Format \<Rightarrow> cue \<Rightarrow> bool" where
  "times_ok f e \<longleftrightarrow> 0 \<le> startMs e \<and> startMs e < 2 ^ 32 \<and> 0 \<le> endMs e \<and> endMs e < 2 ^ 32
     \<and> unitOf f dvd startMs e \<and> unitOf f dvd endMs e"

lemma map_same:
  assumes "0 \<le> t" "t < 2 ^ 32" "unitOf f dvd t"
  shows "roundTo (affine fused oneScale 0 t) (unitOf f) = t"
proof -
  obtain k where k: "t = k * unitOf f" using assms(3) by (metis dvdE mult.commute)
  have u: "unitOf f = 1 \<or> unitOf f = 10" by (simp add: unitOf_def)
  have "affine fused oneScale 0 t = of_int (k * unitOf f)" using assms k affine_one [of t 0] by simp
  moreover have "\<bar>k\<bar> \<le> 2 ^ 53" using assms k u by (auto simp: abs_le_iff)
  ultimately show ?thesis using roundTo_unit [OF _ u, of k] k by simp
qed

lemma mapCue_Identity:
  "times_ok f e \<Longrightarrow> 0 < endMs e \<Longrightarrow>
   mapCue fused f Identity e = Inr \<lparr>mstart = startMs e, mend = endMs e, keep = True\<rparr>"
  by (simp add: mapCue_def map_same times_ok_def past_def Let_def)

lemma mapAll_Inr: "(\<And>x. x \<in> set xs \<Longrightarrow> g x = Inr (h x)) \<Longrightarrow> mapAll g xs = Inr (map h xs)"
  by (induction xs) auto

lemma Validate_Identity [simp]: "Validate Identity = None"
  by (simp add: Validate_def Canonical_def)

lemma Render_Identity:
  assumes wf: "events_wf 0 (length (doc c)) (events c)" and f: "format c \<noteq> NoFormat"
    and t: "\<And>e. e \<in> set (events c) \<Longrightarrow> times_ok (format c) e \<and> 0 < endMs e"
  shows "Render fused c Identity = Rendered (doc c)"
proof -
  let ?h = "\<lambda>e. \<lparr>mstart = startMs e, mend = endMs e, keep = True\<rparr>"
  let ?ems = "zip (events c) (map ?h (events c))"
  have ms: "mapEvents fused c Identity = Inr (map ?h (events c))"
    using f t mapCue_Identity by (simp add: mapEvents_def) (rule mapAll_Inr, blast)
  have k: "\<not> list_ex (\<lambda>m. \<not> keep m) (map ?h (events c))" by (simp add: list_ex_iff)
  have "list_all (\<lambda>(e, m). keep m \<and> mstart m = startMs e \<and> mend m = endMs e) ?ems"
    by (auto simp: list_all_iff zip_map2 zip_same_conv_map)
  then have "renderRef c False ?ems 0 0 = doc c"
    using renderRef_unchanged [of 0 c ?ems 0] wf by (simp add: zip_map2 zip_same_conv_map comp_def)
  then show ?thesis
    using renderEvents_ref [of 0 c ?ems 0 False 0 "[]"] wf ms k
    by (simp add: Render_def zip_map2 zip_same_conv_map comp_def slice_def)
qed

subsection \<open>The parsers' times\<close>

lemma srtTiming_times:
  assumes "srtTiming b = Some t"
  shows "tstartMs t < 2 ^ 32 \<and> tendMs t < 2 ^ 32"
proof (rule srtTiming_elim [OF assms])
  assume o: "sfrom (tstart t) < sto (tstart t)" "sto (tstart t) \<le> sfrom (tend t)"
    "sfrom (tend t) < sto (tend t)" "sto (tend t) \<le> length b"
    and c: "clock b (sfrom (tstart t)) '',.'' 3 1 = Some (tstartMs t, sto (tstart t))"
      "clock b (sfrom (tend t)) '',.'' 3 1 = Some (tendMs t, sto (tend t))"
  show ?thesis using clock_bound [OF c(1)] clock_bound [OF c(2)] o by simp
qed

lemma srtTimes_bound: "(x, y) \<in> set (srtTimes b i) \<Longrightarrow> 0 \<le> x \<and> x < 2 ^ 32 \<and> 0 \<le> y \<and> y < 2 ^ 32"
  using srtTiming_times by (fastforce simp: srtTimes_def lineTimes_def List.map_filter_def)

lemma parseSRT_times_ok:
  assumes "parseSRT d v e = Inr c" and "ev \<in> set (events c)"
  shows "times_ok SRT ev"
proof -
  have "(startMs ev, endMs ev) \<in> set (cueTimes (events c))" using assms(2) by (simp add: cueTimes_def)
  moreover have "cueTimes (events c) = srtTimes (vb v) 0"
    using parseSRT_cueTimes assms(1) by blast
  ultimately show ?thesis using srtTimes_bound by (simp add: times_ok_def unitOf_def)
qed

subsection \<open>Stamps read back\<close>

lemma pad_length: "n < 10 ^ k \<Longrightarrow> 0 < k \<Longrightarrow> length (pad k n) = k"
  using dec_length_bound [of n k] by (simp add: pad_def)

lemma digitsText_pad: "n < 10 ^ k \<Longrightarrow> 0 < k \<Longrightarrow> digitsText k (pad k n)"
  by (simp add: digitsText_def pad_length)

lemma digitsText_pad_less: "n < 1000 \<Longrightarrow> digitsText 3 (pad 2 n)"
  using dec_length_bound [of n 3] by (simp add: digitsText_def) (simp add: pad_def)

lemma clockText_intro:
  assumes "digitsText 3 h" "digitsText 2 m" "digitsText 2 s" "c \<in> set seps" "digitsText fd f"
    and "ms = ((undec h * 60 + undec m) * 60 + undec s) * 1000 + undec f * fm"
  shows "clockText seps fd fm (h @ '':'' @ m @ '':'' @ s @ [c] @ f) ms"
  unfolding clockText_def using assms by blast

lemma hms_split: "((ms div 3600000 * 60 + ms div 60000 mod 60) * 60 + ms div 1000 mod 60) * 1000 = ms - ms mod 1000"
  for ms :: nat
proof -
  have 1: "ms div 60000 = ms div 1000 div 60" "ms div 3600000 = ms div 1000 div 60 div 60"
    by (simp_all flip: div_mult2_eq)
  have "ms div 3600000 * 60 + ms div 60000 mod 60 = ms div 1000 div 60"
    unfolding 1 by simp
  then have "(ms div 3600000 * 60 + ms div 60000 mod 60) * 60 + ms div 1000 mod 60 = ms div 1000"
    by simp
  then show ?thesis by (simp add: minus_mod_eq_div_mult)
qed

lemma clockText_srtStamp:
  assumes "ms < 3600000000"
  shows "clockText '',.'' 3 1 (srtStamp ms) ms"
proof -
  have "ms div 3600000 < 1000" using assms by (simp add: div_less_iff_less_mult)
  then show ?thesis
    unfolding srtStamp_def
    by (intro clockText_intro) (simp_all add: digitsText_pad digitsText_pad_less hms_split del: distrib_right_numeral)
qed

lemma clockText_assStamp:
  assumes "ms < 36000000" and "10 dvd ms"
  shows "clockText ''.'' 2 10 (assStamp ms) ms"
proof -
  have h: "ms div 3600000 < 10" using assms(1) by (simp add: div_less_iff_less_mult)
  then have "digitsText 3 (dec (ms div 3600000))"
    by (subst dec.simps) (simp add: digitsText_def)
  moreover have "ms mod 1000 div 10 * 10 = ms mod 1000"
    using assms(2) by (simp add: dvd_mod_iff dvd_div_mult_self dvd_mod)
  ultimately show ?thesis
    unfolding assStamp_def
    by (intro clockText_intro) (simp_all add: digitsText_pad hms_split del: distrib_right_numeral)
qed

subsection \<open>What a mapped cue holds\<close>

lemma roundTo_dvd: "u dvd roundTo x u"
  by (simp add: roundTo_def)

lemma mapCue_Inr:
  assumes "mapCue fused f t e = Inr m" and "keep m" and "segmentOf t (startMs e) = (s, ofs, k)"
  shows "mend m = roundTo (affine fused s ofs (endMs e)) (unitOf f)
    \<and> mstart m = max 0 (roundTo (affine fused s ofs (startMs e)) (unitOf f))
    \<and> 0 < mend m \<and> (mstart m = startMs e \<or> mstart m \<le> maxMsOf f) \<and> (mend m = endMs e \<or> mend m \<le> maxMsOf f)"
  using assms by (auto simp: mapCue_def dropped_def past_def Let_def max.commute split: if_splits)

text \<open>The text \<open>w\<close> is a stamp the format's parser reads as \<open>ms\<close>.\<close>

definition readsAs :: "Format \<Rightarrow> string \<Rightarrow> nat \<Rightarrow> bool" where
  "readsAs f w ms \<longleftrightarrow>
     clock w 0 (if f = SRT then '',.'' else ''.'') (if f = SRT then 3 else 2) (nat (unitOf f))
       = Some (ms, length w)"

lemma readsAs_clockText:
  "clockText (if f = SRT then '',.'' else ''.'') (if f = SRT then 3 else 2) (nat (unitOf f)) w ms
   \<Longrightarrow> readsAs f w ms"
  using clock_intro [of "if f = SRT then '',.'' else ''.''" "if f = SRT then 3 else 2" "nat (unitOf f)" w ms "[]" "[]"]
  by (simp add: readsAs_def split: if_splits)

lemma stampText_reads:
  assumes "0 \<le> ms" "ms \<le> maxMsOf f" "unitOf f dvd ms"
  shows "readsAs f (stampText f ms) (nat ms)"
proof (cases "f = SRT")
  case True
  then show ?thesis
    using assms readsAs_clockText [of SRT] clockText_srtStamp [of "nat ms"]
    by (simp add: stampText_def unitOf_def maxMsOf_def maxSRTMs_def maxSRTHour_def)
next
  case False
  then obtain k where "ms = 10 * k" using assms(3) by (auto simp: unitOf_def)
  then have "10 dvd nat ms" using assms(1) by (simp add: nat_mult_distrib)
  then show ?thesis
    using False assms readsAs_clockText [of f] clockText_assStamp [of "nat ms"]
    by (simp add: stampText_def unitOf_def maxMsOf_def maxASSMs_def)
qed

lemma mapCue_Shift:
  assumes "\<bar>startMs e\<bar> \<le> 2 ^ 32" and "\<bar>endMs e\<bar> \<le> 2 ^ 32" and "\<bar>ms\<bar> \<le> maxOffsetMs"
  shows "mapCue fused SRT (Shift ms) e =
    (let s = max 0 (startMs e + ms); n = endMs e + ms
     in if n \<le> 0 then Inr dropped
        else if past maxSRTMs s (startMs e) then Inl (PastLast s maxSRTMs)
        else if past maxSRTMs n (endMs e) then Inl (PastLast n maxSRTMs)
        else Inr \<lparr>mstart = s, mend = n, keep = True\<rparr>)"
proof -
  have "roundTo (affine fused oneScale ms x) 1 = x + ms" if "\<bar>x\<bar> \<le> 2 ^ 32" for x
    using that assms(3) affine_one [of x ms fused] roundTo_unit [of "x + ms" 1]
    by (simp add: maxOffsetMs_def abs_le_iff)
  then show ?thesis
    using assms by (simp add: mapCue_def unitOf_def maxMsOf_def Let_def max.commute)
qed

subsection \<open>Properties\<close>

text \<open>C5. On a document whose spans are in order, Render never slices out of range, and it writes
  exactly the specification: the bytes outside the blocks copied, each removed block gone, and each
  kept block with its own bytes but for the index and the two stamps.\<close>

theorem Render_ref:
  assumes "events_wf 0 (length (doc c)) (events c)"
  shows "Render fused c t =
    (case mapEvents fused c t of Inl e \<Rightarrow> Refused e
     | Inr ms \<Rightarrow> Rendered (renderRef c (list_ex (\<lambda>m. \<not> keep m) ms) (zip (events c) ms) 0 0))"
proof (cases "mapEvents fused c t")
  case (Inr ms)
  then have "map fst (zip (events c) ms) = events c" by (simp add: mapEvents_length)
  then show ?thesis
    using Inr renderEvents_ref [of 0 c "zip (events c) ms" 0] assms by (simp add: Render_def slice_def)
qed (simp add: Render_def)



lemma oneCue_wf: "events_wf 0 17 [oneCue]"
  by (simp add: oneCue_def cue_wf_def head_wf_def noSpan_def)

theorem Render_ref_witness:
  "Render True \<lparr>doc = ''0:0:0,0-->0:0:1,0'', events = [oneCue], format = SRT, enc = UTF8\<rparr> NilTiming
   = Refused (TimingInvalid UnknownVariant)"
  by (subst Render_ref) (use oneCue_wf in \<open>simp_all add: mapEvents_def Validate_def\<close>)

text \<open>C20. A kept cue's times are the exact affine image of its baseline times, the start clamped at 0,
  within half the format's unit plus 2 ^ -17 ms, whether or not the target fuses the
  multiplication and the addition; the end is after 0, and a time that changed is one the format's
  stamp can write and the parser reads back.\<close>

theorem mapCue_times:
  assumes "Validate t = None" and "segmentOf t (startMs e) = (s, ofs, k)"
    and "\<bar>startMs e\<bar> \<le> 2 ^ 32" and "\<bar>endMs e\<bar> \<le> 2 ^ 32"
    and "mapCue fused f t e = Inr m" and "keep m"
  shows "\<bar>of_int (mend m) - (of_int (endMs e) * f64_val s + of_int ofs)\<bar> \<le> of_int (unitOf f) / 2 + 1 / 2 ^ 17
    \<and> \<bar>of_int (mstart m) - max 0 (of_int (startMs e) * f64_val s + of_int ofs)\<bar> \<le> of_int (unitOf f) / 2 + 1 / 2 ^ 17
    \<and> 0 \<le> mstart m \<and> 0 < mend m
    \<and> (\<forall>(ms, old) \<in> {(mstart m, startMs e), (mend m, endMs e)}. ms \<noteq> old \<longrightarrow>
         readsAs f (stampText f ms) (nat ms))"
proof -
  have b: "89 / 100 \<le> f64_val s" "f64_val s \<le> 111 / 100" "\<bar>ofs\<bar> \<le> 2 ^ 25"
    using segmentOf_bounds [OF assms(1,2)] by (simp_all add: maxOffsetMs_def)
  note m = mapCue_Inr [OF assms(5,6,2)]
  note err = mapped_error [OF _ b(3,1,2), of _ fused f]
  have lip: "\<bar>x - y\<bar> \<le> r \<Longrightarrow> \<bar>max 0 x - max 0 y\<bar> \<le> r" for x y r :: rat by linarith
  have max_int: "(of_int (max 0 a) :: rat) = max 0 (of_int a)" for a by (simp add: max_def)
  have 0: "0 < mend m" "mstart m = startMs e \<or> mstart m \<le> maxMsOf f"
    "mend m = endMs e \<or> mend m \<le> maxMsOf f" using m by blast+
  have "0 \<le> mstart m" using m by linarith
  moreover have "unitOf f dvd mstart m" "unitOf f dvd mend m" using m roundTo_dvd by (simp_all add: max_def)
  ultimately have "\<forall>(ms, old) \<in> {(mstart m, startMs e), (mend m, endMs e)}. ms \<noteq> old \<longrightarrow>
      readsAs f (stampText f ms) (nat ms)"
    using 0 stampText_reads [of "mstart m" f] stampText_reads [of "mend m" f] by auto
  moreover have "\<bar>of_int (mend m) - (of_int (endMs e) * f64_val s + of_int ofs)\<bar> \<le> of_int (unitOf f) / 2 + 1 / 2 ^ 17"
    using err [OF assms(4)] m by simp
  moreover have "\<bar>of_int (mstart m) - max 0 (of_int (startMs e) * f64_val s + of_int ofs)\<bar>
      \<le> of_int (unitOf f) / 2 + 1 / 2 ^ 17"
    using lip [OF err [OF assms(3)]] m by (simp add: max_int)
  moreover have "0 \<le> mstart m" "0 < mend m" using m by simp_all
  ultimately show ?thesis by blast
qed

lemma mapCue_oneCue:
  "mapCue True SRT (Shift 500) oneCue = Inr \<lparr>mstart = 500, mend = 1500, keep = True\<rparr>"
  by (simp add: mapCue_Shift oneCue_def maxOffsetMs_def past_def maxSRTMs_def maxSRTHour_def)

theorem mapCue_times_witness:
  "\<bar>of_int 1500 - (of_int 1000 * f64_val oneScale + of_int 500)\<bar> \<le> (1 / 2 + 1 / 2 ^ 17 :: rat)
   \<and> readsAs SRT (stampText SRT 1500) 1500"
proof -
  have v: "Validate (Shift 500) = None"
    by (simp add: Validate_def Canonical_def checkOffset_def maxOffsetMs_def del: checkOffset_None)
  show ?thesis
    using mapCue_times [OF v _ _ _ mapCue_oneCue, of oneScale 500 True]
    by (simp add: oneCue_def unitOf_def)
qed

text \<open>C21. A Shift on a SubRip cue is exact integer arithmetic, although the code computes it in
  floating point: both times move by the offset, the start clamped at 0; a cue ending at or
  before 0 is removed; a changed time past 999:59:59,999 refuses the document.\<close>

theorem mapCue_Shift_exact:
  assumes "\<bar>startMs e\<bar> \<le> 2 ^ 32" and "\<bar>endMs e\<bar> \<le> 2 ^ 32" and "Validate (Shift ms) = None"
  shows "mapCue fused SRT (Shift ms) e =
    (let s = max 0 (startMs e + ms); n = endMs e + ms
     in if n \<le> 0 then Inr dropped
        else if s \<noteq> startMs e \<and> maxSRTMs < s then Inl (PastLast s maxSRTMs)
        else if n \<noteq> endMs e \<and> maxSRTMs < n then Inl (PastLast n maxSRTMs)
        else Inr \<lparr>mstart = s, mend = n, keep = True\<rparr>)"
proof -
  have "\<bar>ms\<bar> \<le> maxOffsetMs"
    using segmentOf_bounds [OF assms(3), of 0 oneScale ms True] by simp
  then show ?thesis using mapCue_Shift [OF assms(1,2)] by (simp only: past_def)
qed

theorem mapCue_Shift_exact_witness:
  "mapCue False SRT (Shift (- 1000)) oneCue = Inr dropped"
proof -
  have "Validate (Shift (- 1000)) = None"
    by (simp add: Validate_def Canonical_def checkOffset_def maxOffsetMs_def del: checkOffset_None)
  then show ?thesis
    using mapCue_Shift_exact [of oneCue "- 1000" False] by (simp add: oneCue_def)
qed

end
