(* ===== verification/TimingCodec.thy ===== *)
theory TimingCodec
  imports Timing
begin

text \<open>
  internal/timing/codec.go: the stored bytes of a \<open>Timing\<close>, with
  \<^verbatim>\<open>encoding/binary\<close>'s varints. A \<^verbatim>\<open>uint64\<close> is a \<^typ>\<open>nat\<close> below \<open>2 ^ 64\<close>; the decoder,
  Go's struct of the bytes left, is the byte list a step returns beside its value, and its
  error returns are values of \<open>codec_error\<close>.
\<close>

datatype codec_error =
    Truncated
  | Overflow
  | UnknownKind nat
  | TooManySegments nat
  | DropByte nat

datatype decode_error =
    Undecodable codec_error
  | Invalid timing_error
  | NotTheEncoding

type_synonym 'a decoder = "codec_error + 'a \<times> bytes"

subsection \<open>Varints\<close>

fun appendUvarint :: "nat \<Rightarrow> bytes" where
  "appendUvarint v =
     (if v < 128 then [word_of_nat v] else word_of_nat (v mod 128 + 128) # appendUvarint (v div 128))"

declare appendUvarint.simps [simp del]

definition zigzag :: "int \<Rightarrow> nat" where
  "zigzag x = (if 0 \<le> x then nat (2 * x) else nat (- 2 * x - 1))"

definition unzigzag :: "nat \<Rightarrow> int" where
  "unzigzag u = (if even u then int (u div 2) else - int (u div 2) - 1)"

definition appendVarint :: "int \<Rightarrow> bytes" where
  "appendVarint x = appendUvarint (zigzag x)"

fun uvarint :: "nat \<Rightarrow> nat \<Rightarrow> bytes \<Rightarrow> nat decoder" where
  "uvarint i x [] = Inl Truncated"
| "uvarint i x (b # bs) =
     (if i = 10 then Inl Overflow
      else if unat b < 128 then
        (if i = 9 \<and> 1 < unat b then Inl Overflow else Inr (x + unat b * 128 ^ i, bs))
      else uvarint (Suc i) (x + unat b mod 128 * 128 ^ i) bs)"

definition d_uvarint :: "bytes \<Rightarrow> nat decoder" where
  "d_uvarint b = uvarint 0 0 b"

definition d_varint :: "bytes \<Rightarrow> int decoder" where
  "d_varint b = (case d_uvarint b of Inl e \<Rightarrow> Inl e | Inr (u, b') \<Rightarrow> Inr (unzigzag u, b'))"

fun d_byte :: "bytes \<Rightarrow> byte decoder" where
  "d_byte [] = Inl Truncated"
| "d_byte (c # b) = Inr (c, b)"

definition d_float :: "bytes \<Rightarrow> f64 decoder" where
  "d_float b = (if length b < 8 then Inl Truncated else Inr (word_of_nat (unbe (take 8 b)), drop 8 b))"

definition then_do :: "'a decoder \<Rightarrow> ('a \<Rightarrow> bytes \<Rightarrow> 'b decoder) \<Rightarrow> 'b decoder" where
  "then_do m f = (case m of Inl e \<Rightarrow> Inl e | Inr (v, b) \<Rightarrow> f v b)"

lemma then_do_simps [simp]:
  "then_do (Inl e) f = Inl e" "then_do (Inr (v, b)) f = f v b"
  by (simp_all add: then_do_def)

subsection \<open>Timings\<close>

definition boolByte :: "bool \<Rightarrow> byte" where
  "boolByte v = (if v then 1 else 0)"

definition appendSegment :: "Segment \<Rightarrow> bytes" where
  "appendSegment s = appendVarint (FromMs s) @ appendVarint (ToMs s) @ appendVarint (OffsetMs s) @ [boolByte (Drop s)]"

fun AppendTiming :: "bytes \<Rightarrow> Timing \<Rightarrow> bytes" where
  "AppendTiming b Identity = b @ [1]"
| "AppendTiming b (Shift ms) = b @ [2] @ appendVarint ms"
| "AppendTiming b (Linear s off) = b @ [3] @ be 8 (unat s) @ appendVarint off"
| "AppendTiming b (Piecewise s segs) =
     b @ [4] @ be 8 (unat s) @ appendUvarint (length segs) @ concat (map appendSegment segs)"
| "AppendTiming b NilTiming = b @ [0]"

definition d_segment :: "bytes \<Rightarrow> Segment decoder" where
  "d_segment b =
     then_do (d_varint b) (\<lambda>from b1.
     then_do (d_varint b1) (\<lambda>to b2.
     then_do (d_varint b2) (\<lambda>off b3.
     then_do (d_byte b3) (\<lambda>drp b4.
       if 1 < unat drp then Inl (DropByte (unat drp))
       else Inr (\<lparr>FromMs = from, ToMs = to, OffsetMs = off, Drop = (drp = 1)\<rparr>, b4)))))"

fun d_segments :: "nat \<Rightarrow> bytes \<Rightarrow> Segment list decoder" where
  "d_segments 0 b = Inr ([], b)"
| "d_segments (Suc n) b =
     then_do (d_segment b) (\<lambda>s b1. then_do (d_segments n b1) (\<lambda>ss b2. Inr (s # ss, b2)))"

definition d_piecewise :: "bytes \<Rightarrow> Timing decoder" where
  "d_piecewise b =
     then_do (d_float b) (\<lambda>scale b1.
     then_do (d_uvarint b1) (\<lambda>n b2.
       if maxSegments < n \<or> length b2 < n * 4 then Inl (TooManySegments n)
       else then_do (d_segments n b2) (\<lambda>segs b3. Inr (Piecewise scale segs, b3))))"

definition d_timing :: "bytes \<Rightarrow> Timing decoder" where
  "d_timing b =
     then_do (d_byte b) (\<lambda>k b1.
       if k = 1 then Inr (Identity, b1)
       else if k = 2 then then_do (d_varint b1) (\<lambda>ms b2. Inr (Shift ms, b2))
       else if k = 3 then
         then_do (d_float b1) (\<lambda>s b2. then_do (d_varint b2) (\<lambda>off b3. Inr (Linear s off, b3)))
       else if k = 4 then d_piecewise b1
       else Inl (UnknownKind (unat k)))"

definition DecodeTiming :: "bytes \<Rightarrow> decode_error + Timing" where
  "DecodeTiming b =
     (case d_timing b of
        Inl e \<Rightarrow> Inl (Undecodable e)
      | Inr (t, _) \<Rightarrow>
          (case Validate t of
             Some e \<Rightarrow> Inl (Invalid e)
           | None \<Rightarrow> if AppendTiming [] t \<noteq> b then Inl NotTheEncoding else Inr t))"

subsection \<open>Round trips\<close>

definition int64 :: "int \<Rightarrow> bool" where
  "int64 x \<longleftrightarrow> - (2 ^ 63) \<le> x \<and> x < 2 ^ 63"

lemma unzigzag_zigzag [codec, simp]: "unzigzag (zigzag x) = x"
proof (cases "0 \<le> x")
  case True
  then show ?thesis by (simp add: zigzag_def unzigzag_def nat_mult_distrib)
next
  case False
  then have "zigzag x = Suc (2 * nat (- x - 1))" by (simp add: zigzag_def)
  with False show ?thesis by (simp add: unzigzag_def)
qed

lemma zigzag_bound: "int64 x \<Longrightarrow> zigzag x < 2 ^ 64"
  by (auto simp: int64_def zigzag_def)

lemma unat_small_byte: "v < 256 \<Longrightarrow> unat (word_of_nat v :: byte) = v"
  by (simp add: unat_of_nat)

lemma pow128_bound:
  assumes "1 \<le> v" and "v * 128 ^ i < (2 :: nat) ^ 64"
  shows "i \<le> 9"
proof (rule ccontr)
  assume "\<not> i \<le> 9"
  then have "(128 :: nat) ^ 10 \<le> 128 ^ i" by (intro power_increasing) simp_all
  also have "\<dots> \<le> v * 128 ^ i" using assms(1) by simp
  finally show False using assms(2) by simp
qed

lemma uvarint_append:
  "v * 128 ^ i < 2 ^ 64 \<Longrightarrow> i \<le> 9 \<Longrightarrow> uvarint i x (appendUvarint v @ rest) = Inr (x + v * 128 ^ i, rest)"
proof (induction v arbitrary: i x rule: appendUvarint.induct)
  case (1 v)
  show ?case
  proof (cases "v < 128")
    case True
    have "\<not> (i = 9 \<and> 1 < v)" using "1.prems" by auto
    then show ?thesis using True "1.prems" by (simp add: appendUvarint.simps [of v] unat_small_byte)
  next
    case False
    have le: "v div 128 * 128 ^ Suc i \<le> v * 128 ^ i"
      by (simp flip: mult.assoc)
    then have b: "v div 128 * 128 ^ Suc i < 2 ^ 64" using "1.prems"(1) by linarith
    have "Suc i \<le> 9" by (rule pow128_bound [OF _ b]) (use False in simp)
    then have "uvarint (Suc i) (x + v mod 128 * 128 ^ i) (appendUvarint (v div 128) @ rest)
        = Inr (x + v mod 128 * 128 ^ i + v div 128 * 128 ^ Suc i, rest)"
      using "1.IH" [OF False b] by simp
    moreover have "v mod 128 * 128 ^ i + v div 128 * 128 ^ Suc i = (v mod 128 + v div 128 * 128) * 128 ^ i"
      by (simp only: power_Suc add_mult_distrib mult.assoc)
    moreover have "v mod 128 + v div 128 * 128 = v" by simp
    moreover define w :: byte where "w = word_of_nat (v mod 128 + 128)"
    moreover have "unat w = v mod 128 + 128"
      unfolding w_def by (rule unat_small_byte) simp
    moreover have "appendUvarint v = w # appendUvarint (v div 128)"
      by (simp only: appendUvarint.simps [of v] False if_False w_def)
    ultimately show ?thesis using "1.prems"(2) by (simp add: add.assoc del: of_nat_add)
  qed
qed

lemma d_uvarint_append [codec]: "v < 2 ^ 64 \<Longrightarrow> d_uvarint (appendUvarint v @ rest) = Inr (v, rest)"
  using uvarint_append [of v 0 0 rest] by (simp add: d_uvarint_def)

lemma d_varint_append [codec]: "int64 x \<Longrightarrow> d_varint (appendVarint x @ rest) = Inr (x, rest)"
  using d_uvarint_append [OF zigzag_bound [of x]] by (simp add: d_varint_def appendVarint_def)

lemma d_float_append [codec]: "d_float (be 8 (unat s) @ rest) = Inr (s, rest)"
  using unsigned_less [of s, where ?'a = nat] by (simp add: d_float_def)

lemma d_byte_boolByte [codec]: "d_byte (boolByte v # rest) = Inr (boolByte v, rest)"
  by simp

definition segment64 :: "Segment \<Rightarrow> bool" where
  "segment64 s \<longleftrightarrow> int64 (FromMs s) \<and> int64 (ToMs s) \<and> int64 (OffsetMs s)"

lemma d_segment_append [codec]: "segment64 s \<Longrightarrow> d_segment (appendSegment s @ rest) = Inr (s, rest)"
  by (simp add: d_segment_def appendSegment_def segment64_def d_varint_append boolByte_def)

lemma d_segments_append [codec]:
  "list_all segment64 segs \<Longrightarrow> d_segments (length segs) (concat (map appendSegment segs) @ rest) = Inr (segs, rest)"
  by (induction segs) (simp_all add: d_segment_append)

lemma appendUvarint_length: "1 \<le> length (appendUvarint v)"
  by (subst appendUvarint.simps) simp

lemma appendSegment_length: "4 \<le> length (appendSegment s)"
  using appendUvarint_length [of "zigzag (FromMs s)"] appendUvarint_length [of "zigzag (ToMs s)"]
    appendUvarint_length [of "zigzag (OffsetMs s)"]
  by (simp add: appendSegment_def appendVarint_def)

lemma appendSegments_length: "length segs * 4 \<le> length (concat (map appendSegment segs))"
proof (induction segs)
  case (Cons s segs)
  then show ?case using appendSegment_length [of s] by simp
qed simp

lemma int64_small: "- maxOffsetMs \<le> x \<Longrightarrow> x \<le> maxSegmentEndMs \<Longrightarrow> int64 x"
  by (simp add: int64_def maxOffsetMs_def maxSegmentEndMs_def)

lemma chained_segment64:
  "chained from segs \<Longrightarrow> 0 \<le> from \<Longrightarrow> from \<le> maxSegmentEndMs \<Longrightarrow> list_all segment64 segs"
proof (induction "from" segs rule: chained.induct)
  case (2 "from" s ss)
  have "int64 (OffsetMs s)" using 2 by (intro int64_small) (simp_all add: maxOffsetMs_def maxSegmentEndMs_def)
  moreover have "0 \<le> ToMs s \<and> ToMs s \<le> maxSegmentEndMs"
    using 2 by (cases "ss = []") (auto simp: maxSegmentEndMs_def)
  ultimately show ?case using 2 by (auto simp: segment64_def int64_small maxOffsetMs_def)
qed simp

lemma d_timing_append:
  assumes v: "checkBounds t = None"
  shows "d_timing (AppendTiming [] t) = Inr (t, [])"
proof (cases t)
  case (Shift ms)
  then have "int64 ms" using v by (intro int64_small) (simp_all add: maxOffsetMs_def maxSegmentEndMs_def)
  then show ?thesis using Shift d_varint_append [of ms "[]"] by (simp add: d_timing_def)
next
  case (Linear s off)
  then have "int64 off" using v
    by (intro int64_small) (auto simp: maxOffsetMs_def maxSegmentEndMs_def split: option.splits)
  then show ?thesis using Linear d_varint_append [of off "[]"] by (simp add: d_timing_def d_float_append)
next
  case (Piecewise s segs)
  then have c: "chained 0 segs" "length segs \<le> 2048"
    using v checkSegments_chained by (auto split: option.splits)
  have "list_all segment64 segs" by (rule chained_segment64 [OF c(1)]) (simp_all add: maxSegmentEndMs_def)
  from d_segments_append [OF this, of "[]"] show ?thesis
    using Piecewise c(2) appendSegments_length [of segs]
    by (simp add: d_timing_def d_piecewise_def d_float_append d_uvarint_append maxSegments_def)
qed (use v in \<open>simp_all add: d_timing_def\<close>)

subsection \<open>Properties\<close>

text \<open>C22. Stored timings are canonical bytes: DecodeTiming accepts exactly the encodings
  AppendTiming writes for the values Validate accepts, and reads each back as itself.
  Truncated, trailing or overlong bytes, unknown kinds and invalid values are all refused.\<close>

theorem DecodeTiming_canonical: "DecodeTiming b = Inr t \<longleftrightarrow> Validate t = None \<and> b = AppendTiming [] t"
proof
  assume "DecodeTiming b = Inr t"
  then show "Validate t = None \<and> b = AppendTiming [] t"
    by (auto simp: DecodeTiming_def split: sum.splits option.splits if_splits)
next
  assume v: "Validate t = None \<and> b = AppendTiming [] t"
  then have "checkBounds t = None" by (simp add: Validate_def split: option.splits)
  from d_timing_append [OF this] v show "DecodeTiming b = Inr t" by (simp add: DecodeTiming_def)
qed

end
