(* ===== verification/CuesDoc.thy ===== *)
theory CuesDoc
  imports Render TimingCodec
begin

text \<open>
  Whole documents: internal/timing/cuecodec.go (the stored bytes of a parsed document, and its
  re-parse), and what \<^verbatim>\<open>ParseCues\<close> of cues.go and \<^verbatim>\<open>Render\<close> of render.go promise together.
\<close>

subsection \<open>The stored bytes\<close>

definition encodings :: "Encoding list" where
  "encodings = [Unknown, UTF8, UTF16LE, UTF16BE, ISO2022JP, Windows1250, Windows1251, Windows1252,
     Windows1253, Windows1254, Windows1255, Windows1256, ISO8859_2, ISO8859_5, ISO8859_6, ISO8859_7,
     ISO8859_8, KOI8R, KOI8U, ShiftJIS, EUCJP, GB18030, Big5, EUCKR]"

fun indexOf :: "'a list \<Rightarrow> 'a \<Rightarrow> nat" where
  "indexOf [] x = 0"
| "indexOf (y # ys) x = (if x = y then 0 else Suc (indexOf ys x))"

definition encByte :: "Encoding \<Rightarrow> byte" where
  "encByte e = word_of_nat (indexOf encodings e)"

definition validEnc :: "byte \<Rightarrow> bool" where
  "validEnc b \<longleftrightarrow> unat b < length encodings"

fun formatByte :: "Format \<Rightarrow> byte" where
  "formatByte NoFormat = 0"
| "formatByte SRT = 1"
| "formatByte ASS = 2"
| "formatByte SSA = 3"

datatype cues_error = CuesTruncated | UndeclaredEncoding byte | BadDocument parse_error | CuesMismatch

definition cueLayout :: byte where "cueLayout = 1"

definition AppendCues :: "bytes \<Rightarrow> Cues \<Rightarrow> bytes" where
  "AppendCues b c = b @ [cueLayout, formatByte (format c), encByte (enc c)]
     @ appendUvarint (length (doc c)) @ toBytes (doc c)"

definition DecodeCues ::
  "(Encoding \<Rightarrow> string \<Rightarrow> string) \<Rightarrow> bytes \<Rightarrow> cues_error + Cues" where
  "DecodeCues decode b =
     (if length b < 3 then Inl CuesTruncated
      else if \<not> validEnc (b ! 2) then Inl (UndeclaredEncoding (b ! 2))
      else case d_uvarint (drop 3 b) of Inl _ \<Rightarrow> Inl CuesTruncated | Inr (_, d) \<Rightarrow>
        (case checkSize (ofBytes d) maxParsedBytes of Some err \<Rightarrow> Inl (BadDocument err) | None \<Rightarrow>
          (case parse decode (ofBytes d) (encodings ! unat (b ! 2)) of
             Inl err \<Rightarrow> Inl (BadDocument err)
           | Inr c \<Rightarrow> if AppendCues [] c \<noteq> b then Inl CuesMismatch else Inr c)))"

lemma encByte_read [codec]: "validEnc (encByte e) \<and> encodings ! unat (encByte e) = e"
  by (cases e) (simp_all add: encByte_def validEnc_def encodings_def unat_of_nat)

subsection \<open>Parsing again\<close>

text \<open>A parsed document parses again to itself: it is not a container and not WebVTT, and the
  parser that made it is the one its first line names.\<close>

lemma parse_final:
  "parse decode b e = Inr c \<Longrightarrow>
   \<exists>v. newView (doc c) e = Inr v \<and> container (doc c) = [] \<and> \<not> isWebVTT (vb v) \<and> enc c = e \<and> events c \<noteq> []
     \<and> (if isASSFamily (vb v) then parseASS decode (doc c) v e = Inr c else parseSRT (doc c) v e = Inr c)"
proof (induction decode b e rule: parse.induct)
  case (1 decode b e)
  from "1.prems" obtain v where v: "container b = []" "newView b e = Inr v"
    by (subst (asm) parse.simps) (auto split: if_splits sum.splits)
  show ?case
  proof (cases "isWebVTT (vb v)")
    case True
    then obtain out where "vttConvert b v e = Inr out" "parse decode out e = Inr c"
      using "1.prems" v by (subst (asm) parse.simps) (auto split: sum.splits)
    then show ?thesis using "1.IH" v True by blast
  next
    case False
    then have c: "(if isASSFamily (vb v) then parseASS decode b v e else parseSRT b v e) = Inr c"
      and ne: "events c \<noteq> []"
      using "1.prems" v by (subst (asm) parse.simps, auto split: sum.splits if_splits)+
    then have "doc c = b \<and> enc c = e"
      using parseSRT_cueTimes by (auto simp: parseASS_def split: if_splits sum.splits)
    then show ?thesis using c ne v False by auto
  qed
qed

lemma parse_again: "parse decode b e = Inr c \<Longrightarrow> parse decode (doc c) e = Inr c"
  using parse_final [of decode b e c] by (subst parse.simps) (auto split: if_splits)

lemma parse_enc: "parse decode b e = Inr c \<Longrightarrow> enc c = e"
  using parse_final by blast

lemma checkSize_None: "checkSize d n = None \<longleftrightarrow> 0 < length d \<and> length d \<le> n"
  by (simp add: checkSize_def not_less)

lemma decode_again:
  assumes p: "parse decode (doc c) (enc c) = Inr c" and s: "checkSize (doc c) maxParsedBytes = None"
  shows "DecodeCues decode (AppendCues [] c) = Inr c"
proof -
  have "length (doc c) < 2 ^ 64"
    using s by (simp add: checkSize_None maxParsedBytes_def maxDocumentBytes_def)
  then have u: "d_uvarint (appendUvarint (length (doc c)) @ toBytes (doc c)) = Inr (length (doc c), toBytes (doc c))"
    by (rule d_uvarint_append)
  have b: "AppendCues [] c ! 2 = encByte (enc c)" "\<not> length (AppendCues [] c) < 3"
    "drop 3 (AppendCues [] c) = appendUvarint (length (doc c)) @ toBytes (doc c)"
    by (simp_all add: AppendCues_def numeral_eq_Suc)
  show ?thesis
    using encByte_read [of "enc c"] p s u by (simp add: DecodeCues_def b)
qed

lemma uvarint_rest: "uvarint i x (appendUvarint n @ rest) = Inr (y, r) \<Longrightarrow> r = rest"
proof (induction n arbitrary: i x rule: appendUvarint.induct)
  case (1 n)
  show ?case
  proof (cases "n < 128")
    case True
    then show ?thesis
      using "1.prems" by (simp add: appendUvarint.simps [of n] unat_small_byte split: if_splits)
  next
    case False
    define w :: byte where "w = word_of_nat (n mod 128 + 128)"
    have "unat w = n mod 128 + 128" unfolding w_def by (rule unat_small_byte) simp
    moreover have "appendUvarint n = w # appendUvarint (n div 128)"
      by (simp only: appendUvarint.simps [of n] False if_False w_def)
    ultimately show ?thesis using "1.prems" "1.IH" [OF False] by (simp split: if_splits)
  qed
qed

text \<open>The swapped-columns document: a Format line naming End before Start.\<close>

definition swappedDoc :: string where
  "swappedDoc = ''[Script Info]'' @ [LF] @ ''[Events]'' @ [LF] @ ''Format:End,Start,Text'' @ [LF]
     @ ''Dialogue:0:0:2.0,0:0:1.0,x''"

definition swappedEvent :: cue where
  "swappedEvent = \<lparr>cstyle = [], startMs = 1000, endMs = 2000, cstart = \<lparr>sfrom = 62, sto = 69\<rparr>,
     cend = \<lparr>sfrom = 54, sto = 61\<rparr>, ctext = \<lparr>sfrom = 70, sto = 71\<rparr>,
     cblock = \<lparr>sfrom = 45, sto = 71\<rparr>, cindex = noSpan\<rparr>"

lemma newView_swapped: "newView swappedDoc UTF8 = Inr \<lparr>vb = swappedDoc, base = 0, unit = 1\<rparr>"
  by (simp add: ass_eval swappedDoc_def)

lemma parseASS_swapped:
  "parseASS (\<lambda>_ s. s) swappedDoc \<lparr>vb = swappedDoc, base = 0, unit = 1\<rparr> UTF8
   = Inr \<lparr>doc = swappedDoc, events = [swappedEvent], format = ASS, enc = UTF8\<rparr>"
  by (simp add: ass_eval swappedDoc_def swappedEvent_def)

lemma parse_swapped:
  "parse (\<lambda>_ s. s) swappedDoc UTF8
   = Inr \<lparr>doc = swappedDoc, events = [swappedEvent], format = ASS, enc = UTF8\<rparr>"
proof -
  have "container swappedDoc = []"
    by (simp add: container_def containers_def swappedDoc_def hasPrefix_def)
  moreover have "\<not> isWebVTT swappedDoc" by (simp add: isWebVTT_def swappedDoc_def)
  moreover have "isASSFamily swappedDoc"
    by (simp add: isASSFamily_def firstLine_def firstLineFrom.simps swappedDoc_def ass_eval)
  ultimately show ?thesis
    by (subst parse.simps) (simp add: newView_swapped parseASS_swapped [simplified])
qed

subsection \<open>What the ASS parser's events hold\<close>

definition ass_times :: "assParser \<Rightarrow> bool" where
  "ass_times p \<longleftrightarrow> list_all (times_ok ASS) (aevents p) \<and> scriptType p \<noteq> SRT \<and> stylesHeader p \<noteq> SRT"

lemma assTime_times:
  assumes "assTime v field = Some (sp, ms)"
  shows "ms < 2 ^ 32 \<and> 10 dvd ms"
proof -
  let ?b = "take (sto field - sfrom field) (drop (sfrom field) (vb v))"
  obtain lo hi where b: "trimmedBounds ?b = (lo, hi)" by fastforce
  then have le: "lo \<le> length (take hi ?b)" using trimmedBounds_bounds [of ?b lo hi] by simp
  obtain n where c: "clock (take hi ?b) lo ''.'' 2 10 = Some (ms, n)"
    using assms b by (auto simp: assTime_def Let_def split: option.splits if_splits)
  show ?thesis using clock_bound [OF c le] clock_dvd [OF c, of 10] by simp
qed

lemma assDialogue_times: "assDialogue v l f = Some (ev, style) \<Longrightarrow> times_ok ASS ev"
  using assTime_times
  by (fastforce simp: assDialogue_def times_ok_def unitOf_def Let_def split: option.splits prod.splits)

lemma times_ok_style [simp]: "times_ok f (e\<lparr>cstyle := s\<rparr>) = times_ok f e"
  by (simp add: times_ok_def)

lemma ass_times_line:
  assumes "ass_times p" and "assLine decode d e v l p = Inr q"
  shows "ass_times q"
proof -
  have "eventLine decode d e v l p = Inr q \<Longrightarrow> ass_times q"
    using assms(1) assDialogue_times
    by (fastforce simp: eventLine_def ass_times_def split: option.splits)
  then show ?thesis
    using assms by (auto simp: assLine_def ass_times_def scriptTypes_def Let_def split: if_splits option.splits)
qed

lemma parseASS_times:
  assumes "parseASS decode d v e = Inr c"
  shows "list_all (times_ok (format c)) (events c) \<and> (format c = ASS \<or> format c = SSA) \<and> doc c = d"
proof -
  from assms obtain p where p: "scanLines (assLine decode d e v) (vb v) 0 assInit = Inr p"
    and c: "events c = aevents p" "format c = orFormat (scriptType p) (orFormat (stylesHeader p) ASS)" "doc c = d"
    by (auto simp: parseASS_def split: sum.splits)
  have "ass_times p"
    by (rule scanLines_invariant [of _ _ _ _ _ "\<lambda>_. ass_times", OF p])
      (use ass_times_line in \<open>blast | simp add: ass_times_def assInit_def\<close>)+
  then have "format c \<noteq> SRT \<and> format c \<noteq> NoFormat" "list_all (times_ok ASS) (events c)"
    by (auto simp: c ass_times_def orFormat_def)
  then show ?thesis using c by (cases "format c") (auto simp: times_ok_def unitOf_def list_all_iff)
qed

text \<open>A document Render is safe on: SubRip, or ASS whose Format lines name Start before End.\<close>

definition orderedDoc :: "Cues \<Rightarrow> bool" where
  "orderedDoc c \<longleftrightarrow>
     (case newView (doc c) (enc c) of Inl _ \<Rightarrow> False
      | Inr v \<Rightarrow> isASSFamily (vb v) \<longrightarrow> formatsOrdered (vb v))"

lemma parse_wf:
  assumes p: "parse decode b e = Inr c" and o: "orderedDoc c"
  shows "events_wf 0 (length (doc c)) (events c) \<and> list_all (times_ok (format c)) (events c) \<and> format c \<noteq> NoFormat"
proof -
  obtain v where v: "newView (doc c) e = Inr v" "enc c = e" "events c \<noteq> []"
    and c: "if isASSFamily (vb v) then parseASS decode (doc c) v e = Inr c else parseSRT (doc c) v e = Inr c"
    using parse_final [OF p] by blast
  show ?thesis
  proof (cases "isASSFamily (vb v)")
    case True
    then have f: "formatsOrdered (vb v)" using o v by (simp add: orderedDoc_def)
    have a: "parseASS decode (doc c) v e = Inr c" using c True by simp
    have "events_wf 0 (length (doc c)) (events c)"
      using parseASS_wf [OF a f] newView_off [OF v(1)] events_wf_mono [of "base v"] by simp
    then show ?thesis using parseASS_times [OF a] by auto
  next
    case False
    then have a: "parseSRT (doc c) v e = Inr c" using c by simp
    have "events_wf 0 (length (doc c)) (events c)"
      using parseSRT_tiled [OF a] v(3) newView_off [OF v(1)] tiled_events_wf
        events_wf_mono [OF _ le0] by metis
    then show ?thesis using parseSRT_times_ok [OF a] parseSRT_cueTimes [OF a] by (simp add: list_all_iff)
  qed
qed

subsection \<open>Properties\<close>

text \<open>C12. The stored bytes of a parsed document are canonical: DecodeCues accepts exactly the bytes
  AppendCues writes for a document within the size limit that parses to itself, and returns that
  document.\<close>

theorem DecodeCues_canonical:
  "DecodeCues decode b = Inr c \<longleftrightarrow>
     b = AppendCues [] c \<and> parse decode (doc c) (enc c) = Inr c \<and> checkSize (doc c) maxParsedBytes = None"
proof
  assume d: "DecodeCues decode b = Inr c"
  obtain n d' where u: "d_uvarint (drop 3 b) = Inr (n, d')"
    using d by (cases "d_uvarint (drop 3 b)", simp_all add: DecodeCues_def split: if_splits, fastforce)
  have s: "checkSize (ofBytes d') maxParsedBytes = None"
    using d u by (cases "checkSize (ofBytes d') maxParsedBytes") (simp_all add: DecodeCues_def split: if_splits)
  obtain c' where c': "parse decode (ofBytes d') (encodings ! unat (b ! 2)) = Inr c'"
    using d u s by (cases "parse decode (ofBytes d') (encodings ! unat (b ! 2))")
      (simp_all add: DecodeCues_def split: if_splits)
  have cb: "c' = c" "AppendCues [] c' = b"
    using d u s c' by (simp_all add: DecodeCues_def split: if_splits)
  note d' = s c' [unfolded cb(1)] cb(2) [unfolded cb(1), symmetric] u
  have "drop 3 b = appendUvarint (length (doc c)) @ toBytes (doc c)"
    by (simp add: d'(3) AppendCues_def numeral_eq_Suc)
  then have "d' = toBytes (doc c)" using d'(4) uvarint_rest by (simp add: d_uvarint_def)
  then show "b = AppendCues [] c \<and> parse decode (doc c) (enc c) = Inr c \<and> checkSize (doc c) maxParsedBytes = None"
    using d' parse_enc [OF d'(2)] by simp
qed (use decode_again in auto)

text \<open>C11. Rendering a parsed document never panics, whatever the timing, for every document that is
  SubRip (a converted WebVTT included), or ASS and SSA with Start named before End; and under
  Identity, when every cue ends after 0, it writes the document's own bytes.\<close>

theorem Render_parsed:
  assumes "parse decode b e = Inr c" and "orderedDoc c"
  shows "Render fused c t \<noteq> Panic
    \<and> (list_all (\<lambda>ev. 0 < endMs ev) (events c) \<longrightarrow> Render fused c Identity = Rendered (doc c))"
proof -
  note wf = parse_wf [OF assms]
  have "Render fused c t \<noteq> Panic"
    using renderEvents_ref [of 0 c "zip (events c) ms" 0 for ms] wf mapEvents_length
    by (auto simp: Render_def split: sum.splits)
  moreover have "list_all (\<lambda>ev. 0 < endMs ev) (events c) \<Longrightarrow> Render fused c Identity = Rendered (doc c)"
    using wf by (intro Render_Identity) (auto simp: list_all_iff)
  ultimately show ?thesis by blast
qed

lemma parse_oneCue:
  "parse (\<lambda>_ s. s) ''0:0:0,0-->0:0:1,0'' UTF8
   = Inr \<lparr>doc = ''0:0:0,0-->0:0:1,0'', events = [oneCue], format = SRT, enc = UTF8\<rparr>"
proof -
  let ?d = "''0:0:0,0-->0:0:1,0''"
  have "container ?d = []" by (simp add: container_def containers_def hasPrefix_def)
  moreover have "\<not> isWebVTT ?d" by (simp add: isWebVTT_def)
  moreover have "\<not> isASSFamily ?d"
    by (simp add: isASSFamily_def firstLine_def firstLineFrom.simps ass_eval)
  ultimately show ?thesis
    by (subst parse.simps) (simp add: newView_oneCue [simplified] parseSRT_oneCue [simplified])
qed

theorem Render_parsed_witness:
  "Render True \<lparr>doc = ''0:0:0,0-->0:0:1,0'', events = [oneCue], format = SRT, enc = UTF8\<rparr> (Shift 5) \<noteq> Panic"
proof -
  have "\<not> isASSFamily ''0:0:0,0-->0:0:1,0''"
    by (simp add: isASSFamily_def firstLine_def firstLineFrom.simps ass_eval)
  then have "orderedDoc \<lparr>doc = ''0:0:0,0-->0:0:1,0'', events = [oneCue], format = SRT, enc = UTF8\<rparr>"
    by (simp add: orderedDoc_def newView_oneCue [simplified])
  then show ?thesis using Render_parsed [OF parse_oneCue] by blast
qed

text \<open>C19. The condition on ASS is needed: a document whose Format line names End before Start parses
  into an event, and rendering it panics, even under Identity.\<close>

theorem Render_swapped_panics:
  "\<exists>c. parse (\<lambda>_ s. s) swappedDoc UTF8 = Inr c \<and> events c \<noteq> [] \<and> Render fused c Identity = Panic"
proof -
  let ?c = "\<lparr>doc = swappedDoc, events = [swappedEvent], format = ASS, enc = UTF8\<rparr>"
  have "times_ok ASS swappedEvent" "0 < endMs swappedEvent"
    by (simp_all add: times_ok_def unitOf_def swappedEvent_def)
  then have "mapEvents fused ?c Identity = Inr [\<lparr>mstart = startMs swappedEvent, mend = endMs swappedEvent, keep = True\<rparr>]"
    by (simp add: mapEvents_def mapCue_Identity)
  moreover have "length swappedDoc = 71" by (simp add: swappedDoc_def)
  ultimately have "Render fused ?c Identity = Panic"
    by (simp add: Render_def docSlice_def appendStamp_def swappedEvent_def Let_def)
  then show ?thesis using parse_swapped by auto
qed


end
