(* ===== verification/Utf8.thy ===== *)
theory Utf8
  imports Prelude
begin

text \<open>
  Go's UTF-8 decoding (\<^verbatim>\<open>unicode/utf8\<close>), which the name parsers read runes with: a byte that starts no
  valid sequence decodes as U+FFFD of width 1. A rune is a \<^typ>\<open>nat\<close>.
\<close>

type_synonym rune = nat

definition RuneError :: rune where "RuneError = 0xFFFD"

definition bv :: "char \<Rightarrow> nat" where "bv c = of_char c"

definition RuneStart :: "char \<Rightarrow> bool" where
  "RuneStart c \<longleftrightarrow> bv c div 64 \<noteq> 2"

definition cont :: "char \<Rightarrow> bool" where
  "cont c \<longleftrightarrow> 0x80 \<le> bv c \<and> bv c \<le> 0xBF"

text \<open>The bounds of the second byte after a first byte, \<^verbatim>\<open>utf8.acceptRanges\<close>.\<close>

definition second :: "nat \<Rightarrow> char \<Rightarrow> bool" where
  "second b0 c \<longleftrightarrow>
     (if b0 = 0xE0 then 0xA0 else if b0 = 0xF0 then 0x90 else 0x80) \<le> bv c
     \<and> bv c \<le> (if b0 = 0xED then 0x9F else if b0 = 0xF4 then 0x8F else 0xBF)"

definition low6 :: "char \<Rightarrow> nat" where "low6 c = bv c mod 64"

definition DecodeRune :: "string \<Rightarrow> rune \<times> nat" where
  "DecodeRune s =
     (case s of [] \<Rightarrow> (RuneError, 0)
      | c0 # r \<Rightarrow>
          let b0 = bv c0
          in if b0 < 0x80 then (b0, 1)
             else if b0 < 0xC2 \<or> 0xF4 < b0 then (RuneError, 1)
             else (case r of [] \<Rightarrow> (RuneError, 1)
               | c1 # r1 \<Rightarrow>
                   if \<not> second b0 c1 then (RuneError, 1)
                   else if b0 < 0xE0 then (b0 mod 32 * 64 + low6 c1, 2)
                   else (case r1 of [] \<Rightarrow> (RuneError, 1)
                     | c2 # r2 \<Rightarrow>
                         if \<not> cont c2 then (RuneError, 1)
                         else if b0 < 0xF0 then ((b0 mod 16 * 64 + low6 c1) * 64 + low6 c2, 3)
                         else (case r2 of [] \<Rightarrow> (RuneError, 1)
                           | c3 # _ \<Rightarrow>
                               if \<not> cont c3 then (RuneError, 1)
                               else (((b0 mod 8 * 64 + low6 c1) * 64 + low6 c2) * 64 + low6 c3, 4)))))"

lemma DecodeRune_width: "s \<noteq> [] \<Longrightarrow> 0 < snd (DecodeRune s) \<and> snd (DecodeRune s) \<le> length s"
  by (auto simp: DecodeRune_def Let_def split: list.splits)

lemma DecodeRune_max: "snd (DecodeRune s) \<le> 4"
  by (auto simp: DecodeRune_def Let_def split: list.splits)

lemma DecodeRune_ASCII: "bv c < 0x80 \<Longrightarrow> DecodeRune (c # s) = (bv c, 1)"
  by (simp add: DecodeRune_def)

text \<open>\<^verbatim>\<open>DecodeLastRuneInString\<close>: from the last byte back over at most 3 bytes to a start byte, whose
  rune must reach the end. Going below 0 stops at 0, as \<^typ>\<open>nat\<close> subtraction does.\<close>

definition lastStart :: "string \<Rightarrow> nat" where
  "lastStart s = length s - 2 - length (takeWhile (\<lambda>c. \<not> RuneStart c) (take 3 (drop 1 (rev s))))"

definition DecodeLastRune :: "string \<Rightarrow> rune \<times> nat" where
  "DecodeLastRune s =
     (if s = [] then (RuneError, 0)
      else if bv (last s) < 0x80 then (bv (last s), 1)
      else let st = lastStart s; (r, w) = DecodeRune (drop st s)
           in if st + w \<noteq> length s then (RuneError, 1) else (r, w))"

text \<open>\<^verbatim>\<open>for _, r := range s\<close>.\<close>

function runes :: "string \<Rightarrow> rune list" where
  "runes s = (if s = [] then [] else case DecodeRune s of (r, w) \<Rightarrow> r # runes (drop w s))"
  by pat_completeness auto
termination
  by (relation "measure length") (auto dest: DecodeRune_width split: prod.splits simp: prod_eq_iff)

declare runes.simps [simp del]

subsection \<open>Encoding\<close>

text \<open>\<^verbatim>\<open>utf8.AppendRune\<close> of one rune, and the scalar values: the runes that are encoded as themselves.\<close>

definition scalar :: "rune \<Rightarrow> bool" where
  "scalar r \<longleftrightarrow> r < 0xD800 \<or> (0xDFFF < r \<and> r < 0x110000)"

definition byte_char :: "nat \<Rightarrow> char" where "byte_char n = char_of n"

definition EncodeRune :: "rune \<Rightarrow> string" where
  "EncodeRune r =
     (if r < 0x80 then [byte_char r]
      else if r < 0x800 then [byte_char (0xC0 + r div 64), byte_char (0x80 + r mod 64)]
      else if \<not> scalar r then [byte_char 0xEF, byte_char 0xBF, byte_char 0xBD]
      else if r < 0x10000 then
        [byte_char (0xE0 + r div 4096), byte_char (0x80 + r div 64 mod 64), byte_char (0x80 + r mod 64)]
      else [byte_char (0xF0 + r div 262144), byte_char (0x80 + r div 4096 mod 64),
            byte_char (0x80 + r div 64 mod 64), byte_char (0x80 + r mod 64)])"

definition utf8 :: "rune list \<Rightarrow> string" where
  "utf8 rs = concat (map EncodeRune rs)"

lemma bv_byte_char [simp]: "n < 256 \<Longrightarrow> bv (byte_char n) = n"
  by (simp add: bv_def byte_char_def)

lemma EncodeRune_length: "1 \<le> length (EncodeRune r) \<and> length (EncodeRune r) \<le> 4"
  by (simp add: EncodeRune_def)

lemma EncodeRune_not_Nil [simp]: "EncodeRune r \<noteq> []"
  by (simp add: EncodeRune_def)

lemma utf8_simps [simp]: "utf8 [] = []" "utf8 (r # rs) = EncodeRune r @ utf8 rs"
  "utf8 (rs @ ss) = utf8 rs @ utf8 ss"
  by (simp_all add: utf8_def)

text \<open>The four lengths, in the digits of the rune to base 64.\<close>

lemma lead_mod:
  "a < 32 \<Longrightarrow> (192 + a) mod 32 = a" "b < 64 \<Longrightarrow> (128 + b) mod 64 = b"
  "a < 16 \<Longrightarrow> (224 + a) mod 16 = a" "a < 8 \<Longrightarrow> (240 + a) mod 8 = a" for a b :: nat
  by (subst mod_add_left_eq [symmetric], simp)+

lemma base64_bounds:
  "(a * 64 + b) * 64 + c = r \<Longrightarrow> c < 64 \<Longrightarrow> 0x800 \<le> r \<Longrightarrow> a = 0 \<longrightarrow> 32 \<le> b"
  "(a * 64 + b) * 64 + c = r \<Longrightarrow> b < 64 \<Longrightarrow> c < 64 \<Longrightarrow> scalar r \<Longrightarrow> r < 0x10000 \<Longrightarrow> a = 13 \<longrightarrow> b < 32"
  "((a * 64 + b) * 64 + c) * 64 + e = r \<Longrightarrow> c < 64 \<Longrightarrow> e < 64 \<Longrightarrow> 0x10000 \<le> r \<Longrightarrow> a = 0 \<longrightarrow> 16 \<le> b"
  "((a * 64 + b) * 64 + c) * 64 + e = r \<Longrightarrow> r < 0x110000 \<Longrightarrow> a = 4 \<longrightarrow> b < 16"
  by (auto simp: scalar_def)

lemma DecodeRune_bytes2:
  "2 \<le> a \<Longrightarrow> a < 32 \<Longrightarrow> b < 64 \<Longrightarrow>
   DecodeRune (byte_char (192 + a) # byte_char (128 + b) # s) = (a * 64 + b, 2)"
  by (simp add: DecodeRune_def second_def low6_def lead_mod Let_def)

lemma DecodeRune_bytes3:
  "a < 16 \<Longrightarrow> b < 64 \<Longrightarrow> c < 64 \<Longrightarrow> a = 0 \<longrightarrow> 32 \<le> b \<Longrightarrow> a = 13 \<longrightarrow> b < 32 \<Longrightarrow>
   DecodeRune (byte_char (224 + a) # byte_char (128 + b) # byte_char (128 + c) # s)
     = ((a * 64 + b) * 64 + c, 3)"
  by (auto simp: DecodeRune_def second_def cont_def low6_def lead_mod Let_def)

lemma DecodeRune_bytes4:
  "a < 5 \<Longrightarrow> b < 64 \<Longrightarrow> c < 64 \<Longrightarrow> e < 64 \<Longrightarrow> a = 0 \<longrightarrow> 16 \<le> b \<Longrightarrow> a = 4 \<longrightarrow> b < 16 \<Longrightarrow>
   DecodeRune (byte_char (240 + a) # byte_char (128 + b) # byte_char (128 + c) # byte_char (128 + e) # s)
     = (((a * 64 + b) * 64 + c) * 64 + e, 4)"
  by (auto simp: DecodeRune_def second_def cont_def low6_def lead_mod Let_def)

lemma DecodeRune_2:
  assumes r: "0x80 \<le> r" "r < 0x800"
  shows "DecodeRune (EncodeRune r @ s) = (r, 2)"
proof -
  have "r div 64 * 64 + r mod 64 = r" by simp
  moreover have "2 \<le> r div 64" "r div 64 < 32" using r by simp_all
  ultimately show ?thesis
    using r DecodeRune_bytes2 [of "r div 64" "r mod 64" s] by (simp add: EncodeRune_def)
qed

lemma DecodeRune_3:
  assumes r: "0x800 \<le> r" "r < 0x10000" "scalar r"
  shows "DecodeRune (EncodeRune r @ s) = (r, 3)"
proof -
  have d: "r div 4096 = r div 64 div 64" by (simp flip: div_mult2_eq)
  have e: "(r div 4096 * 64 + r div 64 mod 64) * 64 + r mod 64 = r" unfolding d by simp
  have "r div 4096 < 16" using r by simp
  moreover have "r div 4096 = 0 \<longrightarrow> 32 \<le> r div 64 mod 64" by (rule base64_bounds(1) [OF e]) (use r in simp_all)
  moreover have "r div 4096 = 13 \<longrightarrow> r div 64 mod 64 < 32" by (rule base64_bounds(2) [OF e]) (use r in simp_all)
  ultimately show ?thesis
    using r DecodeRune_bytes3 [of "r div 4096" "r div 64 mod 64" "r mod 64" s] e by (simp add: EncodeRune_def)
qed

lemma DecodeRune_4:
  assumes r: "0x10000 \<le> r" "r < 0x110000"
  shows "DecodeRune (EncodeRune r @ s) = (r, 4)"
proof -
  have d: "r div 4096 = r div 64 div 64" "r div 262144 = r div 64 div 64 div 64"
    by (simp_all flip: div_mult2_eq)
  have e: "((r div 262144 * 64 + r div 4096 mod 64) * 64 + r div 64 mod 64) * 64 + r mod 64 = r"
    unfolding d by simp
  have "r div 262144 < 5" using r by simp
  moreover have "r div 262144 = 0 \<longrightarrow> 16 \<le> r div 4096 mod 64" by (rule base64_bounds(3) [OF e]) (use r in simp_all)
  moreover have "r div 262144 = 4 \<longrightarrow> r div 4096 mod 64 < 16" by (rule base64_bounds(4) [OF e]) (use r in simp_all)
  moreover have "scalar r" using r by (simp add: scalar_def)
  ultimately show ?thesis
    using r DecodeRune_bytes4 [of "r div 262144" "r div 4096 mod 64" "r div 64 mod 64" "r mod 64" s] e
    by (simp add: EncodeRune_def)
qed

lemma DecodeRune_EncodeRune [simp]:
  "scalar r \<Longrightarrow> DecodeRune (EncodeRune r @ s) = (r, length (EncodeRune r))"
proof -
  assume r: "scalar r"
  consider "r < 0x80" | "0x80 \<le> r" "r < 0x800" | "0x800 \<le> r" "r < 0x10000" | "0x10000 \<le> r" "r < 0x110000"
    using r by (force simp: scalar_def)
  then show ?thesis
  proof cases
    case 1
    then show ?thesis by (simp add: EncodeRune_def DecodeRune_def)
  next
    case 2
    then show ?thesis using DecodeRune_2 [of r s] by (simp add: EncodeRune_def)
  next
    case 3
    then show ?thesis using DecodeRune_3 [of r s] r by (simp add: EncodeRune_def)
  next
    case 4
    then show ?thesis using DecodeRune_4 [of r s] r by (simp add: EncodeRune_def)
  qed
qed

lemma runes_utf8 [simp]: "list_all scalar rs \<Longrightarrow> runes (utf8 rs) = rs"
proof (induction rs)
  case (Cons r rs)
  have "EncodeRune r @ utf8 rs \<noteq> []" by simp
  then show ?case using Cons by (subst runes.simps) simp
qed (simp add: runes.simps)

lemma scalar_small: "r < 0xD800 \<Longrightarrow> scalar r"
  by (simp add: scalar_def)

lemma scalar_RuneError [simp]: "scalar RuneError"
  by (simp add: scalar_def RuneError_def)

subsection \<open>Validity\<close>

text \<open>\<^verbatim>\<open>strings.ToValidUTF8\<close>: each run of invalid bytes becomes one replacement. A byte is invalid when
  it decodes as U+FFFD of width 1; \<open>bad\<close> is whether the byte before was.\<close>

function toValidFrom :: "string \<Rightarrow> bool \<Rightarrow> string \<Rightarrow> string" where
  "toValidFrom repl bad s =
     (if s = [] then []
      else case DecodeRune s of (r, w) \<Rightarrow>
        if r = RuneError \<and> w = 1 then (if bad then [] else repl) @ toValidFrom repl True (drop 1 s)
        else take w s @ toValidFrom repl False (drop w s))"
  by pat_completeness auto
termination
  by (relation "measure (\<lambda>(repl, bad, s). length s)") (auto dest: DecodeRune_width simp: prod_eq_iff)

declare toValidFrom.simps [simp del]

definition ToValidUTF8 :: "string \<Rightarrow> string \<Rightarrow> string" where
  "ToValidUTF8 s repl = toValidFrom repl False s"

text \<open>A rune that decodes otherwise is a scalar and its bytes are its encoding.\<close>

lemma byte_char_bv [simp]: "byte_char (bv c) = c"
  by (simp add: bv_def byte_char_def)

lemma lead_obtain: "n \<le> m \<Longrightarrow> \<exists>k. m = n + k" for n m :: nat
  by (rule le_Suc_ex)

lemma div64: "c < 64 \<Longrightarrow> (q * 64 + c) div 64 = q" "c < 64 \<Longrightarrow> (q * 64 + c) mod 64 = c" for q c :: nat
  by simp_all

lemma EncodeRune_digits:
  "2 \<le> a \<Longrightarrow> a < 32 \<Longrightarrow> b < 64 \<Longrightarrow> EncodeRune (a * 64 + b) = [byte_char (192 + a), byte_char (128 + b)]"
  "a < 16 \<Longrightarrow> b < 64 \<Longrightarrow> c < 64 \<Longrightarrow> a = 0 \<longrightarrow> 32 \<le> b \<Longrightarrow> a = 13 \<longrightarrow> b < 32 \<Longrightarrow>
   scalar ((a * 64 + b) * 64 + c) \<and>
   EncodeRune ((a * 64 + b) * 64 + c) = [byte_char (224 + a), byte_char (128 + b), byte_char (128 + c)]"
  "a < 5 \<Longrightarrow> b < 64 \<Longrightarrow> c < 64 \<Longrightarrow> e < 64 \<Longrightarrow> a = 0 \<longrightarrow> 16 \<le> b \<Longrightarrow> a = 4 \<longrightarrow> b < 16 \<Longrightarrow>
   scalar (((a * 64 + b) * 64 + c) * 64 + e) \<and>
   EncodeRune (((a * 64 + b) * 64 + c) * 64 + e)
     = [byte_char (240 + a), byte_char (128 + b), byte_char (128 + c), byte_char (128 + e)]"
proof -
  assume "2 \<le> a" "a < 32" "b < 64"
  then show "EncodeRune (a * 64 + b) = [byte_char (192 + a), byte_char (128 + b)]"
    by (simp add: EncodeRune_def)
next
  assume *: "a < 16" "b < 64" "c < 64" "a = 0 \<longrightarrow> 32 \<le> b" "a = 13 \<longrightarrow> b < 32"
  let ?r = "(a * 64 + b) * 64 + c"
  have r: "0x800 \<le> ?r" "?r < 0x10000" using * by (cases "a = 0"; simp)+
  have "?r < 0xD800 \<or> 0xDFFF < ?r"
    using * by (cases "a < 13"; cases "a = 13"; simp)
  then have "scalar ?r" using r by (auto simp: scalar_def)
  moreover have "?r div 4096 = a" "?r div 64 mod 64 = b" "?r mod 64 = c"
    using div64 [OF *(3), of "a * 64 + b"] div64 [OF *(2), of a] div_mult2_eq [of ?r 64 64]
    by (simp_all only:)
  ultimately show "scalar ?r \<and> EncodeRune ?r = [byte_char (224 + a), byte_char (128 + b), byte_char (128 + c)]"
    using r by (simp only: EncodeRune_def) simp
next
  assume *: "a < 5" "b < 64" "c < 64" "e < 64" "a = 0 \<longrightarrow> 16 \<le> b" "a = 4 \<longrightarrow> b < 16"
  let ?r = "((a * 64 + b) * 64 + c) * 64 + e"
  have r: "0x10000 \<le> ?r" "?r < 0x110000" using * by (cases "a = 0"; cases "a = 4"; simp)+
  then have "scalar ?r" by (auto simp: scalar_def)
  moreover have "?r div 262144 = a" "?r div 4096 mod 64 = b" "?r div 64 mod 64 = c" "?r mod 64 = e"
    using div64 [OF *(4), of "(a * 64 + b) * 64 + c"] div64 [OF *(3), of "a * 64 + b"] div64 [OF *(2), of a]
      div_mult2_eq [of ?r 64 64] div_mult2_eq [of ?r 64 "64 * 64"] div_mult2_eq [of "?r div 64" 64 64]
    by (simp_all only:) simp
  ultimately show "scalar ?r \<and> EncodeRune ?r
      = [byte_char (240 + a), byte_char (128 + b), byte_char (128 + c), byte_char (128 + e)]"
    using r by (simp only: EncodeRune_def) simp
qed

lemma DecodeRune_valid:
  assumes "s \<noteq> []" and "DecodeRune s = (r, w)" and "\<not> (r = RuneError \<and> w = 1)"
  shows "scalar r \<and> take w s = EncodeRune r"
proof -
  obtain c0 s0 where s: "s = c0 # s0" using assms(1) by (cases s) auto
  let ?b0 = "bv c0"
  consider (ascii) "?b0 < 0x80" | (two) "0xC2 \<le> ?b0" "?b0 < 0xE0" | (three) "0xE0 \<le> ?b0" "?b0 < 0xF0"
    | (four) "0xF0 \<le> ?b0" "?b0 \<le> 0xF4" | (bad) "0x80 \<le> ?b0" "?b0 < 0xC2 \<or> 0xF4 < ?b0"
    by linarith
  then show ?thesis
  proof cases
    case ascii
    then show ?thesis using assms(2) s by (auto simp: DecodeRune_def EncodeRune_def scalar_def)
  next
    case two
    obtain c1 s1 where c1: "s0 = c1 # s1" "second ?b0 c1" "r = ?b0 mod 32 * 64 + low6 c1" "w = 2"
      using assms two s by (auto simp: DecodeRune_def Let_def split: list.splits if_splits)
    then have "0x80 \<le> bv c1" "bv c1 < 0xC0" using two by (auto simp: second_def)
    then obtain a b where ab: "?b0 = 192 + a" "bv c1 = 128 + b" "2 \<le> a" "a < 32" "b < 64"
      using two lead_obtain [of 192 ?b0] lead_obtain [of 128 "bv c1"] by auto
    then have "c0 = byte_char (192 + a)" "c1 = byte_char (128 + b)" by (metis byte_char_bv)+
    then show ?thesis
      using c1 s ab EncodeRune_digits(1) [OF ab(3-5)] by (simp add: low6_def lead_mod scalar_def)
  next
    case three
    obtain c1 c2 s2 where c: "s0 = c1 # c2 # s2" "second ?b0 c1" "cont c2"
        "r = (?b0 mod 16 * 64 + low6 c1) * 64 + low6 c2" "w = 3"
      using assms three s by (auto simp: DecodeRune_def Let_def split: list.splits if_splits)
    then have b: "0x80 \<le> bv c1" "bv c1 < 0xC0" "0x80 \<le> bv c2" "bv c2 < 0xC0"
        "?b0 = 0xE0 \<longrightarrow> 0xA0 \<le> bv c1" "?b0 = 0xED \<longrightarrow> bv c1 \<le> 0x9F"
      using three by (auto simp: second_def cont_def split: if_splits)
    then obtain x y z where xyz: "?b0 = 224 + x" "bv c1 = 128 + y" "bv c2 = 128 + z" "x < 16" "y < 64" "z < 64"
        "x = 0 \<longrightarrow> 32 \<le> y" "x = 13 \<longrightarrow> y < 32"
      using three lead_obtain [of 224 ?b0] lead_obtain [of 128 "bv c1"] lead_obtain [of 128 "bv c2"] by auto
    then have "c0 = byte_char (224 + x)" "c1 = byte_char (128 + y)" "c2 = byte_char (128 + z)"
      by (metis byte_char_bv)+
    then have "scalar r \<and> EncodeRune r = [c0, c1, c2]"
      using c(4) xyz EncodeRune_digits(2) [OF xyz(4-8)] by (simp only: low6_def lead_mod)
    then show ?thesis using c s by simp
  next
    case four
    obtain c1 c2 c3 s3 where c: "s0 = c1 # c2 # c3 # s3" "second ?b0 c1" "cont c2" "cont c3"
        "r = ((?b0 mod 8 * 64 + low6 c1) * 64 + low6 c2) * 64 + low6 c3" "w = 4"
      using assms four s by (auto simp: DecodeRune_def Let_def split: list.splits if_splits)
    then have b: "0x80 \<le> bv c1" "bv c1 < 0xC0" "0x80 \<le> bv c2" "bv c2 < 0xC0" "0x80 \<le> bv c3" "bv c3 < 0xC0"
        "?b0 = 0xF0 \<longrightarrow> 0x90 \<le> bv c1" "?b0 = 0xF4 \<longrightarrow> bv c1 \<le> 0x8F"
      using four by (auto simp: second_def cont_def split: if_splits)
    then obtain x y z t where xyz: "?b0 = 240 + x" "bv c1 = 128 + y" "bv c2 = 128 + z" "bv c3 = 128 + t"
        "x < 5" "y < 64" "z < 64" "t < 64" "x = 0 \<longrightarrow> 16 \<le> y" "x = 4 \<longrightarrow> y < 16"
      using four lead_obtain [of 240 ?b0] lead_obtain [of 128 "bv c1"] lead_obtain [of 128 "bv c2"]
        lead_obtain [of 128 "bv c3"] by auto
    then have "c0 = byte_char (240 + x)" "c1 = byte_char (128 + y)" "c2 = byte_char (128 + z)"
        "c3 = byte_char (128 + t)"
      by (metis byte_char_bv)+
    moreover have "(240 + x) mod 8 = x" using xyz(5) by (simp add: lead_mod)
    ultimately have "scalar r \<and> EncodeRune r = [c0, c1, c2, c3]"
      using c(5) xyz EncodeRune_digits(3) [OF xyz(5-10)] by (simp only: low6_def lead_mod)
    then show ?thesis using c s by simp
  next
    case bad
    then show ?thesis using assms s by (auto simp: DecodeRune_def Let_def)
  qed
qed

lemma toValidFrom_utf8: "\<exists>rs. list_all scalar rs \<and> toValidFrom (utf8 [RuneError]) b s = utf8 rs"
proof (induction "utf8 [RuneError]" b s rule: toValidFrom.induct)
  case (1 b s)
  show ?case
  proof (cases "s = []")
    case True
    then show ?thesis by (intro exI [of _ "[]"]) (simp add: toValidFrom.simps)
  next
    case False
    obtain r w where d: "DecodeRune s = (r, w)" by fastforce
    show ?thesis
    proof (cases "r = RuneError \<and> w = 1")
      case True
      obtain rs where rs: "list_all scalar rs" "toValidFrom (utf8 [RuneError]) True (drop 1 s) = utf8 rs"
        using "1.hyps"(1) [OF False d [symmetric] True] by blast
      then show ?thesis
        using False d True
        by (subst toValidFrom.simps) (rule exI [of _ "(if b then [] else [RuneError]) @ rs"], simp)
    next
      case ok: False
      obtain rs where rs: "list_all scalar rs" "toValidFrom (utf8 [RuneError]) False (drop w s) = utf8 rs"
        using "1.hyps"(2) [OF False d [symmetric] ok] by blast
      then show ?thesis
        using False d ok DecodeRune_valid [OF False d ok]
        by (subst toValidFrom.simps) (rule exI [of _ "r # rs"], auto)
    qed
  qed
qed

lemma ToValidUTF8_utf8:
  obtains rs where "list_all scalar rs" "ToValidUTF8 s (utf8 [RuneError]) = utf8 rs"
  using toValidFrom_utf8 [of False s] unfolding ToValidUTF8_def by blast

lemma toValidFrom_id: "list_all scalar rs \<Longrightarrow> toValidFrom repl b (utf8 rs) = utf8 rs"
proof (induction rs arbitrary: b)
  case (Cons r rs)
  have "length (EncodeRune RuneError) = 3" by (simp add: EncodeRune_def RuneError_def scalar_def)
  then show ?case using Cons by (subst toValidFrom.simps) auto
qed (simp add: toValidFrom.simps)

lemma ToValidUTF8_id: "list_all scalar rs \<Longrightarrow> ToValidUTF8 (utf8 rs) repl = utf8 rs"
  by (simp add: ToValidUTF8_def toValidFrom_id)

end
