(* ===== verification/Release.thy ===== *)
theory Release
  imports Utf8
begin

text \<open>
  internal/release/release.go and cut.go: the source labels and their families, the cut tokens,
  and what a release name reads as. Lower-casing and the letter and digit classes
  (\<^verbatim>\<open>strings.ToLower\<close>, package \<^verbatim>\<open>unicode\<close>) are the parameters \<open>lower\<close> and \<open>isWord\<close>: Unicode tables.
\<close>

datatype Source = SourceUnknown | BluRay | Remux | BDRip | BRRip | WebDL | WebRip
  | HDTV | SDTV | PDTV | DSR | TVRip | RawHD | DVDSource | DVDR
  | Cam | Telesync | Telecine | Screener | Regional | Workprint

datatype Family = FamilyUnknown | Disc | Web | TV | DVD | PreRelease

definition Family_of :: "Source \<Rightarrow> Family" where
  "Family_of s =
     (if s \<in> {BluRay, Remux, BDRip, BRRip} then Disc
      else if s \<in> {WebDL, WebRip} then Web
      else if s \<in> {HDTV, SDTV, PDTV, DSR, TVRip, RawHD} then TV
      else if s \<in> {DVDSource, DVDR} then DVD
      else if s \<in> {Cam, Telesync, Telecine, Screener, Regional, Workprint} then PreRelease
      else FamilyUnknown)"

type_synonym Cut = "16 word"

definition CutTheatrical :: Cut where "CutTheatrical = 1"
definition CutExtended :: Cut where "CutExtended = 2"
definition CutDirectors :: Cut where "CutDirectors = 4"
definition CutUltimate :: Cut where "CutUltimate = 8"
definition CutFinal :: Cut where "CutFinal = 16"
definition CutAssembly :: Cut where "CutAssembly = 32"
definition CutRecut :: Cut where "CutRecut = 64"
definition CutDespecialized :: Cut where "CutDespecialized = 128"
definition CutSpecial :: Cut where "CutSpecial = 256"
definition CutUnrated :: Cut where "CutUnrated = 512"
definition CutUncut :: Cut where "CutUncut = 1024"
definition CutUncensored :: Cut where "CutUncensored = 2048"
definition CutFanEdit :: Cut where "CutFanEdit = 4096"

lemmas cut_tokens = CutTheatrical_def CutExtended_def CutDirectors_def CutUltimate_def CutFinal_def
  CutAssembly_def CutRecut_def CutDespecialized_def CutSpecial_def CutUnrated_def CutUncut_def
  CutUncensored_def CutFanEdit_def

record Parsed =
  group :: string
  service :: string
  source :: Source
  cut :: Cut
  pack :: bool

definition MaxNameLen :: nat where "MaxNameLen = 512"

subsection \<open>The cut of an edition\<close>

definition cutWords :: "string \<Rightarrow> Cut" where
  "cutWords w =
     (if w = ''theatrical'' then CutTheatrical else if w = ''extended'' then CutExtended
      else if w = ''directors'' then CutDirectors else if w = ''ultimate'' then CutUltimate
      else if w = ''final'' then CutFinal else if w = ''assembly'' then CutAssembly
      else if w = ''recut'' then CutRecut else if w = ''despecialized'' then CutDespecialized
      else if w = ''special'' then CutSpecial else if w = ''unrated'' then CutUnrated
      else if w = ''uncut'' then CutUncut else if w = ''uncensored'' then CutUncensored
      else if w = ''fanedit'' then CutFanEdit else 0)"

text \<open>\<^verbatim>\<open>strings.FieldsFunc\<close>: the maximal runs of runes that are not separators.\<close>

function fieldsFrom :: "(rune \<Rightarrow> bool) \<Rightarrow> string \<Rightarrow> string \<Rightarrow> string list" where
  "fieldsFrom sep w s =
     (if s = [] then (if w = [] then [] else [w])
      else case DecodeRune s of (r, n) \<Rightarrow>
        if sep r then (if w = [] then [] else [w]) @ fieldsFrom sep [] (drop n s)
        else fieldsFrom sep (w @ take n s) (drop n s))"
  by pat_completeness auto
termination
  by (relation "measure (\<lambda>(sep, w, s). length s)") (auto dest: DecodeRune_width simp: prod_eq_iff)

declare fieldsFrom.simps [simp del]

fun cutOfWords :: "string list \<Rightarrow> Cut" where
  "cutOfWords [] = 0"
| "cutOfWords [w] = cutWords w"
| "cutOfWords (w # x # ws) =
     (if w = ''director'' \<and> x = ''s'' \<or> w = ''fan'' \<and> x = ''edit''
      then or (cutWords (w @ x)) (cutOfWords ws)
      else or (cutWords w) (cutOfWords (x # ws)))"

definition cutOf :: "(string \<Rightarrow> string) \<Rightarrow> (rune \<Rightarrow> bool) \<Rightarrow> string \<Rightarrow> Cut" where
  "cutOf lower isWord edition = cutOfWords (fieldsFrom (\<lambda>r. \<not> isWord r) [] (lower edition))"

text \<open>\<open>clamp\<close> of parse.go: at most \<^const>\<open>MaxNameLen\<close> bytes, ending before a rune's start.\<close>

fun clampEnd :: "string \<Rightarrow> nat \<Rightarrow> nat" where
  "clampEnd name 0 = 0"
| "clampEnd name (Suc e) = (if RuneStart (name ! Suc e) then Suc e else clampEnd name e)"

definition clamp :: "string \<Rightarrow> string" where
  "clamp name = (if length name \<le> MaxNameLen then name else take (clampEnd name MaxNameLen) name)"

end
