(* ===== verification/Texts.thy ===== *)
theory Texts
  imports MediaKey
begin

text \<open>
  The text codecs: internal/media/text.go (keys, kinds and schemes), internal/media/source.go
  (source ids), internal/timing/outcome.go and internal/rank/rank.go (the enum name tables). Each
  table is an interpretation of \<open>name_table\<close>, which makes reading and writing it inverse.
\<close>

subsection \<open>internal/media/text.go\<close>

definition kindNames :: "string list" where
  "kindNames = ['''', ''episode'', ''movie'']"

definition schemeNames :: "string list" where
  "schemeNames = [''none'', ''tvdb'', ''tmdb'', ''imdb'']"

definition mediaMarshalName :: "string list \<Rightarrow> nat \<Rightarrow> nat \<Rightarrow> string option" where
  "mediaMarshalName names v frst = (if v < frst \<or> length names \<le> v then None else Some (names ! v))"

function mediaUnmarshalFrom :: "string list \<Rightarrow> string \<Rightarrow> nat \<Rightarrow> nat option" where
  "mediaUnmarshalFrom names b i =
     (if i < length names then if b = names ! i then Some i else mediaUnmarshalFrom names b (i + 1) else None)"
  by pat_completeness auto
termination
  by (relation "measure (\<lambda>(names, b, i). length names - i)") auto

declare mediaUnmarshalFrom.simps [simp del]

definition KeyMarshalText :: "Key \<Rightarrow> string option" where
  "KeyMarshalText k = (if k = zeroKey then None else Some (Key_String k))"

definition KeyUnmarshalText :: "Key \<Rightarrow> string \<Rightarrow> Key \<times> bool" where
  "KeyUnmarshalText k b = (case ParseKey b of Some v \<Rightarrow> (v, True) | None \<Rightarrow> (k, False))"

definition RootKeyMarshalText :: "RootKey \<Rightarrow> string option" where
  "RootKeyMarshalText r = (if r = zeroRoot then None else Some (RootKey_String r))"

definition RootKeyUnmarshalText :: "RootKey \<Rightarrow> string \<Rightarrow> RootKey \<times> bool" where
  "RootKeyUnmarshalText r b = (case ParseRootKey b of Some v \<Rightarrow> (v, True) | None \<Rightarrow> (r, False))"

lemma mediaUnmarshalFrom_iff:
  "distinct names \<Longrightarrow> mediaUnmarshalFrom names b i = Some v \<longleftrightarrow> i \<le> v \<and> v < length names \<and> names ! v = b"
proof (induction names b i rule: mediaUnmarshalFrom.induct)
  case (1 names b i)
  consider "\<not> i < length names" | "i < length names" "b = names ! i" | "i < length names" "b \<noteq> names ! i"
    by blast
  then show ?case
  proof cases
    case 1
    then show ?thesis by (subst mediaUnmarshalFrom.simps) auto
  next
    case 2
    then have "mediaUnmarshalFrom names b i = Some i" by (subst mediaUnmarshalFrom.simps) simp
    then show ?thesis using 2 nth_eq_iff_index_eq [OF "1.prems", of v i] by auto
  next
    case 3
    then have "mediaUnmarshalFrom names b i = mediaUnmarshalFrom names b (Suc i)"
      by (subst mediaUnmarshalFrom.simps) simp
    then show ?thesis using "1.IH" [OF 3 "1.prems"] 3 by (auto simp: Suc_le_eq le_less)
  qed
qed

lemma media_names_iff:
  "distinct names \<Longrightarrow>
   mediaMarshalName names v frst = Some t \<longleftrightarrow> mediaUnmarshalFrom names t frst = Some v"
  by (auto simp: mediaUnmarshalFrom_iff mediaMarshalName_def)

subsection \<open>internal/media/source.go\<close>

definition maxSourceID :: nat where "maxSourceID = 32"

definition sourceChar :: "char \<Rightarrow> bool" where
  "sourceChar c \<longleftrightarrow> (CHR ''a'' \<le> c \<and> c \<le> CHR ''z'') \<or> (CHR ''0'' \<le> c \<and> c \<le> CHR ''9'') \<or> c = CHR ''-''"

definition validSourceID :: "string \<Rightarrow> bool" where
  "validSourceID s \<longleftrightarrow> \<not> (s = [] \<or> maxSourceID < length s) \<and> list_all sourceChar s"

definition SourceIDMarshalText :: "string \<Rightarrow> string option" where
  "SourceIDMarshalText s = (if validSourceID s then Some s else None)"

definition SourceIDUnmarshalText :: "string \<Rightarrow> string \<Rightarrow> string \<times> bool" where
  "SourceIDUnmarshalText s b = (if validSourceID b then (b, True) else (s, False))"

subsection \<open>internal/timing/outcome.go\<close>

definition actionNames :: "string list" where
  "actionNames = ['''', ''skip'', ''reference'', ''reference_then_audio'', ''rigid_reference'']"
definition skipReasonNames :: "string list" where
  "skipReasonNames = [''none'', ''hash'', ''same_release'', ''forced'', ''disabled'']"
definition methodNames :: "string list" where
  "methodNames = [''none'', ''reference'', ''audio'']"
definition verdictNames :: "string list" where
  "verdictNames = ['''', ''trusted'', ''verified'', ''unverified'']"
definition formatNames :: "string list" where
  "formatNames = ['''', ''srt'', ''ass'', ''ssa'']"

lemmas timing_names = actionNames_def skipReasonNames_def methodNames_def verdictNames_def formatNames_def

interpretation action_text: name_table actionNames by unfold_locales (simp add: timing_names)
interpretation skip_text: name_table skipReasonNames by unfold_locales (simp add: timing_names)
interpretation method_text: name_table methodNames by unfold_locales (simp add: timing_names)
interpretation verdict_text: name_table verdictNames by unfold_locales (simp add: timing_names)
interpretation format_text: name_table formatNames by unfold_locales (simp add: timing_names)

subsection \<open>internal/rank/rank.go\<close>

definition triNames :: "string list" where "triNames = [''unknown'', ''same'', ''differs'']"
definition matchNames :: "string list" where "matchNames = ['''', ''title'', ''id'', ''hash'']"
definition fitNames :: "string list" where
  "fitNames = ['''', ''conflict'', ''other'', ''same_source'', ''same_release'', ''exact'']"

lemmas rank_names = triNames_def matchNames_def fitNames_def

interpretation tri_text: name_table triNames by unfold_locales (simp add: rank_names)
interpretation match_text: name_table matchNames by unfold_locales (simp add: rank_names)
interpretation fit_text: name_table fitNames by unfold_locales (simp add: rank_names)

subsection \<open>Properties\<close>

text \<open>C27. The media codecs: a kind's or scheme's text reads back as it and nothing else reads, the zero
  kind has no text; a key's or a root key's text is written exactly when it is not the zero one, and reading a text
  either returns the valid one whose text it is or leaves the value it was read into unchanged.\<close>

theorem media_texts:
  "(mediaMarshalName kindNames k 1 = Some t \<longleftrightarrow> mediaUnmarshalFrom kindNames t 1 = Some k)
   \<and> (mediaMarshalName schemeNames s 0 = Some t \<longleftrightarrow> mediaUnmarshalFrom schemeNames t 0 = Some s)
   \<and> mediaMarshalName kindNames 0 1 = None
   \<and> (KeyMarshalText key = None \<longleftrightarrow> key = zeroKey)
   \<and> (KeyUnmarshalText old t = (new, True) \<longleftrightarrow> validKey new \<and> t = Key_String new \<and> KeyMarshalText new = Some t)
   \<and> (KeyUnmarshalText old t = (new, False) \<longleftrightarrow> new = old \<and> ParseKey t = None)
   \<and> (RootKeyMarshalText r = None \<longleftrightarrow> r = zeroRoot)
   \<and> (RootKeyUnmarshalText oldR t = (newR, True) \<longleftrightarrow> validRoot newR \<and> RootKeyMarshalText newR = Some t)
   \<and> (RootKeyUnmarshalText oldR t = (newR, False) \<longleftrightarrow> newR = oldR \<and> ParseRootKey t = None)
   \<and> (SourceIDUnmarshalText oldId t = (newId, True) \<longleftrightarrow> newId = t \<and> SourceIDMarshalText newId = Some t)
   \<and> (SourceIDUnmarshalText oldId t = (newId, False) \<longleftrightarrow> newId = oldId \<and> SourceIDMarshalText t = None)"
proof -
  have nz: "KeyMarshalText v = Some (Key_String v)" if "validKey v" for v
    using that by (auto simp: KeyMarshalText_def validKey_def validRoot_def zeroKey_def zeroRoot_def keyPrefixes_def)
  have rz: "RootKeyMarshalText v = Some (RootKey_String v)" if "validRoot v" for v
    using that by (auto simp: RootKeyMarshalText_def validRoot_def zeroRoot_def keyPrefixes_def)
  have keyText: "KeyUnmarshalText old t = (new, True) \<longleftrightarrow> validKey new \<and> t = Key_String new \<and> KeyMarshalText new = Some t"
    using ParseKey_Key_String ParseKey_sound nz by (auto simp: KeyUnmarshalText_def split: option.splits)
  have rootText: "RootKeyUnmarshalText oldR t = (newR, True) \<longleftrightarrow> validRoot newR \<and> RootKeyMarshalText newR = Some t"
    using ParseRootKey_iff [of t newR] rz by (auto simp: RootKeyUnmarshalText_def split: option.splits)
  have "distinct kindNames" "distinct schemeNames" by (simp_all add: kindNames_def schemeNames_def)
  then have "mediaMarshalName kindNames k 1 = Some t \<longleftrightarrow> mediaUnmarshalFrom kindNames t 1 = Some k"
    "mediaMarshalName schemeNames s 0 = Some t \<longleftrightarrow> mediaUnmarshalFrom schemeNames t 0 = Some s"
    by (simp_all add: media_names_iff)
  moreover have "mediaMarshalName kindNames 0 1 = None" by (simp add: mediaMarshalName_def)
  moreover have "KeyMarshalText key = None \<longleftrightarrow> key = zeroKey" by (simp add: KeyMarshalText_def)
  moreover have "RootKeyMarshalText r = None \<longleftrightarrow> r = zeroRoot" by (simp add: RootKeyMarshalText_def)
  moreover have "RootKeyUnmarshalText oldR t = (newR, False) \<longleftrightarrow> newR = oldR \<and> ParseRootKey t = None"
    by (auto simp: RootKeyUnmarshalText_def split: option.splits)
  moreover have "KeyUnmarshalText old t = (new, False) \<longleftrightarrow> new = old \<and> ParseKey t = None"
    by (auto simp: KeyUnmarshalText_def split: option.splits)
  moreover have "SourceIDUnmarshalText oldId t = (newId, True) \<longleftrightarrow> newId = t \<and> SourceIDMarshalText newId = Some t"
    by (auto simp: SourceIDUnmarshalText_def SourceIDMarshalText_def)
  moreover have "SourceIDUnmarshalText oldId t = (newId, False) \<longleftrightarrow> newId = oldId \<and> SourceIDMarshalText t = None"
    by (auto simp: SourceIDUnmarshalText_def SourceIDMarshalText_def)
  ultimately show ?thesis using keyText rootText by blast
qed

text \<open>The text of every timing and rank enum reads back as the value it was written for, and no other
  text reads: for each name table, a value has the text exactly when the text reads as the value.\<close>

theorem enum_texts:
  "list_all (\<lambda>names. \<forall>v t. marshalName names v = Some t \<longleftrightarrow> unmarshalName names t = Some v)
     [actionNames, skipReasonNames, methodNames, verdictNames, formatNames, triNames, matchNames, fitNames]"
  by (simp add: action_text.unmarshal_iff skip_text.unmarshal_iff method_text.unmarshal_iff
      verdict_text.unmarshal_iff format_text.unmarshal_iff tri_text.unmarshal_iff
      match_text.unmarshal_iff fit_text.unmarshal_iff)

end
