(* ===== verification/Rank.thy ===== *)
theory Rank
  imports Release F64 Texts
begin

text \<open>
  internal/rank: how one subtitle's release compares with the video's (\<open>Compare\<close>), what grade the
  facts give (\<open>FitOf\<close>), the cut comparison (cut.go) and the frame-rate families (rate.go).
  \<^verbatim>\<open>strings.EqualFold\<close> is the parameter \<open>equalFold\<close>.
\<close>

datatype Tri = Unknown | Same | Differs
datatype MatchedBy = NoMatch | Title | ID | Hash

record Facts =
  fHash :: bool
  fSource :: Tri
  fGroup :: Tri
  fService :: Tri
  fCut :: Tri
  fRate :: Tri
  fPreRelease :: bool
  fSeasonPack :: bool
  fEpisodeByNumber :: bool

datatype Fit = NoFit | Conflict | Other | SameSource | SameRelease | Exact

definition same :: "bool \<Rightarrow> Tri" where
  "same ok = (if ok then Same else Differs)"

subsection \<open>rate.go\<close>

datatype RateFamily = RateUnknown | PAL | Film

text \<open>The float constants: each rate and the tolerance 0.0011, as their nearest floats.\<close>

definition RateTolerance :: f64 where "RateTolerance = 0x3F5205BC01A36E2F"

definition familyRates :: "(f64 \<times> RateFamily) list" where
  "familyRates =
     [(0x4039000000000000, PAL), (0x4049000000000000, PAL), (0x4037F9DB22D0E560, Film),
      (0x4038000000000000, Film), (0x403DF851EB851EB8, Film), (0x403E000000000000, Film),
      (0x4047F9999999999A, Film), (0x4048000000000000, Film), (0x404DF851EB851EB8, Film),
      (0x404E000000000000, Film)]"

definition inRate :: "f64 \<Rightarrow> f64 \<Rightarrow> bool" where
  "inRate fps r \<longleftrightarrow> \<not> f64_isNaN fps \<and> \<bar>rnd (f64_val fps - f64_val r)\<bar> \<le> rnd (f64_val r * f64_val RateTolerance)"

fun rateIn :: "(f64 \<times> RateFamily) list \<Rightarrow> f64 \<Rightarrow> RateFamily" where
  "rateIn [] fps = RateUnknown"
| "rateIn ((r, fam) # rs) fps = (if inRate fps r then fam else rateIn rs fps)"

definition RateFamilyOf :: "f64 \<Rightarrow> RateFamily" where
  "RateFamilyOf fps = rateIn familyRates fps"

subsection \<open>cut.go\<close>

unbundle bit_operations_syntax

definition primaryCuts :: Cut where
  "primaryCuts = CutTheatrical OR CutExtended OR CutDirectors OR CutUltimate OR CutFinal OR CutAssembly
     OR CutRecut OR CutDespecialized OR CutSpecial OR CutFanEdit"

definition qualifierCuts :: Cut where
  "qualifierCuts = CutUnrated OR CutUncut OR CutUncensored"

definition cutFact :: "Cut \<Rightarrow> Cut \<Rightarrow> Tri" where
  "cutFact a b =
     (let pa = a AND primaryCuts; pb = b AND primaryCuts
      in if a = 0 \<or> b = 0 then Unknown
         else if pa \<noteq> 0 \<and> pb \<noteq> 0 then same (pa AND pb \<noteq> 0)
         else if pa \<noteq> 0 \<or> pb \<noteq> 0 then Differs
         else same (a AND b AND qualifierCuts \<noteq> 0))"

subsection \<open>rank.go\<close>

definition sourceFact :: "Family \<Rightarrow> Family \<Rightarrow> Tri" where
  "sourceFact a b =
     (if a = FamilyUnknown \<or> b = FamilyUnknown then Unknown
      else if a = PreRelease \<and> b = PreRelease then Unknown
      else same (a = b))"

definition textFact :: "(string \<Rightarrow> string \<Rightarrow> bool) \<Rightarrow> string \<Rightarrow> string \<Rightarrow> Tri" where
  "textFact equalFold a b = (if a = [] \<or> b = [] then Unknown else same (equalFold a b))"

definition rateFact :: "RateFamily \<Rightarrow> RateFamily \<Rightarrow> Tri" where
  "rateFact a b = (if a = RateUnknown \<or> b = RateUnknown then Unknown else same (a = b))"

definition Compare ::
  "(string \<Rightarrow> string \<Rightarrow> bool) \<Rightarrow> Parsed \<Rightarrow> f64 \<Rightarrow> Parsed \<Rightarrow> f64 \<Rightarrow> MatchedBy \<Rightarrow> bool \<Rightarrow> Facts" where
  "Compare equalFold video videoFPS sub subFPS m identityOK =
     (let vf = Family_of (source video); sf = Family_of (source sub);
          f = \<lparr>fHash = False, fSource = sourceFact vf sf, fGroup = textFact equalFold (group video) (group sub),
               fService = Unknown, fCut = cutFact (cut video) (cut sub),
               fRate = rateFact (RateFamilyOf videoFPS) (RateFamilyOf subFPS),
               fPreRelease = ((vf = PreRelease) \<noteq> (sf = PreRelease)), fSeasonPack = pack sub,
               fEpisodeByNumber = False\<rparr>;
          f = (if vf = Web \<and> sf = Web
               then f\<lparr>fService := textFact equalFold (service video) (service sub)\<rparr> else f)
      in f\<lparr>fHash := m = Hash \<and> identityOK \<and> fSource f \<noteq> Differs \<and> fCut f \<noteq> Differs\<rparr>)"

definition FitOf :: "Facts \<Rightarrow> Fit" where
  "FitOf f =
     (if fHash f then Exact
      else if fCut f = Differs \<or> fPreRelease f then Conflict
      else if fGroup f = Same \<and> fSource f \<noteq> Differs \<and> fService f \<noteq> Differs \<and> fRate f \<noteq> Differs
      then SameRelease
      else if fSource f = Same \<and> fRate f \<noteq> Differs then SameSource
      else Other)"

subsection \<open>Facts\<close>

lemma cutFact_sym: "cutFact a b = cutFact b a"
  by (simp add: cutFact_def Let_def and.commute and.left_commute and.assoc disj_commute conj_commute)

lemma textFact_sym: "(\<And>x y. eqf x y = eqf y x) \<Longrightarrow> textFact eqf a b = textFact eqf b a"
  by (auto simp: textFact_def)

lemma rateFact_sym: "rateFact a b = rateFact b a"
  by (simp add: rateFact_def eq_commute [of a] disj_commute)

lemma sourceFact_sym: "sourceFact a b = sourceFact b a"
  by (cases "a = b") (simp_all add: sourceFact_def disj_commute conj_commute)

subsection \<open>Rate families\<close>

text \<open>The bands around the rates are disjoint: each float lies within the tolerance of the rates of one
  family at most, so the table's order does not matter.\<close>

lemma band_arith:
  fixes R T X P Q :: rat
  assumes "R \<le> T" "T \<le> P + P / 2 ^ 53" "X - X / 2 ^ 53 \<le> R" "P \<le> Q * (11001 / 10000000)" "0 < Q"
  shows "X \<le> Q * (12 / 10000)"
  using assms by simp

lemma inRate_band:
  assumes "inRate fps r" and r: "f64_val r = q" "0 < q"
  shows "\<bar>f64_val fps - q\<bar> \<le> q * (12 / 10000)"
proof -
  let ?x = "f64_val fps - q"
  have t: "f64_val RateTolerance \<le> 11001 / 10000000" "0 \<le> f64_val RateTolerance"
    by (simp_all add: RateTolerance_def f64_val_def f64_neg_def f64_exp_def f64_man_def power_int_def power_divide)
  have p: "0 \<le> q * f64_val RateTolerance" "q * f64_val RateTolerance \<le> q * (11001 / 10000000)"
    using t r by (simp_all add: mult_left_mono)
  have 1: "\<bar>rnd ?x\<bar> \<le> rnd (q * f64_val RateTolerance)" using assms by (simp add: inRate_def)
  have 2: "\<bar>rnd ?x - ?x\<bar> \<le> \<bar>?x\<bar> / 2 ^ 53" by (rule rnd_rel_error)
  have 3: "\<bar>rnd (q * f64_val RateTolerance) - q * f64_val RateTolerance\<bar> \<le> \<bar>q * f64_val RateTolerance\<bar> / 2 ^ 53"
    by (rule rnd_rel_error)
  have 4: "rnd (q * f64_val RateTolerance) \<le> q * f64_val RateTolerance + q * f64_val RateTolerance / 2 ^ 53"
    using 3 p(1) by (simp only: abs_of_nonneg abs_le_iff) linarith
  have 5: "\<bar>?x\<bar> - \<bar>?x\<bar> / 2 ^ 53 \<le> \<bar>rnd ?x\<bar>" using 2 by linarith
  show ?thesis by (rule band_arith [OF 1 4 5 p(2) r(2)])
qed

lemma rates_val:
  "f64_val 0x4039000000000000 = 25" "f64_val 0x4049000000000000 = 50"
  "f64_val 0x4038000000000000 = 24" "f64_val 0x403E000000000000 = 30"
  "f64_val 0x4048000000000000 = 48" "f64_val 0x404E000000000000 = 60"
  "f64_val 0x4037F9DB22D0E560 = 6748644041614688 / 2 ^ 48"
  "f64_val 0x403DF851EB851EB8 = 8435805052018360 / 2 ^ 48"
  "f64_val 0x4047F9999999999A = 6748362566637978 / 2 ^ 47"
  "f64_val 0x404DF851EB851EB8 = 8435805052018360 / 2 ^ 47"
  by (simp_all add: f64_val_def f64_neg_def f64_exp_def f64_man_def power_int_def power_divide)

lemma inRate_range:
  assumes "inRate fps r" and "f64_val r = q" and "0 < q"
  shows "q * (9988 / 10000) \<le> f64_val fps \<and> f64_val fps \<le> q * (10012 / 10000)"
  using inRate_band [OF assms] by (simp only: abs_le_iff) linarith

lemma bands:
  "inRate fps 0x4039000000000000 \<Longrightarrow> 24.9 < f64_val fps \<and> f64_val fps < 26"
  "inRate fps 0x4049000000000000 \<Longrightarrow> 49.5 < f64_val fps \<and> f64_val fps < 51"
  "inRate fps 0x4037F9DB22D0E560 \<Longrightarrow> 23 < f64_val fps \<and> f64_val fps < 24.5"
  "inRate fps 0x4038000000000000 \<Longrightarrow> 23 < f64_val fps \<and> f64_val fps < 24.5"
  "inRate fps 0x403DF851EB851EB8 \<Longrightarrow> 29 < f64_val fps \<and> f64_val fps < 31"
  "inRate fps 0x403E000000000000 \<Longrightarrow> 29 < f64_val fps \<and> f64_val fps < 31"
  "inRate fps 0x4047F9999999999A \<Longrightarrow> 47 < f64_val fps \<and> f64_val fps < 49"
  "inRate fps 0x4048000000000000 \<Longrightarrow> 47 < f64_val fps \<and> f64_val fps < 49"
  "inRate fps 0x404DF851EB851EB8 \<Longrightarrow> 59 < f64_val fps \<and> f64_val fps < 61"
  "inRate fps 0x404E000000000000 \<Longrightarrow> 59 < f64_val fps \<and> f64_val fps < 61"
  by (drule inRate_range, rule rates_val, simp, simp, linarith?)+

text \<open>The families as sets of rates, in any order.\<close>

definition ratesOf :: "RateFamily \<Rightarrow> f64 list" where
  "ratesOf fam = map fst (filter (\<lambda>(_, g). g = fam) familyRates)"

lemma RateFamilyOf_sets:
  "RateFamilyOf fps = PAL \<longleftrightarrow> list_ex (inRate fps) (ratesOf PAL)"
  "RateFamilyOf fps = Film \<longleftrightarrow> list_ex (inRate fps) (ratesOf Film)"
proof -
  have "\<not> (list_ex (inRate fps) (ratesOf PAL) \<and> list_ex (inRate fps) (ratesOf Film))"
    by (auto simp: ratesOf_def familyRates_def dest!: bands)
  then show "RateFamilyOf fps = PAL \<longleftrightarrow> list_ex (inRate fps) (ratesOf PAL)"
    "RateFamilyOf fps = Film \<longleftrightarrow> list_ex (inRate fps) (ratesOf Film)"
    by (auto simp: RateFamilyOf_def ratesOf_def familyRates_def)
qed

subsection \<open>Properties\<close>

text \<open>The rate families are well defined: a frame rate is PAL exactly when it is within the relative
  tolerance of 25 or 50, and Film exactly when it is within it of one of the eight film rates, in
  the float arithmetic the code uses; no rate is near both, so the table's order never decides.\<close>

theorem RateFamilyOf_spec:
  "(RateFamilyOf fps = PAL \<longleftrightarrow> list_ex (inRate fps) (ratesOf PAL))
   \<and> (RateFamilyOf fps = Film \<longleftrightarrow> list_ex (inRate fps) (ratesOf Film))
   \<and> \<not> (list_ex (inRate fps) (ratesOf PAL) \<and> list_ex (inRate fps) (ratesOf Film))"
  using RateFamilyOf_sets [of fps] by (metis RateFamily.distinct(5))

text \<open>C28. Comparing is symmetric in the two releases: swapping video and subtitle changes no fact but
  the season pack, which is the subtitle's own, whatever the text comparison, as long as that is
  symmetric; the grade is then the same too.\<close>

theorem Compare_sym:
  assumes "\<And>x y. eqf x y = eqf y x"
  shows "Compare eqf sub sfps video vfps m ok = (Compare eqf video vfps sub sfps m ok)\<lparr>fSeasonPack := pack video\<rparr>
    \<and> FitOf (Compare eqf sub sfps video vfps m ok) = FitOf (Compare eqf video vfps sub sfps m ok)"
proof -
  have "sourceFact (Family_of (source sub)) (Family_of (source video))
      = sourceFact (Family_of (source video)) (Family_of (source sub))" by (rule sourceFact_sym)
  moreover have "cutFact (cut sub) (cut video) = cutFact (cut video) (cut sub)" by (rule cutFact_sym)
  moreover have "rateFact (RateFamilyOf sfps) (RateFamilyOf vfps) = rateFact (RateFamilyOf vfps) (RateFamilyOf sfps)"
    by (rule rateFact_sym)
  moreover have "textFact eqf (group sub) (group video) = textFact eqf (group video) (group sub)"
    "textFact eqf (service sub) (service video) = textFact eqf (service video) (service sub)"
    by (rule textFact_sym [OF assms])+
  ultimately have "Compare eqf sub sfps video vfps m ok = (Compare eqf video vfps sub sfps m ok)\<lparr>fSeasonPack := pack video\<rparr>"
    by (simp add: Compare_def Let_def) blast
  moreover have "FitOf (f\<lparr>fSeasonPack := x\<rparr>) = FitOf f" for f x
    by (cases f) (simp only: FitOf_def Facts.select_convs Facts.update_convs)
  ultimately show ?thesis by simp
qed

theorem Compare_sym_witness:
  "FitOf (Compare (=) \<lparr>group = ''A'', service = [], source = BluRay, cut = 1, pack = False\<rparr> 0
      \<lparr>group = ''A'', service = [], source = WebDL, cut = 2, pack = True\<rparr> 0 Hash True)
   = FitOf (Compare (=) \<lparr>group = ''A'', service = [], source = WebDL, cut = 2, pack = True\<rparr> 0
      \<lparr>group = ''A'', service = [], source = BluRay, cut = 1, pack = False\<rparr> 0 Hash True)"
  by (rule Compare_sym [THEN conjunct2]) (rule eq_commute)

text \<open>Only a hash is Exact, and a hash never overrides a contradiction: a comparison grades Exact
  exactly when the provider matched by hash, the identity was confirmed and neither the source
  nor the cut differs; two different primary cuts are always a Conflict, a shared qualifier or not.\<close>

theorem FitOf_Compare:
  "(FitOf (Compare eqf video vfps sub sfps m ok) = Exact \<longleftrightarrow>
     m = Hash \<and> ok \<and> sourceFact (Family_of (source video)) (Family_of (source sub)) \<noteq> Differs
     \<and> cutFact (cut video) (cut sub) \<noteq> Differs)
   \<and> (FitOf (Compare eqf video vfps sub sfps m ok) = Conflict \<longleftrightarrow>
     cutFact (cut video) (cut sub) = Differs
     \<or> (Family_of (source video) = PreRelease) \<noteq> (Family_of (source sub) = PreRelease)
        \<and> \<not> (m = Hash \<and> ok \<and> sourceFact (Family_of (source video)) (Family_of (source sub)) \<noteq> Differs))"
  by (auto simp: Compare_def FitOf_def Let_def)

end
