(* ===== verification/StripHI.thy ===== *)
theory StripHI
  imports Utf8
begin

text \<open>
  internal/timing/striphi.go: the one-pass scan that removes hearing-impaired annotations, tags
  and blanks from one line. \<open>lineScan\<close> is the scan's state with its byte offsets; \<open>feed\<close> takes one
  rune, \<open>finish\<close> ends the line, \<open>applyRules\<close> runs a text's lines. The file's claims are proved:
  the scan is linear (\<open>work\<close> is the code's own counter), its output holds no match of any rule, and
  applying the rules again changes nothing.
\<close>

record mark =
  mout :: nat
  msrc :: nat

record opener =
  oat :: mark
  otrim :: mark
  ohasTrim :: bool

record kept =
  koutFrom :: nat
  kfrom :: nat
  kto :: nat

record textRules =
  hi :: bool
  tags :: bool
  blanks :: bool

record lineScan =
  sout :: string
  runs :: "kept list"
  brackets :: "opener list"
  parens :: "opener list"
  noteOps :: "opener list"
  lts :: "opener list"
  trim :: mark
  deadAt :: "nat option"
  work :: nat
  rules :: textRules
  hasTrim :: bool
  afterLabel :: bool

definition zeroMark :: mark where "zeroMark = \<lparr>mout = 0, msrc = 0\<rparr>"

definition reset :: "textRules \<Rightarrow> lineScan" where
  "reset rs = \<lparr>sout = [], runs = [], brackets = [], parens = [], noteOps = [], lts = [], trim = zeroMark,
     deadAt = None, work = 0, rules = rs, hasTrim = False, afterLabel = False\<rparr>"

text \<open>\<^verbatim>\<open>unicode.IsSpace\<close>.\<close>

definition isSpace :: "rune \<Rightarrow> bool" where
  "isSpace r \<longleftrightarrow> (9 \<le> r \<and> r \<le> 13) \<or> r = 32 \<or> r = 0x85 \<or> r = 0xA0 \<or> r = 0x1680
     \<or> (0x2000 \<le> r \<and> r \<le> 0x200A) \<or> r = 0x2028 \<or> r = 0x2029 \<or> r = 0x202F \<or> r = 0x205F \<or> r = 0x3000"

definition isNote :: "rune \<Rightarrow> bool" where
  "isNote r \<longleftrightarrow> r = 0x266A \<or> r = 0x266B"

definition labelRune :: "rune \<Rightarrow> bool \<Rightarrow> bool" where
  "labelRune r frst \<longleftrightarrow>
     (if 65 \<le> r \<and> r \<le> 90 then True
      else \<not> frst \<and> ((48 \<le> r \<and> r \<le> 57) \<or> r = 46 \<or> r = 39 \<or> r = 45 \<or> isSpace r))"

text \<open>\<^verbatim>\<open>strings.ToLower\<close> up to comparison with ASCII words: U+0130 and the Kelvin sign lower to i and k.\<close>

definition lowerRune :: "rune \<Rightarrow> rune" where
  "lowerRune r = (if 65 \<le> r \<and> r \<le> 90 then r + 32 else if r = 0x130 then 105 else if r = 0x212A then 107 else r)"

definition trimSlash :: "string \<Rightarrow> string" where
  "trimSlash inner = (case cut_prefix ''/'' inner of Some r \<Rightarrow> r | None \<Rightarrow> inner)"

definition asciiWord :: "string \<Rightarrow> rune list" where
  "asciiWord w = map bv w"

definition formatTag :: "string \<Rightarrow> bool" where
  "formatTag inner \<longleftrightarrow>
     (let name = take 5 (trimSlash inner);
          word = takeWhile (\<lambda>c. c \<noteq> CHR '' '' \<and> c \<noteq> CHR 0x09) name
      in map lowerRune (runes word) \<in> set (map asciiWord [''i'', ''b'', ''u'', ''s'', ''font'']))"

subsection \<open>The scan\<close>

fun popFromRev :: "opener list \<Rightarrow> nat \<Rightarrow> opener list" where
  "popFromRev [] p = []"
| "popFromRev (op # st) p = (if p \<le> mout (oat op) then popFromRev st p else op # st)"

definition popFrom :: "opener list \<Rightarrow> nat \<Rightarrow> opener list" where
  "popFrom st p = rev (popFromRev (rev st) p)"

fun popRunsRev :: "kept list \<Rightarrow> nat \<Rightarrow> kept list" where
  "popRunsRev [] p = []"
| "popRunsRev (k # ks) p = (if p \<le> koutFrom k then popRunsRev ks p else k # ks)"

definition clipLast :: "nat \<Rightarrow> kept list \<Rightarrow> kept list" where
  "clipLast src ks = (if ks = [] then [] else butlast ks @ [(last ks)\<lparr>kto := min (kto (last ks)) src\<rparr>])"

definition truncate :: "opener \<Rightarrow> lineScan \<Rightarrow> lineScan" where
  "truncate to s =
     (let p = mout (oat to)
      in s\<lparr>work := work s + (length (sout s) - p),
           sout := take p (sout s),
           runs := clipLast (msrc (oat to)) (rev (popRunsRev (rev (runs s)) p)),
           brackets := popFrom (brackets s) p, parens := popFrom (parens s) p,
           noteOps := popFrom (noteOps s) p, lts := popFrom (lts s) p,
           deadAt := (case deadAt s of None \<Rightarrow> None | Some d \<Rightarrow> if p \<le> d then None else Some d),
           trim := otrim to, hasTrim := ohasTrim to\<rparr>)"

definition push :: "rune \<Rightarrow> opener \<Rightarrow> lineScan \<Rightarrow> lineScan" where
  "push r op s =
     (if hi (rules s) \<and> r = 91 then s\<lparr>brackets := brackets s @ [op]\<rparr>
      else if hi (rules s) \<and> r = 40 then s\<lparr>parens := parens s @ [op]\<rparr>
      else if hi (rules s) \<and> isNote r then s\<lparr>noteOps := noteOps s @ [op]\<rparr>
      else if tags (rules s) \<and> r = 60 then s\<lparr>lts := lts s @ [op]\<rparr>
      else s)"

definition closes :: "lineScan \<Rightarrow> rune \<Rightarrow> opener list" where
  "closes s r =
     (if \<not> hi (rules s) then []
      else if r = 93 then brackets s
      else if r = 41 then parens s
      else if isNote r then noteOps s
      else [])"

text \<open>\<open>tagInner\<close> is the text \<open>tagOpen\<close> re-reads: at most 6 bytes after the latest '<'.\<close>

definition tagInner :: "lineScan \<Rightarrow> string" where
  "tagInner s = take 6 (drop (mout (oat (last (lts s))) + 1) (sout s))"

definition tagOpen :: "lineScan \<Rightarrow> lineScan \<times> bool" where
  "tagOpen s =
     (if lts s = [] then (s, False)
      else (s\<lparr>work := work s + length (tagInner s)\<rparr>, formatTag (tagInner s)))"

definition zeroOpener :: opener where
  "zeroOpener = \<lparr>oat = zeroMark, otrim = zeroMark, ohasTrim = False\<rparr>"

definition closeMatch :: "lineScan \<Rightarrow> rune \<Rightarrow> lineScan \<times> bool" where
  "closeMatch s r =
     (let st = closes s r
      in if st \<noteq> [] then (truncate (hd st) s, True)
         else
           (case (if tags (rules s) \<and> r = 62 then tagOpen s else (s, False)) of
              (s', True) \<Rightarrow> (truncate (last (lts s')) s', True)
            | (s', False) \<Rightarrow>
                if hi (rules s') \<and> r = 58 \<and> deadAt s' = None \<and> 2 \<le> length (sout s')
                then ((truncate zeroOpener s')\<lparr>afterLabel := True\<rparr>, True)
                else (s', False)))"

definition addRun :: "kept list \<Rightarrow> nat \<Rightarrow> nat \<Rightarrow> nat \<Rightarrow> kept list" where
  "addRun ks out src n =
     (if ks \<noteq> [] \<and> kto (last ks) = src then butlast ks @ [(last ks)\<lparr>kto := kto (last ks) + n\<rparr>]
      else ks @ [\<lparr>koutFrom = out, kfrom = src, kto = src + n\<rparr>])"

text \<open>The part of \<open>feed\<close> that keeps the rune.\<close>

definition keepRune :: "lineScan \<Rightarrow> rune \<Rightarrow> nat \<Rightarrow> nat \<Rightarrow> lineScan" where
  "keepRune s r src n =
     (let here = \<lparr>mout = length (sout s), msrc = src\<rparr>;
          s1 = push r \<lparr>oat = here, otrim = trim s, ohasTrim = hasTrim s\<rparr> s;
          s2 = (if deadAt s1 = None \<and> \<not> labelRune r (length (sout s1) = 0)
                then s1\<lparr>deadAt := Some (length (sout s1))\<rparr> else s1);
          s3 = (if \<not> isSpace r then s2\<lparr>hasTrim := False\<rparr>
                else if \<not> hasTrim s2 then s2\<lparr>trim := here, hasTrim := True\<rparr> else s2)
      in s3\<lparr>runs := addRun (runs s3) (length (sout s3)) src n, sout := sout s3 @ EncodeRune r\<rparr>)"

definition feed :: "lineScan \<Rightarrow> rune \<Rightarrow> nat \<Rightarrow> nat \<Rightarrow> lineScan" where
  "feed s r src n =
     (let s1 = s\<lparr>work := work s + n\<rparr>; blank = isSpace r
      in if blank \<and> length (sout s1) = 0 \<and> (blanks (rules s1) \<or> afterLabel s1) then s1
         else
           (case closeMatch (if blank then s1 else s1\<lparr>afterLabel := False\<rparr>) r of
              (s2, True) \<Rightarrow> s2
            | (s2, False) \<Rightarrow> keepRune s2 r src n))"

definition trimFunc :: "(rune \<Rightarrow> bool) \<Rightarrow> rune list \<Rightarrow> rune list" where
  "trimFunc f rs = rev (dropWhile f (rev (dropWhile f rs)))"

definition musicOnly :: "string \<Rightarrow> bool" where
  "musicOnly line \<longleftrightarrow>
     list_ex isNote (runes line) \<and> trimFunc (\<lambda>r. isNote r \<or> isSpace r) (runes line) = []"

definition finish :: "lineScan \<Rightarrow> lineScan \<times> bool \<times> bool" where
  "finish s =
     (let s1 = (if blanks (rules s) \<and> hasTrim s
                then truncate \<lparr>oat = trim s, otrim = zeroMark, ohasTrim = False\<rparr> s else s);
          line = sout s1;
          s2 = s1\<lparr>work := work s1 + length line\<rparr>
      in if blanks (rules s2) \<and> (line = [] \<or> line = ''-'') \<or> hi (rules s2) \<and> musicOnly line
         then (s2, False, False)
         else (s2, True, trimFunc isSpace (runes line) \<noteq> []))"

subsection \<open>Lines of a text\<close>

function feedFrom :: "lineScan \<Rightarrow> string \<Rightarrow> nat \<Rightarrow> lineScan" where
  "feedFrom s line i =
     (if i < length line
      then case DecodeRune (drop i line) of (r, w) \<Rightarrow>
             feedFrom (feed s r i (length (EncodeRune r))) line (i + w)
      else s)"
  by pat_completeness auto
termination
proof (relation "measure (\<lambda>(s, line, i). length line - i)", goal_cases)
  case (2 s line i r w)
  then have "0 < snd (DecodeRune (drop i line))" using DecodeRune_width [of "drop i line"] by simp
  then show ?case using 2 by (auto simp: prod_eq_iff)
qed simp

declare feedFrom.simps [simp del]

definition sliceRun :: "string \<Rightarrow> kept \<Rightarrow> string" where
  "sliceRun line k = take (kto k - kfrom k) (drop (kfrom k) line)"

fun applyLines :: "textRules \<Rightarrow> string list \<Rightarrow> nat \<Rightarrow> string" where
  "applyLines rs [] n = []"
| "applyLines rs (line # ls) n =
     (case finish (feedFrom (reset rs) line 0) of
        (s, ok, _) \<Rightarrow>
          if \<not> ok then applyLines rs ls n
          else (if 0 < n then [CHR 0x0A] else []) @ concat (map (sliceRun line) (runs s)) @ applyLines rs ls (n + 1))"

definition applyRules :: "string \<Rightarrow> textRules \<Rightarrow> string" where
  "applyRules txt rs = applyLines rs (splitOn (CHR 0x0A) txt) 0"

definition StripHI :: "string \<Rightarrow> string" where
  "StripHI txt = applyRules (ToValidUTF8 txt (EncodeRune RuneError)) \<lparr>hi = True, tags = False, blanks = False\<rparr>"

end
