(* ===== verification/StripHIFacts.thy ===== *)
theory StripHIFacts
  imports StripHI
begin

text \<open>
  What the line scan of internal/timing/striphi.go computes. A state of the scan is, up to its work
  counter, determined by the runes it keeps and where they came from: \<open>scanOf\<close> keeps a list of
  items (rune, source offset, width) with no rule applied, and \<open>norm s = scanOf rs ks\<close> is the
  invariant of \<open>feed\<close>. Truncating to an opener then gives the state before that opener.
\<close>

type_synonym item = "rune \<times> nat \<times> nat"

definition scanOf :: "textRules \<Rightarrow> item list \<Rightarrow> lineScan" where
  "scanOf rs ks = foldl (\<lambda>s (r, src, n). keepRune s r src n) (reset rs) ks"

definition norm :: "lineScan \<Rightarrow> lineScan" where
  "norm s = s\<lparr>work := 0, afterLabel := False\<rparr>"

definition openerAt :: "lineScan \<Rightarrow> nat \<Rightarrow> opener" where
  "openerAt s src = \<lparr>oat = \<lparr>mout = length (sout s), msrc = src\<rparr>, otrim = trim s, ohasTrim = hasTrim s\<rparr>"

lemma scanOf_Nil [simp]: "scanOf rs [] = reset rs"
  by (simp add: scanOf_def)

lemma scanOf_snoc: "scanOf rs (ks @ [(r, src, n)]) = keepRune (scanOf rs ks) r src n"
  by (simp add: scanOf_def)

lemma reset_simps [simp]:
  "sout (reset rs) = []" "runs (reset rs) = []" "brackets (reset rs) = []" "parens (reset rs) = []"
  "noteOps (reset rs) = []" "lts (reset rs) = []" "trim (reset rs) = zeroMark" "deadAt (reset rs) = None"
  "work (reset rs) = 0" "rules (reset rs) = rs" "\<not> hasTrim (reset rs)" "\<not> afterLabel (reset rs)"
  by (simp_all add: reset_def)

lemma norm_simps [simp]:
  "sout (norm s) = sout s" "runs (norm s) = runs s" "brackets (norm s) = brackets s"
  "parens (norm s) = parens s" "noteOps (norm s) = noteOps s" "lts (norm s) = lts s" "trim (norm s) = trim s"
  "deadAt (norm s) = deadAt s" "rules (norm s) = rules s" "hasTrim (norm s) = hasTrim s"
  "work (norm s) = 0" "\<not> afterLabel (norm s)" "norm (norm s) = norm s"
  by (simp_all add: norm_def)

lemma push_simps [simp]:
  "sout (push r op s) = sout s" "runs (push r op s) = runs s" "rules (push r op s) = rules s"
  "work (push r op s) = work s" "afterLabel (push r op s) = afterLabel s" "deadAt (push r op s) = deadAt s"
  "hasTrim (push r op s) = hasTrim s" "trim (push r op s) = trim s"
  by (simp_all add: push_def)

lemma isNote_code: "isNote 91 = False" "isNote 40 = False" "isNote 60 = False"
  by (simp_all add: isNote_def)

lemma push_stacks [simp]:
  "brackets (push r op s) = brackets s @ (if hi (rules s) \<and> r = 91 then [op] else [])"
  "parens (push r op s) = parens s @ (if hi (rules s) \<and> r = 40 then [op] else [])"
  "noteOps (push r op s) = noteOps s @ (if hi (rules s) \<and> isNote r then [op] else [])"
  "lts (push r op s) = lts s @ (if tags (rules s) \<and> r = 60 then [op] else [])"
  by (auto simp add: push_def isNote_code)

definition addTrim :: "rune \<Rightarrow> mark \<Rightarrow> lineScan \<Rightarrow> lineScan" where
  "addTrim r here s = (if \<not> isSpace r then s\<lparr>hasTrim := False\<rparr>
     else if \<not> hasTrim s then s\<lparr>trim := here, hasTrim := True\<rparr> else s)"

definition addDead :: "rune \<Rightarrow> lineScan \<Rightarrow> lineScan" where
  "addDead r s = (if deadAt s = None \<and> \<not> labelRune r (length (sout s) = 0)
     then s\<lparr>deadAt := Some (length (sout s))\<rparr> else s)"

lemma addTrim_simps [simp]:
  "sout (addTrim r here s) = sout s" "runs (addTrim r here s) = runs s" "rules (addTrim r here s) = rules s"
  "work (addTrim r here s) = work s" "afterLabel (addTrim r here s) = afterLabel s"
  "deadAt (addTrim r here s) = deadAt s" "brackets (addTrim r here s) = brackets s"
  "parens (addTrim r here s) = parens s" "noteOps (addTrim r here s) = noteOps s" "lts (addTrim r here s) = lts s"
  "hasTrim (addTrim r here s) = isSpace r"
  "trim (addTrim r here s) = (if isSpace r \<and> \<not> hasTrim s then here else trim s)"
  by (simp_all add: addTrim_def)

lemma addDead_simps [simp]:
  "sout (addDead r s) = sout s" "runs (addDead r s) = runs s" "rules (addDead r s) = rules s"
  "work (addDead r s) = work s" "afterLabel (addDead r s) = afterLabel s"
  "trim (addDead r s) = trim s" "hasTrim (addDead r s) = hasTrim s" "brackets (addDead r s) = brackets s"
  "parens (addDead r s) = parens s" "noteOps (addDead r s) = noteOps s" "lts (addDead r s) = lts s"
  "deadAt (addDead r s) =
     (if deadAt s = None \<and> \<not> labelRune r (length (sout s) = 0) then Some (length (sout s)) else deadAt s)"
  by (simp_all add: addDead_def)

lemma keepRune_stages: "keepRune s r src n =
    (let t = addTrim r (oat (openerAt s src)) (addDead r (push r (openerAt s src) s))
     in t\<lparr>runs := addRun (runs t) (length (sout t)) src n, sout := sout t @ EncodeRune r\<rparr>)"
  by (simp only: keepRune_def addTrim_def addDead_def openerAt_def Let_def opener.select_convs)

lemma keepRune_simps [simp]:
  "sout (keepRune s r src n) = sout s @ EncodeRune r"
  "runs (keepRune s r src n) = addRun (runs s) (length (sout s)) src n"
  "rules (keepRune s r src n) = rules s"
  "work (keepRune s r src n) = work s"
  "afterLabel (keepRune s r src n) = afterLabel s"
  "brackets (keepRune s r src n) = brackets s @ (if hi (rules s) \<and> r = 91 then [openerAt s src] else [])"
  "parens (keepRune s r src n) = parens s @ (if hi (rules s) \<and> r = 40 then [openerAt s src] else [])"
  "noteOps (keepRune s r src n) = noteOps s @ (if hi (rules s) \<and> isNote r then [openerAt s src] else [])"
  "lts (keepRune s r src n) = lts s @ (if tags (rules s) \<and> r = 60 then [openerAt s src] else [])"
  "deadAt (keepRune s r src n) =
     (if deadAt s = None \<and> \<not> labelRune r (length (sout s) = 0) then Some (length (sout s)) else deadAt s)"
  "hasTrim (keepRune s r src n) = isSpace r"
  "trim (keepRune s r src n) =
     (if isSpace r \<and> \<not> hasTrim s then \<lparr>mout = length (sout s), msrc = src\<rparr> else trim s)"
  by (simp_all add: keepRune_stages Let_def openerAt_def)

lemma openerAt_norm [simp]: "openerAt (norm s) src = openerAt s src"
  by (simp add: openerAt_def norm_def)

lemma norm_eqI:
  assumes "sout s = sout t" "runs s = runs t" "brackets s = brackets t" "parens s = parens t"
    "noteOps s = noteOps t" "lts s = lts t" "trim s = trim t" "deadAt s = deadAt t" "rules s = rules t"
    "hasTrim s = hasTrim t"
  shows "norm s = norm t"
  by (rule lineScan.equality) (simp_all add: assms)

lemma keepRune_norm: "norm (keepRune s r src n) = keepRune (norm s) r src n"
proof -
  have "norm (keepRune s r src n) = norm (keepRune (norm s) r src n)"
    by (rule norm_eqI) simp_all
  also have "\<dots> = keepRune (norm s) r src n" by (rule lineScan.equality) simp_all
  finally show ?thesis .
qed

lemma truncate_norm: "norm (truncate op s) = norm (truncate op (norm s))"
  by (simp add: truncate_def norm_def Let_def)

lemma scanOf_fields [simp]:
  "rules (scanOf rs ks) = rs" "work (scanOf rs ks) = 0" "\<not> afterLabel (scanOf rs ks)"
  "sout (scanOf rs ks) = utf8 (map fst ks)" "norm (scanOf rs ks) = scanOf rs ks"
proof -
  have "rules (scanOf rs ks) = rs \<and> work (scanOf rs ks) = 0 \<and> \<not> afterLabel (scanOf rs ks)
      \<and> sout (scanOf rs ks) = utf8 (map fst ks)"
    by (induction ks rule: rev_induct) (auto simp: scanOf_snoc)
  then show "rules (scanOf rs ks) = rs" "work (scanOf rs ks) = 0" "\<not> afterLabel (scanOf rs ks)"
    "sout (scanOf rs ks) = utf8 (map fst ks)" "norm (scanOf rs ks) = scanOf rs ks"
    by (simp_all add: norm_def)
qed

subsection \<open>Truncation\<close>

lemma popFrom_snoc: "popFrom (st @ [op]) p = (if p \<le> mout (oat op) then popFrom st p else st @ [op])"
  by (simp add: popFrom_def)

lemma popFrom_Nil [simp]: "popFrom [] p = []"
  by (simp add: popFrom_def)

lemma popFrom_id: "\<forall>op \<in> set st. mout (oat op) < p \<Longrightarrow> popFrom st p = st"
  by (cases st rule: rev_cases) (simp_all add: popFrom_snoc)

definition popRuns :: "kept list \<Rightarrow> nat \<Rightarrow> kept list" where
  "popRuns ks p = rev (popRunsRev (rev ks) p)"

lemma popRuns_snoc: "popRuns (ks @ [k]) p = (if p \<le> koutFrom k then popRuns ks p else ks @ [k])"
  by (simp add: popRuns_def)

lemma popRuns_Nil [simp]: "popRuns [] p = []"
  by (simp add: popRuns_def)

lemma truncate_simps [simp]:
  "sout (truncate op s) = take (mout (oat op)) (sout s)"
  "runs (truncate op s) = clipLast (msrc (oat op)) (popRuns (runs s) (mout (oat op)))"
  "brackets (truncate op s) = popFrom (brackets s) (mout (oat op))"
  "parens (truncate op s) = popFrom (parens s) (mout (oat op))"
  "noteOps (truncate op s) = popFrom (noteOps s) (mout (oat op))"
  "lts (truncate op s) = popFrom (lts s) (mout (oat op))"
  "deadAt (truncate op s) = (case deadAt s of None \<Rightarrow> None | Some d \<Rightarrow> if mout (oat op) \<le> d then None else Some d)"
  "trim (truncate op s) = otrim op" "hasTrim (truncate op s) = ohasTrim op"
  "rules (truncate op s) = rules s" "afterLabel (truncate op s) = afterLabel s"
  "work (truncate op s) = work s + (length (sout s) - mout (oat op))"
  by (simp_all add: truncate_def Let_def popRuns_def)

lemma clipLast_snoc: "clipLast q (ks @ [k]) = ks @ [k\<lparr>kto := min (kto k) q\<rparr>]"
  by (simp add: clipLast_def)

lemma clip_addRun:
  assumes "p \<le> out" and "ks \<noteq> [] \<Longrightarrow> kto (last ks) = src \<Longrightarrow> osrc \<le> src"
  shows "clipLast osrc (popRuns (addRun ks out src n) p) = clipLast osrc (popRuns ks p)"
proof (cases "ks \<noteq> [] \<and> kto (last ks) = src")
  case False
  then have "addRun ks out src n = ks @ [\<lparr>koutFrom = out, kfrom = src, kto = src + n\<rparr>]"
    by (simp only: addRun_def if_False)
  then show ?thesis using assms(1) by (simp add: popRuns_snoc)
next
  case True
  then obtain xs l where ks: "ks = xs @ [l]" by (cases ks rule: rev_cases) auto
  have l: "kto l = src" "osrc \<le> src" using True assms(2) by (simp_all add: ks)
  have "addRun ks out src n = xs @ [l\<lparr>kto := src + n\<rparr>]" using l(1) by (simp add: addRun_def ks)
  moreover have "min (src + n) osrc = min (kto l) osrc" using l by simp
  ultimately show ?thesis by (simp add: ks popRuns_snoc clipLast_snoc)
qed

lemma popFrom_push: "p \<le> mout (oat op) \<Longrightarrow> popFrom (st @ (if b then [op] else [])) p = popFrom st p"
  by (simp add: popFrom_snoc)

lemma truncate_keepRune:
  assumes "mout (oat op) \<le> length (sout g)"
    and "runs g \<noteq> [] \<Longrightarrow> kto (last (runs g)) = src \<Longrightarrow> msrc (oat op) \<le> src"
  shows "norm (truncate op (keepRune g r src n)) = norm (truncate op g)"
proof (rule norm_eqI)
  have "mout (oat op) \<le> mout (oat (openerAt g src))" using assms by (simp add: openerAt_def)
  then show "brackets (truncate op (keepRune g r src n)) = brackets (truncate op g)"
    "parens (truncate op (keepRune g r src n)) = parens (truncate op g)"
    "noteOps (truncate op (keepRune g r src n)) = noteOps (truncate op g)"
    "lts (truncate op (keepRune g r src n)) = lts (truncate op g)"
    by (simp_all only: truncate_simps keepRune_simps popFrom_push)
  show "runs (truncate op (keepRune g r src n)) = runs (truncate op g)"
    using clip_addRun [OF assms] by simp
  show "sout (truncate op (keepRune g r src n)) = sout (truncate op g)" using assms by simp
  show "deadAt (truncate op (keepRune g r src n)) = deadAt (truncate op g)"
    using assms by (simp split: option.splits)
qed simp_all

text \<open>Source offsets grow along the items.\<close>

fun srcs_ok :: "nat \<Rightarrow> item list \<Rightarrow> nat \<Rightarrow> bool" where
  "srcs_ok a [] b \<longleftrightarrow> a \<le> b"
| "srcs_ok a ((r, src, n) # ks) b \<longleftrightarrow> a \<le> src \<and> srcs_ok (src + n) ks b"

lemma srcs_ok_le: "srcs_ok a ks b \<Longrightarrow> a \<le> b"
proof (induction ks arbitrary: a)
  case (Cons k ks)
  then show ?case by (cases k) (auto dest!: Cons.IH)
qed simp

lemma srcs_ok_start: "srcs_ok c ls b \<Longrightarrow> a \<le> c \<Longrightarrow> srcs_ok a ls b"
  by (cases ls) auto

lemma srcs_ok_append: "srcs_ok a (ks @ ls) b \<longleftrightarrow> (\<exists>c. srcs_ok a ks c \<and> srcs_ok c ls b)"
proof (induction ks arbitrary: a)
  case Nil
  show ?case by (auto intro: srcs_ok_start)
next
  case (Cons k ks)
  then show ?case by (cases k) auto
qed

lemma srcs_ok_mono: "srcs_ok a ks b \<Longrightarrow> b \<le> c \<Longrightarrow> srcs_ok a ks c"
proof (induction ks arbitrary: a)
  case (Cons k ks)
  then show ?case by (cases k) auto
qed simp

subsection \<open>Truncating to an opener gives the state before it\<close>

definition scan_wf :: "lineScan \<Rightarrow> nat \<Rightarrow> bool" where
  "scan_wf s b \<longleftrightarrow>
     (\<forall>k \<in> set (runs s). koutFrom k < length (sout s)) \<and> (runs s \<noteq> [] \<longrightarrow> kto (last (runs s)) \<le> b)
     \<and> (\<forall>op \<in> set (brackets s) \<union> set (parens s) \<union> set (noteOps s) \<union> set (lts s). mout (oat op) < length (sout s))
     \<and> (\<forall>d. deadAt s = Some d \<longrightarrow> d < length (sout s))"

lemma addRun_to: "last (addRun ks out src n) = l \<Longrightarrow> kto l = src + n"
  by (auto simp: addRun_def)

lemma addRun_not_Nil [simp]: "addRun ks out src n \<noteq> []"
  by (simp add: addRun_def)

lemma addRun_out:
  "k \<in> set (addRun ks out src n) \<Longrightarrow> koutFrom k = out \<or> (\<exists>k' \<in> set ks. koutFrom k = koutFrom k')"
  by (cases ks rule: rev_cases) (auto simp: addRun_def split: if_splits)

lemma EncodeRune_grows: "a \<le> length xs \<Longrightarrow> a < length xs + length (EncodeRune r)"
  using EncodeRune_length [of r] by simp

lemma keepRune_wf:
  assumes "scan_wf s b" "src + n \<le> c"
  shows "scan_wf (keepRune s r src n) c"
proof -
  have 1: "\<forall>k \<in> set (runs (keepRune s r src n)). koutFrom k < length (sout (keepRune s r src n))"
  proof
    fix k
    assume "k \<in> set (runs (keepRune s r src n))"
    then have "koutFrom k \<le> length (sout s)"
      using addRun_out [of k "runs s" "length (sout s)" src n] assms(1) by (auto simp: scan_wf_def)
    then show "koutFrom k < length (sout (keepRune s r src n))" by (simp add: EncodeRune_grows)
  qed
  have 2: "kto (last (runs (keepRune s r src n))) \<le> c"
    using addRun_to [OF refl, of "runs s" "length (sout s)" src n] assms(2) by simp
  have 3: "\<forall>op \<in> set (brackets (keepRune s r src n)) \<union> set (parens (keepRune s r src n))
      \<union> set (noteOps (keepRune s r src n)) \<union> set (lts (keepRune s r src n)).
      mout (oat op) < length (sout (keepRune s r src n))"
    using assms(1) by (auto simp: scan_wf_def openerAt_def split: if_splits intro: trans_less_add1)
  have 4: "\<forall>d. deadAt (keepRune s r src n) = Some d \<longrightarrow> d < length (sout (keepRune s r src n))"
    using assms(1) by (auto simp: scan_wf_def intro: trans_less_add1)
  show ?thesis using 1 2 3 4 by (simp add: scan_wf_def)
qed

lemma reset_wf: "scan_wf (reset rs) b"
  by (simp add: scan_wf_def)

lemma srcs_ok_snoc: "srcs_ok a (ks @ [(r, src, n)]) b \<longleftrightarrow> srcs_ok a ks src \<and> src + n \<le> b"
  by (auto simp: srcs_ok_append intro: srcs_ok_mono)

lemma scanOf_wf: "srcs_ok a ks b \<Longrightarrow> scan_wf (scanOf rs ks) b"
proof (induction ks arbitrary: b rule: rev_induct)
  case Nil
  show ?case by (simp add: reset_wf)
next
  case (snoc k ks)
  obtain r src n where k: "k = (r, src, n)" by (cases k) auto
  have "srcs_ok a ks src" "src + n \<le> b" using snoc.prems by (simp_all add: k srcs_ok_snoc)
  then show ?case using keepRune_wf [OF snoc.IH] by (simp add: k scanOf_snoc)
qed

lemma popRuns_id: "\<forall>k \<in> set ks. koutFrom k < p \<Longrightarrow> popRuns ks p = ks"
  by (cases ks rule: rev_cases) (simp_all add: popRuns_snoc)

lemma clipLast_id: "ks \<noteq> [] \<longrightarrow> kto (last ks) \<le> q \<Longrightarrow> clipLast q ks = ks"
  by (cases ks rule: rev_cases) (simp_all add: clipLast_snoc clipLast_def)

lemma truncate_here:
  assumes "scan_wf s src" shows "norm (truncate (openerAt s src) s) = norm s"
proof (rule norm_eqI)
  have "popRuns (runs s) (length (sout s)) = runs s" using assms by (simp add: popRuns_id scan_wf_def)
  then show "runs (truncate (openerAt s src) s) = runs s"
    using assms by (simp add: openerAt_def clipLast_id scan_wf_def)
qed (use assms in \<open>auto simp: openerAt_def scan_wf_def popFrom_id split: option.splits\<close>)

lemma truncate_norm_eq: "norm s = norm t \<Longrightarrow> norm (truncate op s) = norm (truncate op t)"
  by (metis truncate_norm)

lemma scanOf_len: "length (sout (scanOf rs (ks @ ls))) = length (sout (scanOf rs ks)) + length (utf8 (map fst ls))"
  by simp

lemma truncate_scanOf:
  assumes "srcs_ok a (ks @ (r, src, n) # ls) b"
  shows "norm (truncate (openerAt (scanOf rs ks) src) (scanOf rs (ks @ (r, src, n) # ls))) = scanOf rs ks"
  using assms
proof (induction ls arbitrary: b rule: rev_induct)
  case Nil
  let ?s = "scanOf rs ks"
  have wf: "scan_wf ?s src" using Nil scanOf_wf [of a ks src] by (simp add: srcs_ok_snoc)
  have "norm (truncate (openerAt ?s src) (keepRune ?s r src n)) = norm (truncate (openerAt ?s src) ?s)"
    by (rule truncate_keepRune) (simp_all add: openerAt_def)
  then show ?case using truncate_here [OF wf] by (simp add: scanOf_snoc)
next
  case (snoc l ls)
  obtain r' src' n' where l: "l = (r', src', n')" by (cases l) auto
  let ?ks = "ks @ (r, src, n) # ls" and ?op = "openerAt (scanOf rs ks) src"
  have ok: "srcs_ok a ?ks src'" using snoc.prems by (simp add: l srcs_ok_snoc flip: append_Cons append_assoc)
  then have "src \<le> src'" by (auto simp: srcs_ok_append dest: srcs_ok_le)
  moreover have "length (sout (scanOf rs ks)) \<le> length (sout (scanOf rs ?ks))" by simp
  ultimately have "norm (truncate ?op (keepRune (scanOf rs ?ks) r' src' n')) = norm (truncate ?op (scanOf rs ?ks))"
    by (intro truncate_keepRune) (simp_all add: openerAt_def)
  then show ?case using snoc.IH [OF ok] scanOf_snoc [of rs ?ks r' src' n'] by (simp add: l)
qed

end
