(* ===== verification/StripHISpec.thy ===== *)
theory StripHISpec
  imports StripHIFacts
begin

text \<open>
  What internal/timing/striphi.go promises of the scan: which runes complete a match (\<open>endsMatch\<close>, over
  the kept runes alone), that \<open>feed\<close> keeps a rune exactly when it completes none, that the output of a
  line holds no match and is reproduced by a second scan, and that the work is linear.
\<close>

subsection \<open>Openers\<close>

definition openerOf :: "textRules \<Rightarrow> (rune \<Rightarrow> bool) \<Rightarrow> item list \<Rightarrow> nat \<Rightarrow> opener list" where
  "openerOf rs P ks i = (case ks ! i of (r, src, n) \<Rightarrow>
     if P r then [openerAt (scanOf rs (take i ks)) src] else [])"

definition stackOf :: "textRules \<Rightarrow> (rune \<Rightarrow> bool) \<Rightarrow> item list \<Rightarrow> opener list" where
  "stackOf rs P ks = concat (map (openerOf rs P ks) [0..<length ks])"

lemma stackOf_Nil [simp]: "stackOf rs P [] = []"
  by (simp add: stackOf_def)

lemma stackOf_snoc:
  "stackOf rs P (ks @ [(r, src, n)]) = stackOf rs P ks @ (if P r then [openerAt (scanOf rs ks) src] else [])"
proof -
  have "openerOf rs P (ks @ [(r, src, n)]) i = openerOf rs P ks i" if "i < length ks" for i
    using that by (simp add: openerOf_def nth_append split: prod.split)
  then have "map (openerOf rs P (ks @ [(r, src, n)])) [0..<length ks] = map (openerOf rs P ks) [0..<length ks]"
    by (intro map_cong) auto
  moreover have "openerOf rs P (ks @ [(r, src, n)]) (length ks) = (if P r then [openerAt (scanOf rs ks) src] else [])"
    by (simp add: openerOf_def)
  ultimately show ?thesis by (simp add: stackOf_def del: map_eq_conv)
qed

lemma stackOf_empty: "stackOf rs P ks = [] \<longleftrightarrow> (\<forall>k \<in> set ks. \<not> P (fst k))"
  by (induction ks rule: rev_induct) (auto simp: stackOf_snoc split: prod.splits)

lemma stackOf_member:
  "op \<in> set (stackOf rs P ks) \<Longrightarrow>
   \<exists>ks1 r src n ks2. ks = ks1 @ (r, src, n) # ks2 \<and> P r \<and> op = openerAt (scanOf rs ks1) src"
proof (induction ks rule: rev_induct)
  case (snoc k ks)
  obtain r src n where k: "k = (r, src, n)" by (cases k) auto
  show ?case
  proof (cases "op \<in> set (stackOf rs P ks)")
    case True
    then obtain ks1 r' src' n' ks2 where "ks = ks1 @ (r', src', n') # ks2" "P r'" "op = openerAt (scanOf rs ks1) src'"
      using snoc.IH by blast
    then show ?thesis by (intro exI [of _ ks1] exI [of _ r'] exI [of _ src'] exI [of _ n'] exI [of _ "ks2 @ [k]"]) simp
  next
    case False
    then have "P r \<and> op = openerAt (scanOf rs ks) src" using snoc.prems by (auto simp: k stackOf_snoc split: if_splits)
    then show ?thesis using k by (metis append_Cons append_Nil)
  qed
qed simp

lemma stackOf_last:
  "\<forall>k \<in> set ks2. \<not> P (fst k) \<Longrightarrow> P r \<Longrightarrow>
   last (stackOf rs P (ks1 @ (r, src, n) # ks2)) = openerAt (scanOf rs ks1) src"
proof (induction ks2 rule: rev_induct)
  case Nil
  then show ?case by (simp add: stackOf_snoc)
next
  case (snoc k ks2)
  obtain r' src' n' where k: "k = (r', src', n')" by (cases k) auto
  show ?case using snoc stackOf_snoc [of rs P "ks1 @ (r, src, n) # ks2" r' src' n'] by (simp add: k)
qed

lemma scanOf_stacks:
  "brackets (scanOf rs ks) = stackOf rs (\<lambda>r. hi rs \<and> r = 91) ks"
  "parens (scanOf rs ks) = stackOf rs (\<lambda>r. hi rs \<and> r = 40) ks"
  "noteOps (scanOf rs ks) = stackOf rs (\<lambda>r. hi rs \<and> isNote r) ks"
  "lts (scanOf rs ks) = stackOf rs (\<lambda>r. tags rs \<and> r = 60) ks"
  by (induction ks rule: rev_induct) (auto simp: scanOf_snoc stackOf_snoc)

subsection \<open>Labels and trailing blanks\<close>

lemma scanOf_single: "scanOf rs [(r, src, n)] = keepRune (reset rs) r src n"
  by (simp add: scanOf_def)

definition labelText :: "rune list \<Rightarrow> bool" where
  "labelText xs \<longleftrightarrow> (xs \<noteq> [] \<longrightarrow> labelRune (hd xs) True) \<and> list_all (\<lambda>y. labelRune y False) (tl xs)"

lemma utf8_empty [simp]: "utf8 xs = [] \<longleftrightarrow> xs = []"
  by (cases xs) simp_all

lemma scanOf_dead: "deadAt (scanOf rs ks) = None \<longleftrightarrow> labelText (map fst ks)"
proof (induction ks rule: rev_induct)
  case Nil
  show ?case by (simp add: labelText_def)
next
  case (snoc k ks)
  obtain r src n where k: "k = (r, src, n)" by (cases k) auto
  show ?case using snoc by (cases "ks = []") (auto simp: k scanOf_snoc scanOf_single labelText_def)
qed

definition labelled :: "rune list \<Rightarrow> bool" where
  "labelled xs \<longleftrightarrow> 2 \<le> length xs \<and> labelText xs"

lemma utf8_length: "length xs \<le> length (utf8 xs)"
proof (induction xs)
  case (Cons x xs)
  then show ?case using EncodeRune_length [of x] by simp
qed simp

lemma labelRune_first: "labelRune r True \<Longrightarrow> length (EncodeRune r) = 1"
proof -
  assume "labelRune r True"
  then have "r < 0x80" by (simp add: labelRune_def split: if_splits)
  then show ?thesis by (simp add: EncodeRune_def)
qed

lemma labelled_bytes:
  assumes "labelText xs" shows "2 \<le> length (utf8 xs) \<longleftrightarrow> 2 \<le> length xs"
proof (cases "length xs = 1")
  case True
  then obtain x where x: "xs = [x]" by (cases xs) auto
  then have "length (EncodeRune x) = 1" using assms by (simp add: labelText_def labelRune_first)
  then show ?thesis by (simp add: x)
next
  case False
  then consider "xs = []" | "2 \<le> length xs" by (cases xs) (auto simp: Suc_le_eq)
  then show ?thesis using utf8_length [of xs] by cases auto
qed

lemma scanOf_trim:
  assumes "ks2 \<noteq> []" "list_all (\<lambda>k. isSpace (fst k)) ks2" "ks1 \<noteq> [] \<longrightarrow> \<not> isSpace (fst (last ks1))"
  shows "hasTrim (scanOf rs (ks1 @ ks2)) \<and>
    trim (scanOf rs (ks1 @ ks2)) = oat (openerAt (scanOf rs ks1) (fst (snd (hd ks2))))"
  using assms
proof (induction ks2 rule: rev_induct)
  case (snoc k ks2)
  obtain r src n where k: "k = (r, src, n)" by (cases k) auto
  have one: "\<not> hasTrim (scanOf rs ks1)"
  proof (cases ks1 rule: rev_cases)
    case Nil
    then show ?thesis by simp
  next
    case (snoc ys y)
    then show ?thesis using assms(3) by (cases y) (simp add: scanOf_snoc)
  qed
  show ?case
  proof (cases "ks2 = []")
    case True
    then show ?thesis using snoc.prems one by (simp add: k scanOf_snoc openerAt_def)
  next
    case False
    have "hasTrim (scanOf rs (ks1 @ ks2)) \<and>
      trim (scanOf rs (ks1 @ ks2)) = oat (openerAt (scanOf rs ks1) (fst (snd (hd ks2))))"
      using snoc.IH [OF False] snoc.prems by simp
    then show ?thesis
      using snoc.prems False scanOf_snoc [of rs "ks1 @ ks2" r src n] by (simp add: k)
  qed
qed simp

lemma scanOf_hasTrim: "hasTrim (scanOf rs ks) \<longleftrightarrow> ks \<noteq> [] \<and> isSpace (fst (last ks))"
proof (cases ks rule: rev_cases)
  case (snoc ys y)
  then show ?thesis by (cases y) (simp add: scanOf_snoc)
qed simp

subsection \<open>Completing a match\<close>

definition afterLast :: "rune \<Rightarrow> rune list \<Rightarrow> rune list" where
  "afterLast c xs = rev (takeWhile (\<lambda>x. x \<noteq> c) (rev xs))"

text \<open>After the kept runes \<open>xs\<close>, the rune \<open>r\<close> completes a match of a rule.\<close>

definition endsMatch :: "textRules \<Rightarrow> rune list \<Rightarrow> rune \<Rightarrow> bool" where
  "endsMatch rs xs r \<longleftrightarrow>
     hi rs \<and> (r = 93 \<and> 91 \<in> set xs \<or> r = 41 \<and> 40 \<in> set xs \<or> isNote r \<and> list_ex isNote xs \<or> r = 58 \<and> labelled xs)
     \<or> tags rs \<and> r = 62 \<and> 60 \<in> set xs \<and> formatTag (utf8 (afterLast 60 xs))"

definition noMatch :: "textRules \<Rightarrow> rune list \<Rightarrow> bool" where
  "noMatch rs xs \<longleftrightarrow> (\<forall>i < length xs. \<not> endsMatch rs (take i xs) (xs ! i))"

lemma noMatch_Nil [simp]: "noMatch rs []"
  by (simp add: noMatch_def)

lemma noMatch_snoc: "noMatch rs (xs @ [x]) \<longleftrightarrow> noMatch rs xs \<and> \<not> endsMatch rs xs x"
  by (auto simp: noMatch_def nth_append less_Suc_eq)

lemma noMatch_prefix: "noMatch rs (xs @ ys) \<Longrightarrow> noMatch rs xs"
  by (induction ys rule: rev_induct) (simp_all add: noMatch_snoc flip: append_assoc)

lemma formatTag_take: "formatTag (take 6 inner) = formatTag inner"
proof -
  have "take 5 (trimSlash (take 6 inner)) = take 5 (trimSlash inner)"
    by (cases inner) (auto simp: trimSlash_def)
  then show ?thesis by (simp add: formatTag_def)
qed

lemma afterLast_split: "c \<in> set xs \<Longrightarrow> \<exists>ys. xs = ys @ c # afterLast c xs \<and> c \<notin> set (afterLast c xs)"
proof (induction xs rule: rev_induct)
  case (snoc x xs)
  show ?case
  proof (cases "x = c")
    case True
    then show ?thesis by (simp add: afterLast_def)
  next
    case False
    then obtain ys where ys: "xs = ys @ c # afterLast c xs" "c \<notin> set (afterLast c xs)" using snoc by auto
    have "afterLast c (xs @ [x]) = afterLast c xs @ [x]" using False by (simp add: afterLast_def)
    moreover have "xs @ [x] = ys @ c # (afterLast c xs @ [x])" using ys(1) by (metis append.assoc append_Cons)
    ultimately have "xs @ [x] = ys @ c # afterLast c (xs @ [x]) \<and> c \<notin> set (afterLast c (xs @ [x]))"
      using ys(2) False by (metis Un_iff empty_iff empty_set list.set_intros(1) set_ConsD set_append)
    then show ?thesis by blast
  qed
qed simp

lemma norm_fields:
  assumes "norm s = t"
  shows "sout s = sout t" "runs s = runs t" "brackets s = brackets t" "parens s = parens t"
    "noteOps s = noteOps t" "lts s = lts t" "deadAt s = deadAt t" "rules s = rules t" "hasTrim s = hasTrim t"
    "trim s = trim t"
  by (simp_all add: assms [symmetric])

lemma norm_work [simp]: "norm (s\<lparr>work := w\<rparr>) = norm s" "norm (s\<lparr>afterLabel := a\<rparr>) = norm s"
  by (simp_all add: norm_def)

lemma isNote_closers [simp]: "\<not> isNote 93" "\<not> isNote 41" "\<not> isNote 58" "\<not> isNote 62"
  by (simp_all add: isNote_def)

lemma truncate_stack:
  assumes "op \<in> set (stackOf rs P ks)" "srcs_ok a ks b" "norm s = scanOf rs ks"
  shows "\<exists>ks1 ks2. ks = ks1 @ ks2 \<and> norm (truncate op s) = scanOf rs ks1"
proof -
  obtain ks1 r src n ks2 where "ks = ks1 @ (r, src, n) # ks2" "op = openerAt (scanOf rs ks1) src"
    using stackOf_member [OF assms(1)] by blast
  then have "norm (truncate op s) = scanOf rs ks1"
    using truncate_scanOf assms(2,3) truncate_norm_eq [of s "scanOf rs ks" op] by simp
  then show ?thesis using \<open>ks = _\<close> by blast
qed

definition closing :: "textRules \<Rightarrow> rune \<Rightarrow> rune \<Rightarrow> bool" where
  "closing rs r x \<longleftrightarrow> hi rs \<and> (r = 93 \<and> x = 91 \<or> r = 41 \<and> x = 40 \<or> isNote r \<and> isNote x)"

lemma closes_scanOf:
  assumes "norm s = scanOf rs ks"
  shows "closes s r = (if \<exists>x. closing rs r x then stackOf rs (closing rs r) ks else [])"
proof -
  have c: "closing rs 93 = (\<lambda>x. hi rs \<and> x = 91)" "closing rs 41 = (\<lambda>x. hi rs \<and> x = 40)"
    "isNote r \<Longrightarrow> closing rs r = (\<lambda>x. hi rs \<and> isNote x)"
    by (auto simp: closing_def isNote_def)
  have n: "\<exists>x. isNote x" by (auto simp: isNote_def)
  consider "\<not> hi rs" | "hi rs" "r = 93" | "hi rs" "r = 41" | "hi rs" "isNote r"
    | "hi rs" "r \<noteq> 93" "r \<noteq> 41" "\<not> isNote r" by blast
  then show ?thesis
    using n by cases (auto simp: closes_def norm_fields [OF assms] scanOf_stacks c closing_def)
qed

lemma closes_ends:
  "norm s = scanOf rs ks \<Longrightarrow> closes s r \<noteq> [] \<longleftrightarrow> list_ex (closing rs r) (map fst ks)"
  by (auto simp: closes_scanOf stackOf_empty list_ex_iff)

lemma endsMatch_closing:
  "endsMatch rs xs r \<longleftrightarrow> list_ex (closing rs r) xs \<or> hi rs \<and> r = 58 \<and> labelled xs
     \<or> tags rs \<and> r = 62 \<and> 60 \<in> set xs \<and> formatTag (utf8 (afterLast 60 xs))"
  by (auto simp: endsMatch_def closing_def list_ex_iff)

lemma truncate_zero: "rules s = rs \<Longrightarrow> deadAt s = None \<Longrightarrow> norm (truncate zeroOpener s) = reset rs"
proof -
  assume a: "rules s = rs" "deadAt s = None"
  have "popRuns ks 0 = []" for ks by (induction ks rule: rev_induct) (simp_all add: popRuns_snoc)
  moreover have "popFrom st 0 = []" for st by (induction st rule: rev_induct) (simp_all add: popFrom_snoc)
  ultimately have "norm (truncate zeroOpener s) = norm (reset rs)"
    by (intro norm_eqI) (simp_all add: a zeroOpener_def zeroMark_def clipLast_def)
  then show ?thesis using scanOf_fields(5) [of rs "[]"] by simp
qed

lemma map_split: "map f ks = ys @ y # zs \<Longrightarrow>
    \<exists>ks1 k ks2. ks = ks1 @ k # ks2 \<and> map f ks1 = ys \<and> f k = y \<and> map f ks2 = zs"
  by (auto simp: map_eq_append_conv map_eq_Cons_conv)

lemma tagInner_scanOf:
  assumes n: "norm s = scanOf rs ks" and t: "tags rs" and m: "60 \<in> set (map fst ks)"
  shows "lts s \<noteq> [] \<and> last (lts s) \<in> set (lts s) \<and> tagInner s = take 6 (utf8 (afterLast 60 (map fst ks)))"
proof -
  let ?xs = "map fst ks"
  obtain ys where ys: "?xs = ys @ 60 # afterLast 60 ?xs" "60 \<notin> set (afterLast 60 ?xs)"
    using afterLast_split [OF m] by blast
  obtain ks1 k ks2 where ks: "ks = ks1 @ k # ks2" "map fst ks1 = ys" "fst k = 60" "map fst ks2 = afterLast 60 ?xs"
    using map_split [OF ys(1)] by (elim exE conjE)
  obtain src w where k: "k = (60, src, w)" using ks(3) by (cases k) auto
  have l: "lts s = stackOf rs (\<lambda>r. tags rs \<and> r = 60) ks" by (simp add: norm_fields [OF n] scanOf_stacks)
  have ne: "lts s \<noteq> []" using t by (auto simp: l stackOf_empty ks k)
  have "last (lts s) = openerAt (scanOf rs ks1) src"
    unfolding l ks(1) k
  proof (rule stackOf_last)
    have "fst x \<in> set (afterLast 60 ?xs)" if "x \<in> set ks2" for x using that ks(4) by (metis image_eqI set_map)
    then show "\<forall>x \<in> set ks2. \<not> (tags rs \<and> fst x = 60)" using ys(2) by metis
  qed (simp add: t)
  then have "mout (oat (last (lts s))) = length (utf8 ys)" by (simp add: openerAt_def ks(2))
  moreover have "sout s = utf8 ys @ EncodeRune 60 @ utf8 (map fst ks2)"
    using n by (simp add: norm_fields [OF n] ks(1,2) k)
  moreover have "length (EncodeRune 60) = 1" by (simp add: EncodeRune_def)
  ultimately have "tagInner s = take 6 (utf8 (map fst ks2))" by (simp add: tagInner_def)
  then show ?thesis using ne ks(4) by simp
qed

lemma closeMatch_True:
  assumes n: "norm s = scanOf rs ks" and ok: "srcs_ok a ks b" and e: "endsMatch rs (map fst ks) r"
  shows "\<exists>s' ks1 ks2. closeMatch s r = (s', True) \<and> ks = ks1 @ ks2 \<and> norm s' = scanOf rs ks1"
proof (cases "closes s r = []")
  case False
  then have "hd (closes s r) \<in> set (stackOf rs (closing rs r) ks)"
    using closes_scanOf [OF n, of r] by (metis hd_in_set)
  from truncate_stack [OF this ok n] False show ?thesis by (auto simp: closeMatch_def Let_def)
next
  case True
  then have nc: "\<not> list_ex (closing rs r) (map fst ks)" using closes_ends [OF n] by blast
  have rl: "rules s = rs" by (simp add: norm_fields [OF n])
  from e nc consider (tag) "tags rs" "r = 62" "60 \<in> set (map fst ks)" "formatTag (utf8 (afterLast 60 (map fst ks)))"
    | (label) "hi rs" "r = 58" "labelled (map fst ks)"
    unfolding endsMatch_closing by blast
  then show ?thesis
  proof cases
    case tag
    note t = tagInner_scanOf [OF n tag(1,3)]
    let ?s = "s\<lparr>work := work s + length (tagInner s)\<rparr>"
    have c: "closeMatch s r = (truncate (last (lts s)) ?s, True)"
      using True t tag by (simp add: closeMatch_def rl tagOpen_def formatTag_take)
    have m: "last (lts s) \<in> set (stackOf rs (\<lambda>r. tags rs \<and> r = 60) ks)"
      using t by (simp add: norm_fields [OF n] scanOf_stacks)
    have "norm ?s = scanOf rs ks" using n by simp
    from truncate_stack [OF m ok this] c show ?thesis by blast
  next
    case label
    have d: "deadAt s = None" "2 \<le> length (sout s)"
      using label(3) labelled_bytes by (auto simp: norm_fields [OF n] scanOf_dead labelled_def)
    then have "closeMatch s r = ((truncate zeroOpener s)\<lparr>afterLabel := True\<rparr>, True)"
      using True label by (simp add: closeMatch_def rl)
    then show ?thesis using truncate_zero [OF rl d(1)] by (intro exI [of _ "(truncate zeroOpener s)\<lparr>afterLabel := True\<rparr>"]
          exI [of _ "[]"] exI [of _ ks]) simp
  qed
qed

lemma closeMatch_False:
  assumes n: "norm s = scanOf rs ks" and e: "\<not> endsMatch rs (map fst ks) r"
  shows "\<exists>s'. closeMatch s r = (s', False) \<and> norm s' = norm s \<and> afterLabel s' = afterLabel s"
proof -
  have c: "closes s r = []" using e closes_ends [OF n] by (auto simp: endsMatch_closing)
  have rl: "rules s = rs" by (simp add: norm_fields [OF n])
  have lab: "\<not> (hi rs \<and> r = 58 \<and> deadAt s = None \<and> 2 \<le> length (sout s))"
    using e labelled_bytes by (auto simp: endsMatch_closing norm_fields [OF n] scanOf_dead labelled_def)
  obtain s' where s': "(if tags rs \<and> r = 62 then tagOpen s else (s, False)) = (s', False)"
      "norm s' = norm s" "afterLabel s' = afterLabel s"
  proof (cases "tags rs \<and> r = 62")
    case False
    then show ?thesis by (intro that [of s]) auto
  next
    case True
    show ?thesis
    proof (cases "60 \<in> set (map fst ks)")
      case False
      then have "lts s = []" by (auto simp: norm_fields [OF n] scanOf_stacks stackOf_empty)
      then show ?thesis using that [of s] True by (simp add: tagOpen_def)
    next
      case m: True
      then have "\<not> formatTag (tagInner s)"
        using e True tagInner_scanOf [OF n _ m] by (auto simp: endsMatch_closing formatTag_take)
      then show ?thesis using that [of "s\<lparr>work := work s + length (tagInner s)\<rparr>"] True tagInner_scanOf [OF n _ m]
        by (simp add: tagOpen_def)
    qed
  qed
  have "rules s' = rs" "deadAt s' = deadAt s" "sout s' = sout s"
    using s'(2) rl by (metis norm_simps(9), metis norm_simps(8), metis norm_simps(1))
  then have "closeMatch s r = (s', False)" using c s'(1) lab by (simp add: closeMatch_def rl)
  then show ?thesis using s' by blast
qed

end
