(* ===== verification/StripHILines.thy ===== *)
theory StripHILines
  imports StripHISpec "HOL-Library.Sublist"
begin

text \<open>
  The lines of internal/timing/striphi.go: what \<open>feed\<close> keeps of a line, what \<open>finish\<close> makes of it, and
  the properties of \<open>applyRules\<close> and \<open>StripHI\<close> on a whole text.
\<close>

subsection \<open>The items of a line\<close>

fun itemsFrom :: "nat \<Rightarrow> rune list \<Rightarrow> item list" where
  "itemsFrom i [] = []"
| "itemsFrom i (x # xs) = (x, i, length (EncodeRune x)) # itemsFrom (i + length (EncodeRune x)) xs"

definition feedItem :: "lineScan \<Rightarrow> item \<Rightarrow> lineScan" where
  "feedItem s k = (case k of (r, src, n) \<Rightarrow> feed s r src n)"

lemma feedItem_simp [simp]: "feedItem s (r, src, n) = feed s r src n"
  by (simp add: feedItem_def)

lemma feedFrom_utf8:
  "list_all scalar xs \<Longrightarrow> drop i line = utf8 xs \<Longrightarrow> feedFrom s line i = foldl feedItem s (itemsFrom i xs)"
proof (induction xs arbitrary: s i)
  case Nil
  then show ?case by (subst feedFrom.simps) simp
next
  case (Cons x xs)
  have "i < length line" using Cons.prems(2) by (metis EncodeRune_not_Nil append_is_Nil_conv drop_eq_Nil not_le utf8_simps(2))
  moreover have "drop (i + length (EncodeRune x)) line = utf8 xs"
    using Cons.prems(2) by (metis add.commute append_eq_conv_conj drop_drop utf8_simps(2))
  ultimately show ?case using Cons by (subst feedFrom.simps) simp
qed

definition slice_ok :: "string \<Rightarrow> item \<Rightarrow> bool" where
  "slice_ok line k = (case k of (r, src, n) \<Rightarrow> scalar r \<and> take n (drop src line) = EncodeRune r)"

lemma slice_ok_simp [simp]: "slice_ok line (r, src, n) \<longleftrightarrow> scalar r \<and> take n (drop src line) = EncodeRune r"
  by (simp add: slice_ok_def)

lemma list_all_slice_scalar: "list_all (slice_ok line) ks \<Longrightarrow> list_all scalar (map fst ks)"
  by (induction ks) auto

definition scan_inv :: "textRules \<Rightarrow> string \<Rightarrow> rune list \<Rightarrow> lineScan \<Rightarrow> item list \<Rightarrow> nat \<Rightarrow> bool" where
  "scan_inv rs line xs s ks b \<longleftrightarrow>
     norm s = scanOf rs ks \<and> srcs_ok 0 ks b \<and> noMatch rs (map fst ks) \<and> list_all (slice_ok line) ks
     \<and> subseq (map fst ks) xs \<and> (blanks rs \<and> ks \<noteq> [] \<longrightarrow> \<not> isSpace (fst (hd ks)))"

lemma scan_inv_reset: "scan_inv rs line [] (reset rs) [] 0"
  using scanOf_fields(5) [of rs "[]"] by (simp add: scan_inv_def)

lemma feed_step:
  "feed s r src n =
    (if isSpace r \<and> sout s = [] \<and> (blanks (rules s) \<or> afterLabel s) then s\<lparr>work := work s + n\<rparr>
     else case closeMatch (if isSpace r then s\<lparr>work := work s + n\<rparr> else s\<lparr>work := work s + n, afterLabel := False\<rparr>) r of
        (s2, True) \<Rightarrow> s2 | (s2, False) \<Rightarrow> keepRune s2 r src n)"
  by (simp add: feed_def Let_def)

lemma feed_keeps:
  assumes n: "norm s = scanOf rs ks" and e: "\<not> endsMatch rs (map fst ks) r"
    and b: "\<not> (isSpace r \<and> sout s = [] \<and> (blanks rs \<or> afterLabel s))"
  shows "norm (feed s r src w) = scanOf rs (ks @ [(r, src, w)])
    \<and> (\<not> afterLabel s \<longrightarrow> \<not> afterLabel (feed s r src w))"
proof -
  let ?t = "if isSpace r then s\<lparr>work := work s + w\<rparr> else s\<lparr>work := work s + w, afterLabel := False\<rparr>"
  have t: "norm ?t = scanOf rs ks" using n by (simp add: norm_def)
  obtain s' where s': "closeMatch ?t r = (s', False)" "norm s' = norm ?t" "afterLabel s' = afterLabel ?t"
    using closeMatch_False [OF t e] by blast
  have "rules s = rs" by (simp add: norm_fields [OF n])
  then have "feed s r src w = keepRune s' r src w" by (subst feed_step) (use b s'(1) in auto)
  then show ?thesis using s'(2,3) t by (simp add: keepRune_norm scanOf_snoc)
qed

text \<open>A rune either is kept after the items there were, or leaves a prefix of them.\<close>

lemma feed_prefix:
  assumes n: "norm s = scanOf rs ks" and srcs: "srcs_ok a ks b"
  shows "(\<exists>ks1 ks2. ks = ks1 @ ks2 \<and> norm (feed s r src w) = scanOf rs ks1)
    \<or> (norm (feed s r src w) = scanOf rs (ks @ [(r, src, w)]) \<and> \<not> endsMatch rs (map fst ks) r
        \<and> \<not> (isSpace r \<and> ks = [] \<and> blanks rs))"
proof -
  have rl: "rules s = rs" and out: "sout s = [] \<longleftrightarrow> ks = []" by (simp_all add: norm_fields [OF n])
  show ?thesis
  proof (cases "isSpace r \<and> sout s = [] \<and> (blanks rs \<or> afterLabel s)")
    case True
    then have "norm (feed s r src w) = scanOf rs ks" using n by (simp add: feed_step rl)
    then show ?thesis by auto
  next
    case live: False
    show ?thesis
    proof (cases "endsMatch rs (map fst ks) r")
      case True
      let ?t = "if isSpace r then s\<lparr>work := work s + w\<rparr> else s\<lparr>work := work s + w, afterLabel := False\<rparr>"
      have "norm ?t = scanOf rs ks" using n by (simp add: norm_def)
      from closeMatch_True [OF this srcs True] obtain s' ks1 ks2 where
        "closeMatch ?t r = (s', True)" "ks = ks1 @ ks2" "norm s' = scanOf rs ks1" by blast
      then show ?thesis using live by (auto simp: feed_step rl)
    next
      case False
      then show ?thesis using feed_keeps [OF n False live] live out by auto
    qed
  qed
qed

lemma feed_inv:
  assumes inv: "scan_inv rs line xs s ks b" and ok: "slice_ok line (r, b, n)"
  shows "\<exists>ks'. scan_inv rs line (xs @ [r]) (feed s r b n) ks' (b + n)"
proof -
  have n: "norm s = scanOf rs ks" and srcs: "srcs_ok 0 ks b" and nm: "noMatch rs (map fst ks)"
    and sl: "list_all (slice_ok line) ks" and sub: "subseq (map fst ks) xs"
    and hd: "blanks rs \<and> ks \<noteq> [] \<longrightarrow> \<not> isSpace (fst (hd ks))"
    using inv by (simp_all add: scan_inv_def)
  have mono: "srcs_ok 0 ks (b + n)" using srcs srcs_ok_mono le_add1 by blast
  from feed_prefix [OF n srcs, of r b n] show ?thesis
  proof (elim disjE exE conjE)
    fix ks1 ks2
    assume "ks = ks1 @ ks2" "norm (feed s r b n) = scanOf rs ks1"
    then have "scan_inv rs line (xs @ [r]) (feed s r b n) ks1 (b + n)" using mono nm sl sub hd
      by (auto simp: scan_inv_def srcs_ok_append noMatch_prefix intro: srcs_ok_mono [OF _ srcs_ok_le] subseq_order.trans)
    then show ?thesis by blast
  next
    assume k: "norm (feed s r b n) = scanOf rs (ks @ [(r, b, n)])" "\<not> endsMatch rs (map fst ks) r"
      "\<not> (isSpace r \<and> ks = [] \<and> blanks rs)"
    have "blanks rs \<longrightarrow> \<not> isSpace (fst (hd (ks @ [(r, b, n)])))" using k(3) hd by (cases ks) auto
    then have "scan_inv rs line (xs @ [r]) (feed s r b n) (ks @ [(r, b, n)]) (b + n)"
      using k srcs nm sl sub ok by (simp add: scan_inv_def srcs_ok_snoc noMatch_snoc)
    then show ?thesis by blast
  qed
qed

lemma feedFrom_inv:
  "list_all scalar ys \<Longrightarrow> drop b line = utf8 ys \<Longrightarrow> scan_inv rs line xs s ks b \<Longrightarrow>
   \<exists>ks'. scan_inv rs line (xs @ ys) (foldl feedItem s (itemsFrom b ys)) ks' (b + length (utf8 ys))"
proof (induction ys arbitrary: xs s ks b)
  case (Cons y ys)
  have d: "drop b line = EncodeRune y @ utf8 ys" using Cons.prems(2) by simp
  have "slice_ok line (y, b, length (EncodeRune y))" using Cons.prems(1) by (simp add: d)
  from feed_inv [OF Cons.prems(3) this] obtain ks' where
    k: "scan_inv rs line (xs @ [y]) (feed s y b (length (EncodeRune y))) ks' (b + length (EncodeRune y))" by blast
  have "drop (b + length (EncodeRune y)) line = utf8 ys"
    using d by (metis add.commute append_eq_conv_conj drop_drop)
  from Cons.IH [OF _ this k] Cons.prems(1) show ?case by (simp add: add.assoc)
qed auto

lemma scan_line:
  assumes "list_all scalar xs"
  shows "\<exists>ks. scan_inv rs (utf8 xs) xs (feedFrom (reset rs) (utf8 xs) 0) ks (length (utf8 xs))"
  using feedFrom_inv [OF assms _ scan_inv_reset, of "utf8 xs" rs] feedFrom_utf8 [OF assms, of 0 "utf8 xs"] by simp

text \<open>A line without matches is kept whole.\<close>

lemma feed_fixed:
  assumes "noMatch rs (map fst (ks @ ls))" "blanks rs \<and> ks @ ls \<noteq> [] \<longrightarrow> \<not> isSpace (fst (hd (ks @ ls)))"
    and "norm s = scanOf rs ks" "\<not> afterLabel s"
  shows "norm (foldl feedItem s ls) = scanOf rs (ks @ ls)"
  using assms
proof (induction ls arbitrary: s ks)
  case (Cons l ls)
  obtain r src n where l: "l = (r, src, n)" by (cases l) auto
  have nm: "noMatch rs (map fst (ks @ [l]) @ map fst ls)" using Cons.prems(1) by simp
  have e: "\<not> endsMatch rs (map fst ks) r" using noMatch_prefix [OF nm] by (simp add: l noMatch_snoc)
  have b: "\<not> (isSpace r \<and> sout s = [] \<and> (blanks rs \<or> afterLabel s))"
    using Cons.prems(2-4) by (auto simp: l norm_fields [OF Cons.prems(3)])
  from feed_keeps [OF Cons.prems(3) e b, of src n] Cons.prems(4)
  have "norm (feedItem s l) = scanOf rs (ks @ [l])" "\<not> afterLabel (feedItem s l)" by (simp_all add: l)
  from Cons.IH [OF _ _ this] Cons.prems(1,2) show ?case by simp
qed simp

subsection \<open>The kept slices\<close>

lemma sliceRun_grow:
  assumes "kfrom k \<le> kto k"
  shows "sliceRun line (k\<lparr>kto := kto k + n\<rparr>) = sliceRun line k @ take n (drop (kto k) line)"
proof -
  obtain m where "kto k = m + kfrom k" using assms by (metis le_add_diff_inverse2)
  then have "kto k + n - kfrom k = m + n" "kto k - kfrom k = m" "drop m (drop (kfrom k) line) = drop (kto k) line"
    by simp_all
  then show ?thesis by (simp add: sliceRun_def take_add)
qed

lemma addRun_slices:
  assumes "\<forall>k \<in> set ks. kfrom k \<le> kto k"
  shows "concat (map (sliceRun line) (addRun ks out src n)) = concat (map (sliceRun line) ks) @ take n (drop src line)
    \<and> (\<forall>k \<in> set (addRun ks out src n). kfrom k \<le> kto k)"
proof (cases "ks \<noteq> [] \<and> kto (last ks) = src")
  case False
  then have "addRun ks out src n = ks @ [\<lparr>koutFrom = out, kfrom = src, kto = src + n\<rparr>]" by (auto simp: addRun_def)
  then show ?thesis using assms by (simp add: sliceRun_def)
next
  case True
  then obtain xs l where ks: "ks = xs @ [l]" by (cases ks rule: rev_cases) auto
  have l: "kfrom l \<le> kto l" "src = kto l" using True assms by (simp_all add: ks)
  have r: "addRun (xs @ [l]) out (kto l) n = xs @ [l\<lparr>kto := kto l + n\<rparr>]" by (simp add: addRun_def)
  show ?thesis using assms l(1) sliceRun_grow [of l line n] by (auto simp: r ks l(2))
qed

lemma runs_slices:
  "list_all (slice_ok line) ks \<Longrightarrow>
   concat (map (sliceRun line) (runs (scanOf rs ks))) = utf8 (map fst ks)
   \<and> (\<forall>k \<in> set (runs (scanOf rs ks)). kfrom k \<le> kto k)"
proof (induction ks rule: rev_induct)
  case (snoc k ks)
  obtain r src n where k: "k = (r, src, n)" by (cases k) auto
  show ?case using snoc addRun_slices [of "runs (scanOf rs ks)" line] by (simp add: k scanOf_snoc)
qed simp

subsection \<open>The end of a line\<close>

definition keepLine :: "textRules \<Rightarrow> rune list \<Rightarrow> bool" where
  "keepLine rs ys \<longleftrightarrow> \<not> (blanks rs \<and> (utf8 ys = [] \<or> utf8 ys = ''-'') \<or> hi rs \<and> musicOnly (utf8 ys))"

definition trimmed :: "textRules \<Rightarrow> rune list \<Rightarrow> bool" where
  "trimmed rs ys \<longleftrightarrow> (blanks rs \<and> ys \<noteq> [] \<longrightarrow> \<not> isSpace (hd ys) \<and> \<not> isSpace (last ys))"

lemma finish_simp:
  assumes "s1 = (if blanks (rules s) \<and> hasTrim s
      then truncate \<lparr>oat = trim s, otrim = zeroMark, ohasTrim = False\<rparr> s else s)"
    and "sout s1 = utf8 ys" "rules s1 = rs"
  shows "\<exists>s2 t. finish s = (s2, keepLine rs ys, t) \<and> sout s2 = sout s1 \<and> runs s2 = runs s1"
proof -
  have "\<exists>t. \<not> t" by blast
  then show ?thesis using assms(2,3) by (simp add: finish_def Let_def keepLine_def flip: assms(1))
qed

lemma span_trailing:
  obtains ks1 ks2 where "ks = ks1 @ ks2" "list_all P ks2" "ks1 \<noteq> [] \<longrightarrow> \<not> P (last ks1)"
proof
  show "ks = rev (dropWhile P (rev ks)) @ rev (takeWhile P (rev ks))"
    by (simp flip: rev_append)
  show "list_all P (rev (takeWhile P (rev ks)))" by (auto simp: list_all_iff dest: set_takeWhileD)
  show "rev (dropWhile P (rev ks)) \<noteq> [] \<longrightarrow> \<not> P (last (rev (dropWhile P (rev ks))))"
    by (simp add: last_rev hd_dropWhile)
qed

lemma finish_spec:
  assumes n: "norm s = scanOf rs ks" and ok: "srcs_ok a ks b"
  shows "\<exists>ks1 ks2 s2 t. ks = ks1 @ ks2 \<and> finish s = (s2, keepLine rs (map fst ks1), t)
    \<and> runs s2 = runs (scanOf rs ks1) \<and> (blanks rs \<and> ks1 \<noteq> [] \<longrightarrow> \<not> isSpace (fst (last ks1)))
    \<and> (trimmed rs (map fst ks) \<longrightarrow> ks2 = [])"
proof -
  have rl: "rules s = rs" by (simp add: norm_fields [OF n])
  show ?thesis
  proof (cases "blanks rs \<and> hasTrim s")
    case False
    from finish_simp [OF refl, of s "map fst ks" rs] obtain s2 t where
      "finish s = (s2, keepLine rs (map fst ks), t)" "runs s2 = runs (scanOf rs ks)"
      using False n by (auto simp: rl norm_fields [OF n])
    moreover have "blanks rs \<and> ks \<noteq> [] \<longrightarrow> \<not> isSpace (fst (last ks))"
      using False by (auto simp: norm_fields [OF n] scanOf_hasTrim)
    ultimately show ?thesis by (intro exI [of _ ks] exI [of _ "[]"]) simp
  next
    case True
    obtain ks1 ks2 where ks: "ks = ks1 @ ks2" "list_all (\<lambda>k. isSpace (fst k)) ks2"
        "ks1 \<noteq> [] \<longrightarrow> \<not> isSpace (fst (last ks1))"
      by (rule span_trailing [of ks "\<lambda>k. isSpace (fst k)"])
    have ht: "ks \<noteq> []" "isSpace (fst (last ks))" using True by (simp_all add: norm_fields [OF n] scanOf_hasTrim)
    then have ne: "ks2 \<noteq> []" using ks by auto
    then obtain r src w ls where k2: "ks2 = (r, src, w) # ls" by (metis neq_Nil_conv surj_pair)
    let ?op = "\<lparr>oat = trim s, otrim = zeroMark, ohasTrim = False\<rparr>"
    let ?full = "openerAt (scanOf rs ks1) src"
    have tr: "trim s = oat ?full" using scanOf_trim [OF ne ks(2,3), of rs] by (simp add: norm_fields [OF n] ks(1) k2)
    have same: "sout (truncate ?op s) = sout (truncate ?full s)" "runs (truncate ?op s) = runs (truncate ?full s)"
      by (simp_all add: tr)
    have "norm (truncate ?full s) = scanOf rs ks1"
      using truncate_scanOf [of a ks1 r src w ls b rs] ok truncate_norm_eq [of s "scanOf rs ks" ?full] n
      by (simp add: ks(1) k2)
    note f = norm_fields [OF this]
    from finish_simp [OF refl, of s "map fst ks1" rs] obtain s2 t where
      "finish s = (s2, keepLine rs (map fst ks1), t)" "runs s2 = runs (scanOf rs ks1)"
      using True f(1,2) same by (auto simp: rl)
    moreover have "\<not> trimmed rs (map fst ks)" using True ht by (simp add: trimmed_def last_map)
    ultimately show ?thesis using ks by (intro exI [of _ ks1] exI [of _ ks2]) simp
  qed
qed

definition cleanLine :: "textRules \<Rightarrow> rune list \<Rightarrow> bool" where
  "cleanLine rs ys \<longleftrightarrow> list_all scalar ys \<and> noMatch rs ys \<and> trimmed rs ys \<and> keepLine rs ys"

definition lineOut :: "textRules \<Rightarrow> string \<Rightarrow> string option" where
  "lineOut rs line = (case finish (feedFrom (reset rs) line 0) of (s, ok, _) \<Rightarrow>
     if ok then Some (concat (map (sliceRun line) (runs s))) else None)"

lemma lineOut_clean:
  assumes "list_all scalar xs" "lineOut rs (utf8 xs) = Some o'"
  shows "\<exists>ys. o' = utf8 ys \<and> cleanLine rs ys \<and> subseq ys xs"
proof -
  let ?s = "feedFrom (reset rs) (utf8 xs) 0"
  from scan_line [OF assms(1)] obtain ks where inv: "scan_inv rs (utf8 xs) xs ?s ks (length (utf8 xs))" by blast
  then have n: "norm ?s = scanOf rs ks" and ok: "srcs_ok 0 ks (length (utf8 xs))" by (simp_all add: scan_inv_def)
  from finish_spec [OF this] obtain ks1 ks2 s2 t where f: "ks = ks1 @ ks2"
    "finish ?s = (s2, keepLine rs (map fst ks1), t)" "runs s2 = runs (scanOf rs ks1)"
    "blanks rs \<and> ks1 \<noteq> [] \<longrightarrow> \<not> isSpace (fst (last ks1))" by blast
  have sl: "list_all (slice_ok (utf8 xs)) ks1" and sub: "subseq (map fst ks1 @ map fst ks2) xs"
    and nm: "noMatch rs (map fst ks1)" and hd: "blanks rs \<and> ks1 \<noteq> [] \<longrightarrow> \<not> isSpace (fst (hd ks1))"
    using inv noMatch_prefix by (auto simp: scan_inv_def f(1))
  have "subseq (map fst ks1) xs" using sub by (metis subseq_rev_drop_many subseq_order.trans subseq_order.order_refl)
  moreover have "trimmed rs (map fst ks1)" using f(4) hd by (simp add: trimmed_def hd_map last_map)
  ultimately show ?thesis
    using assms(2) f(2,3) runs_slices [OF sl, of rs] nm list_all_slice_scalar [OF sl]
    by (intro exI [of _ "map fst ks1"]) (auto simp: lineOut_def cleanLine_def split: if_splits)
qed

lemma slice_ok_items:
  "list_all scalar xs \<Longrightarrow> drop i line = utf8 xs \<Longrightarrow> list_all (slice_ok line) (itemsFrom i xs)"
proof (induction xs arbitrary: i)
  case (Cons x xs)
  have d: "drop i line = EncodeRune x @ utf8 xs" using Cons.prems by simp
  then have "drop (i + length (EncodeRune x)) line = utf8 xs" by (metis add.commute append_eq_conv_conj drop_drop)
  then show ?case using Cons d by simp
qed simp

lemma srcs_ok_items: "srcs_ok i (itemsFrom i xs) (i + length (utf8 xs))"
  by (induction xs arbitrary: i) (simp_all add: add.assoc [symmetric])

lemma map_fst_items [simp]: "map fst (itemsFrom i xs) = xs"
  by (induction xs arbitrary: i) simp_all

lemma lineOut_fixed:
  assumes "cleanLine rs ys" shows "lineOut rs (utf8 ys) = Some (utf8 ys)"
proof -
  let ?ks = "itemsFrom 0 ys" and ?s = "feedFrom (reset rs) (utf8 ys) 0"
  have c: "list_all scalar ys" "noMatch rs ys" "trimmed rs ys" "keepLine rs ys"
    using assms by (simp_all add: cleanLine_def)
  have h: "blanks rs \<and> ?ks \<noteq> [] \<longrightarrow> \<not> isSpace (fst (hd ?ks))" using c(3) by (cases ys) (auto simp: trimmed_def)
  have n: "norm ?s = scanOf rs ?ks"
    using feed_fixed [of rs "[]" ?ks "reset rs"] c(2) h scanOf_fields(5) [of rs "[]"]
    by (simp add: feedFrom_utf8 [OF c(1)])
  have ok: "srcs_ok 0 ?ks (length (utf8 ys))" using srcs_ok_items [of 0 ys] by simp
  obtain ks1 ks2 s2 t where
    f: "?ks = ks1 @ ks2" "finish ?s = (s2, keepLine rs (map fst ks1), t)" "runs s2 = runs (scanOf rs ks1)"
      "trimmed rs (map fst ?ks) \<longrightarrow> ks2 = []"
    using finish_spec [OF n ok] by (elim exE conjE)
  have "ks1 = ?ks" using f(1,4) c(3) by simp
  then have "finish ?s = (s2, keepLine rs ys, t)" "runs s2 = runs (scanOf rs ?ks)" using f(2,3) by simp_all
  then show ?thesis using runs_slices [OF slice_ok_items [OF c(1), of 0 "utf8 ys"], of rs] c(4) by (simp add: lineOut_def)
qed

subsection \<open>The lines of a text\<close>

fun joinLines :: "string list \<Rightarrow> string" where
  "joinLines [] = []"
| "joinLines (l # ls) = l @ concat (map (\<lambda>l. CHR 0x0A # l) ls)"

lemma applyLines_join:
  "applyLines rs ls n = (if 0 < n then concat (map (\<lambda>l. CHR 0x0A # l) (List.map_filter (lineOut rs) ls))
     else joinLines (List.map_filter (lineOut rs) ls))"
proof (induction ls arbitrary: n)
  case (Cons l ls)
  obtain s ok t where e: "finish (feedFrom (reset rs) l 0) = (s, ok, t)" by (metis surj_pair)
  then have "lineOut rs l = (if ok then Some (concat (map (sliceRun l) (runs s))) else None)" by (simp add: lineOut_def)
  then show ?case using e Cons [of n] Cons [of "n + 1"] by (cases "n = 0") (simp_all add: List.map_filter_simps)
qed (simp add: List.map_filter_simps)

lemma splitOn_no: "c \<notin> set xs \<Longrightarrow> splitOn c (xs @ ys) = (xs @ hd (splitOn c ys)) # tl (splitOn c ys)"
  by (induction xs) (auto split: list.splits)

lemma splitOn_single: "c \<notin> set xs \<Longrightarrow> splitOn c xs = [xs]"
  using splitOn_no [of c xs "[]"] by simp

lemma byte_newline: "byte_char 10 = CHR 0x0A"
proof -
  have "bv (CHR 0x0A) = 10" by (simp add: bv_def)
  then show ?thesis using byte_char_bv [of "CHR 0x0A"] by simp
qed

lemma EncodeRune_newline: "CHR 0x0A \<in> set (EncodeRune r) \<longleftrightarrow> r = 10"
proof -
  have 1: "byte_char n = CHR 0x0A \<longleftrightarrow> n = 10" if "n < 256" for n
  proof
    assume "byte_char n = CHR 0x0A"
    then have "bv (byte_char n) = bv (CHR 0x0A)" by simp
    then show "n = 10" using that by (simp add: bv_def [of "CHR 0x0A"])
  qed (simp add: byte_newline)
  have 2: "r div 64 < 32" if "r < 0x800" using that by simp
  have 3: "r div 4096 < 16" if "r < 0x10000" using that by simp
  have 4: "r div 262144 < 8" if "scalar r" using that by (auto simp: scalar_def)
  show ?thesis
  proof (cases "r < 0x80")
    case False
    have "CHR 0x0A \<notin> set (EncodeRune r)" using False 2 3 4 by (auto simp: EncodeRune_def dest!: 1 [THEN iffD1, rotated, OF sym])
    then show ?thesis using False by auto
  next
    case True
    then have "EncodeRune r = [byte_char r]" by (simp add: EncodeRune_def)
    then show ?thesis using 1 [of r] True by auto
  qed
qed

definition newline :: rune where "newline = 10"

lemma scalar_newline [simp]: "scalar newline"
  by (simp add: newline_def scalar_def)

lemma splitOn_utf8: "splitOn (CHR 0x0A) (utf8 xs) = map utf8 (splitOn newline xs)"
proof (induction xs)
  case (Cons x xs)
  obtain y ys where s: "splitOn newline xs = y # ys" by (metis splitOn_not_Nil neq_Nil_conv)
  show ?case
  proof (cases "x = newline")
    case True
    then have "EncodeRune x = [CHR 0x0A]" by (simp add: newline_def EncodeRune_def byte_newline)
    then show ?thesis using True Cons by simp
  next
    case False
    then have "CHR 0x0A \<notin> set (EncodeRune x)" by (simp add: EncodeRune_newline newline_def)
    then show ?thesis using False Cons by (simp add: splitOn_no s)
  qed
qed simp

lemma splitOn_lines: "ws \<in> set (splitOn c xs) \<Longrightarrow> c \<notin> set ws \<and> set ws \<subseteq> set xs"
proof (induction xs arbitrary: ws)
  case (Cons x xs)
  then show ?case by (auto split: if_splits list.splits) blast+
qed simp

lemma utf8_newline: "CHR 0x0A \<in> set (utf8 ys) \<longleftrightarrow> newline \<in> set ys"
  by (induction ys) (auto simp: EncodeRune_newline newline_def)

lemma splitOn_join:
  assumes "\<forall>l \<in> set ls. CHR 0x0A \<notin> set l" "ls \<noteq> []" shows "splitOn (CHR 0x0A) (joinLines ls) = ls"
proof -
  have "CHR 0x0A \<notin> set m \<Longrightarrow> \<forall>l \<in> set ms. CHR 0x0A \<notin> set l \<Longrightarrow>
    splitOn (CHR 0x0A) (m @ concat (map (\<lambda>l. CHR 0x0A # l) ms)) = m # ms" for m ms
    by (induction ms arbitrary: m) (simp_all add: splitOn_no splitOn_single)
  then show ?thesis using assms by (cases ls) simp_all
qed

definition cleanLines :: "textRules \<Rightarrow> rune list \<Rightarrow> rune list list \<Rightarrow> bool" where
  "cleanLines rs xs yss \<longleftrightarrow> list_all (cleanLine rs) yss \<and> list_emb subseq yss (splitOn newline xs)"

lemma lines_clean:
  "list_all (list_all scalar) xss \<Longrightarrow>
   \<exists>yss. List.map_filter (lineOut rs) (map utf8 xss) = map utf8 yss
     \<and> list_all (cleanLine rs) yss \<and> list_emb subseq yss xss"
proof (induction xss)
  case (Cons xs xss)
  then obtain yss where y: "List.map_filter (lineOut rs) (map utf8 xss) = map utf8 yss"
    "list_all (cleanLine rs) yss" "list_emb subseq yss xss" by auto
  show ?case
  proof (cases "lineOut rs (utf8 xs)")
    case None
    then show ?thesis using y by (intro exI [of _ yss]) (simp add: List.map_filter_simps list_emb_Cons)
  next
    case (Some o')
    then obtain ys where "o' = utf8 ys" "cleanLine rs ys" "subseq ys xs" using lineOut_clean [of xs rs o'] Cons.prems by auto
    then show ?thesis using y Some by (intro exI [of _ "ys # yss"]) (simp add: List.map_filter_simps)
  qed
qed (simp add: List.map_filter_simps)

lemma splitOn_all: "list_all P xs \<Longrightarrow> list_all (list_all P) (splitOn c xs)"
  using splitOn_lines [of _ c xs] by (fastforce simp: list_all_iff)

lemma applyRules_clean:
  assumes "list_all scalar xs"
  shows "\<exists>yss. applyRules (utf8 xs) rs = joinLines (map utf8 yss) \<and> cleanLines rs xs yss"
proof -
  obtain yss where "List.map_filter (lineOut rs) (map utf8 (splitOn newline xs)) = map utf8 yss"
      "list_all (cleanLine rs) yss" "list_emb subseq yss (splitOn newline xs)"
    using lines_clean [OF splitOn_all [OF assms]] by blast
  then show ?thesis
    by (intro exI [of _ yss]) (simp add: applyRules_def applyLines_join splitOn_utf8 cleanLines_def)
qed

lemma lineOut_Nil: "lineOut rs [] = (if blanks rs then None else Some [])"
  by (simp add: lineOut_def finish_def Let_def musicOnly_def feedFrom.simps runes.simps)

lemma applyRules_Nil [simp]: "applyRules [] rs = []"
  by (simp add: applyRules_def applyLines_join lineOut_Nil List.map_filter_simps)

lemma embedded_newline: "list_emb subseq yss xss \<Longrightarrow> \<forall>xs \<in> set xss. c \<notin> set xs \<Longrightarrow> \<forall>ys \<in> set yss. c \<notin> set ys"
proof (induction rule: list_emb.induct)
  case (list_emb_Cons2 x y xs ys)
  have "c \<in> set y" if "c \<in> set x" using list_emb_set [OF list_emb_Cons2.hyps(1) that] by auto
  then show ?case using list_emb_Cons2 by auto
qed simp_all

lemma applyRules_fixed:
  assumes "cleanLines rs xs yss"
  shows "applyRules (joinLines (map utf8 yss)) rs = joinLines (map utf8 yss)"
proof (cases "yss = []")
  case False
  have "\<forall>ys \<in> set yss. newline \<notin> set ys"
  proof (rule embedded_newline)
    show "list_emb subseq yss (splitOn newline xs)" using assms by (simp add: cleanLines_def)
    show "\<forall>ws \<in> set (splitOn newline xs). newline \<notin> set ws" by (simp add: splitOn_lines)
  qed
  then have s: "splitOn (CHR 0x0A) (joinLines (map utf8 yss)) = map utf8 yss"
    using False by (intro splitOn_join) (auto simp: utf8_newline)
  have "List.map_filter (lineOut rs) (map utf8 yss) = map utf8 yss" if "list_all (cleanLine rs) yss" for yss
    using that by (induction yss) (simp_all add: List.map_filter_simps lineOut_fixed)
  then show ?thesis using assms s by (simp add: applyRules_def applyLines_join cleanLines_def)
qed simp

lemma joined_scalar: "list_all (cleanLine rs) yss \<Longrightarrow> \<exists>xs. list_all scalar xs \<and> joinLines (map utf8 yss) = utf8 xs"
proof -
  have nl: "utf8 [newline] = [CHR 0x0A]" by (simp add: newline_def EncodeRune_def byte_newline)
  have "list_all (cleanLine rs) yss \<Longrightarrow>
    \<exists>xs. list_all scalar xs \<and> concat (map (\<lambda>l. CHR 0x0A # l) (map utf8 yss)) = utf8 xs" for yss
  proof (induction yss)
    case (Cons ys yss)
    then obtain xs where "list_all scalar xs" "concat (map (\<lambda>l. CHR 0x0A # l) (map utf8 yss)) = utf8 xs" by auto
    moreover have "list_all scalar ys" using Cons.prems by (simp add: cleanLine_def)
    ultimately show ?case using nl
      by (intro exI [of _ "newline # ys @ xs"]) simp
  qed (intro exI [of _ "[]"], simp)
  moreover assume "list_all (cleanLine rs) yss"
  ultimately show ?thesis
  proof (cases yss)
    case (Cons ys zs)
    assume a: "list_all (cleanLine rs) yss"
    then obtain xs where "list_all scalar xs" "concat (map (\<lambda>l. CHR 0x0A # l) (map utf8 zs)) = utf8 xs"
      using Cons \<open>\<And>yss. list_all (cleanLine rs) yss \<Longrightarrow> _ yss\<close> by auto
    then show ?thesis using a Cons by (intro exI [of _ "ys @ xs"]) (simp add: cleanLine_def)
  qed (intro exI [of _ "[]"], simp)
qed

subsection \<open>The work of the scan\<close>

definition potential :: "lineScan \<Rightarrow> nat" where
  "potential s = work s + length (sout s)"

lemma potential_truncate [simp]: "potential (truncate op s) = potential s"
  by (simp add: potential_def min_def)

lemma potential_fields [simp]:
  "potential (s\<lparr>afterLabel := a\<rparr>) = potential s" "potential (s\<lparr>work := work s + n\<rparr>) = potential s + n"
  by (simp_all add: potential_def)

lemma potential_tagOpen: "tagOpen s = (s', b) \<Longrightarrow> potential s' \<le> potential s + 6"
  by (auto simp: tagOpen_def tagInner_def split: if_splits)

lemma potential_closeMatch: "potential (fst (closeMatch s r)) \<le> potential s + 6"
proof -
  obtain s' b where t: "(if tags (rules s) \<and> r = 62 then tagOpen s else (s, False)) = (s', b)" by (metis surj_pair)
  then have "potential s' \<le> potential s + 6" using potential_tagOpen by (auto split: if_splits)
  then show ?thesis using t by (cases b) (simp_all add: closeMatch_def Let_def split: if_split)
qed

lemma potential_feed: "potential (feed s r src n) \<le> potential s + n + 10"
proof -
  let ?t = "if isSpace r then s\<lparr>work := work s + n\<rparr> else s\<lparr>work := work s + n, afterLabel := False\<rparr>"
  have t: "potential ?t = potential s + n" by (simp add: potential_def)
  obtain s' b where c: "closeMatch ?t r = (s', b)" by (metis surj_pair)
  then have s': "potential s' \<le> potential s + n + 6" using potential_closeMatch [of ?t r] t by simp
  have "potential (keepRune s' r src n) \<le> potential s' + 4"
    using EncodeRune_length [of r] by (simp add: potential_def)
  then show ?thesis using c s' by (subst feed_step) (cases b; simp)
qed

lemma potential_feedFrom: "potential (feedFrom s line i) \<le> potential s + 14 * (length line - i)"
proof (induction s line i rule: feedFrom.induct)
  case (1 s line i)
  show ?case
  proof (cases "i < length line")
    case False
    then show ?thesis by (subst feedFrom.simps) simp
  next
    case True
    obtain r w where d: "DecodeRune (drop i line) = (r, w)" by (metis surj_pair)
    let ?s = "feed s r i (length (EncodeRune r))"
    have w: "0 < w" "w \<le> length line - i" using DecodeRune_width [of "drop i line"] True d by auto
    have "potential ?s \<le> potential s + 14"
      using potential_feed [of s r i "length (EncodeRune r)"] EncodeRune_length [of r] by linarith
    moreover have "potential (feedFrom ?s line (i + w)) \<le> potential ?s + 14 * (length line - (i + w))"
      using "1.IH" [OF True d [symmetric]] by simp
    moreover have "14 + 14 * (length line - (i + w)) \<le> 14 * (length line - i)" using w by auto
    ultimately have "potential (feedFrom ?s line (i + w)) \<le> potential s + 14 * (length line - i)" by linarith
    then show ?thesis using True d by (subst feedFrom.simps) simp
  qed
qed

lemma work_finish: "work (fst (finish s)) \<le> potential s"
proof -
  obtain t where t: "t = (if blanks (rules s) \<and> hasTrim s
      then truncate \<lparr>oat = trim s, otrim = zeroMark, ohasTrim = False\<rparr> s else s)" by simp
  have "potential t = potential s" by (simp add: t)
  moreover have "work (fst (finish s)) = work t + length (sout t)"
    by (simp add: finish_def Let_def flip: t)
  ultimately show ?thesis by (simp add: potential_def)
qed

subsection \<open>Properties\<close>

definition hiRules :: textRules where "hiRules = \<lparr>hi = True, tags = False, blanks = False\<rparr>"

lemma StripHI_runes:
  obtains xs where "list_all scalar xs" "runes (ToValidUTF8 txt (EncodeRune RuneError)) = xs"
    "StripHI txt = applyRules (utf8 xs) hiRules"
proof -
  obtain xs where "list_all scalar xs" "ToValidUTF8 txt (utf8 [RuneError]) = utf8 xs" by (rule ToValidUTF8_utf8)
  then show ?thesis using that [of xs] by (simp add: StripHI_def hiRules_def)
qed

text \<open>C9. The output holds no match of any rule: the text after the rules is lines, each a subsequence of
  a line of the text, in the order of the lines, and each clean. A clean line holds no completed
  [...], (...) or note pair, no speaker label and no formatting tag of the rules that are on, has
  no blank at either end under the blanks rule, and is not one the rules remove.\<close>

theorem applyRules_output:
  assumes "list_all scalar xs"
  shows "\<exists>yss. applyRules (utf8 xs) rs = joinLines (map utf8 yss) \<and> list_all (cleanLine rs) yss
    \<and> list_emb subseq yss (splitOn newline xs)"
  using applyRules_clean [OF assms, of rs] by (simp add: cleanLines_def)

theorem applyRules_output_witness:
  "\<exists>yss. applyRules (utf8 [65, 66, 58, 32, 91, 65, 93, 65, 10, 65]) hiRules = joinLines (map utf8 yss)
    \<and> list_all (cleanLine hiRules) yss
    \<and> list_emb subseq yss (splitOn newline [65, 66, 58, 32, 91, 65, 93, 65, 10, 65])"
  by (rule applyRules_output) (simp add: scalar_def)

text \<open>C3. Stripping is a fixed point, as striphi.go claims: on every byte string, valid UTF-8 or not,
  stripping hearing-impaired annotations a second time changes nothing.\<close>

theorem StripHI_idem: "StripHI (StripHI txt) = StripHI txt"
proof -
  obtain xs where xs: "list_all scalar xs" "StripHI txt = applyRules (utf8 xs) hiRules"
    using StripHI_runes [of "txt"] by metis
  obtain yss where y: "applyRules (utf8 xs) hiRules = joinLines (map utf8 yss)" "cleanLines hiRules xs yss"
    using applyRules_clean [OF xs(1)] by blast
  then obtain zs where z: "list_all scalar zs" "StripHI txt = utf8 zs"
    using joined_scalar [of hiRules yss] xs(2) by (auto simp: cleanLines_def)
  have "StripHI (StripHI txt) = applyRules (StripHI txt) hiRules"
    using z by (simp add: StripHI_def [of "utf8 zs"] hiRules_def ToValidUTF8_id)
  then show ?thesis using applyRules_fixed [OF y(2)] y(1) xs(2) by simp
qed

text \<open>C29. The scan is linear: the bytes the scan of a line feeds, removes and re-reads, which the code
  counts itself, are at most 14 per byte of the line, whatever the line and the rules.\<close>

theorem scan_work: "work (fst (finish (feedFrom (reset rs) line 0))) \<le> 14 * length line"
proof -
  have "potential (reset rs) = 0" by (simp add: potential_def)
  then show ?thesis
    using work_finish [of "feedFrom (reset rs) line 0"] potential_feedFrom [of "reset rs" line 0] by simp
qed

end
