(* ===== verification/Clean.thy ===== *)
theory Clean
  imports CuesDoc StripHILines
begin

text \<open>
  internal/timing/clean.go: the delivery clean-up of a document. \<open>cleanText\<close> runs the line scan over one
  event's text, \<open>edit\<close> writes the document with the kept ranges, \<open>toUTF8\<close> and \<open>crlf\<close> change encoding
  and line breaks, \<open>Clean\<close> composes them. The codec of golang.org/x/text behind \<^verbatim>\<open>Encoding.Decode\<close>
  is the parameter \<open>cod\<close> (\<open>None\<close> is its error) and \<^verbatim>\<open>subtitleenc.Detect\<close> with its language hint is the
  parameter \<open>detect\<close>.
\<close>

type_synonym codec = "Encoding \<Rightarrow> string \<Rightarrow> string option"

record CleanOptions =
  oStripHI :: bool
  oStripTags :: bool
  oCleanWhitespace :: bool
  oRemoveEmpty :: bool
  oNormalizeUTF8 :: bool
  oNormalizeLineEndings :: bool

subsection \<open>Runes of a document\<close>

definition utf16RuneAt :: "string \<Rightarrow> bool \<Rightarrow> rune \<times> nat" where
  "utf16RuneAt b little =
     (if length b < 2 then (RuneError, length b)
      else let r = (if little then bv (b ! 0) + 256 * bv (b ! 1) else 256 * bv (b ! 0) + bv (b ! 1))
           in if 0xD800 \<le> r \<and> r \<le> 0xDFFF then (RuneError, 2) else (r, 2))"

text \<open>The first of 1 to 4 bytes that decode to exactly one rune other than U+FFFD.\<close>

fun tryWidths :: "codec \<Rightarrow> Encoding \<Rightarrow> string \<Rightarrow> nat list \<Rightarrow> rune \<times> nat" where
  "tryWidths cod e b [] = (RuneError, 1)"
| "tryWidths cod e b (n # ns) =
     (case cod e (take n b) of None \<Rightarrow> tryWidths cod e b ns
      | Some d \<Rightarrow> case DecodeRune d of (r, k) \<Rightarrow>
          if k = length d \<and> r \<noteq> RuneError then (r, n) else tryWidths cod e b ns)"

definition runeAt :: "codec \<Rightarrow> string \<Rightarrow> Encoding \<Rightarrow> nat \<Rightarrow> nat \<Rightarrow> rune \<times> nat" where
  "runeAt cod d e i limit =
     (let b = slice d i limit
      in if length b = 0 then (RuneError, 0)
         else if e = UTF16LE \<or> e = UTF16BE then utf16RuneAt b (e = UTF16LE)
         else if bv (b ! 0) < 0x80 then (bv (b ! 0), 1)
         else if e = UTF8 then DecodeRune b
         else tryWidths cod e b [1..<Suc (min 4 (length b))])"

lemma tryWidths_width: "\<forall>n \<in> set ns. 0 < n \<and> n \<le> m \<Longrightarrow> 1 \<le> m \<Longrightarrow>
    0 < snd (tryWidths cod e b ns) \<and> snd (tryWidths cod e b ns) \<le> m"
  by (induction ns) (auto split: option.splits prod.splits)

lemma runeAt_width:
  assumes "i < limit" "limit \<le> length d"
  shows "0 < snd (runeAt cod d e i limit) \<and> i + snd (runeAt cod d e i limit) \<le> limit"
proof -
  let ?b = "slice d i limit"
  have l: "length ?b = limit - i" using assms by (simp add: slice_def)
  then have b: "0 < length ?b" "?b \<noteq> []" using assms by auto
  have 1: "0 < snd (utf16RuneAt ?b little) \<and> snd (utf16RuneAt ?b little) \<le> length ?b" for little
    using b by (auto simp: utf16RuneAt_def Let_def)
  have 2: "0 < snd (DecodeRune ?b) \<and> snd (DecodeRune ?b) \<le> length ?b" by (rule DecodeRune_width [OF b(2)])
  have 3: "0 < snd (tryWidths cod e ?b [1..<Suc (min 4 (length ?b))])
      \<and> snd (tryWidths cod e ?b [1..<Suc (min 4 (length ?b))]) \<le> length ?b"
    by (rule tryWidths_width) (use b in \<open>auto simp: Suc_le_eq\<close>)
  have "0 < snd (runeAt cod d e i limit) \<and> snd (runeAt cod d e i limit) \<le> length ?b"
    using 1 2 3 b(1) by (auto simp: runeAt_def Let_def)
  then show ?thesis using l assms by auto
qed

subsection \<open>The text of an event\<close>

definition lineBreak :: "codec \<Rightarrow> Cues \<Rightarrow> nat \<Rightarrow> rune \<Rightarrow> nat \<Rightarrow> nat \<Rightarrow> nat" where
  "lineBreak cod c i r n limit =
     (let nxt = runeAt cod (doc c) (enc c) (i + n) limit
      in if format c = SRT \<and> r = 0x0A then n
         else if format c = SRT \<and> r = 0x0D then (if fst nxt = 0x0A then n + snd nxt else n)
         else if format c \<noteq> SRT \<and> r = 0x5C \<and> fst nxt = 0x4E then n + snd nxt
         else 0)"

function blockEnd :: "codec \<Rightarrow> Cues \<Rightarrow> nat \<Rightarrow> nat \<Rightarrow> nat option" where
  "blockEnd cod c i limit =
     (if i < limit \<and> limit \<le> length (doc c)
      then case runeAt cod (doc c) (enc c) i limit of (r, n) \<Rightarrow>
             if r = 0x7D then Some (i + n) else blockEnd cod c (i + n) limit
      else None)"
  by pat_completeness auto
termination
proof (relation "measure (\<lambda>(cod, c, i, limit). limit - i)", goal_cases)
  case (2 cod c i limit r n)
  then show ?case using runeAt_width [of i limit "doc c" cod "enc c"] by (auto simp: prod_eq_iff)
qed simp

declare blockEnd.simps [simp del]

lemma blockEnd_bounds: "blockEnd cod c i limit = Some j \<Longrightarrow> i < j \<and> j \<le> limit"
proof (induction cod c i limit rule: blockEnd.induct)
  case (1 cod c i limit)
  have g: "i < limit" "limit \<le> length (doc c)" using "1.prems" by (subst (asm) blockEnd.simps, simp split: if_splits)+
  obtain r n where r: "runeAt cod (doc c) (enc c) i limit = (r, n)" by (metis surj_pair)
  then have n: "0 < n" "i + n \<le> limit" using runeAt_width [OF g, of cod "enc c"] by simp_all
  show ?case
  proof (cases "r = 0x7D")
    case True
    then show ?thesis using "1.prems" g r n by (subst (asm) blockEnd.simps) simp
  next
    case False
    then have "blockEnd cod c (i + n) limit = Some j" using "1.prems" g r by (subst (asm) blockEnd.simps) simp
    then show ?thesis using "1.IH" [OF _ r [symmetric]] g False n by auto
  qed
qed

fun mergeKept :: "span list \<Rightarrow> kept list \<Rightarrow> span list \<Rightarrow> span list" where
  "mergeKept ks [] [] = ks"
| "mergeKept ks (r # rs) [] = mergeKept (ks @ [\<lparr>sfrom = kfrom r, sto = kto r\<rparr>]) rs []"
| "mergeKept ks [] (b # bs) = mergeKept (ks @ [b]) [] bs"
| "mergeKept ks (r # rs) (b # bs) =
     (if kfrom r < sfrom b then mergeKept (ks @ [\<lparr>sfrom = kfrom r, sto = kto r\<rparr>]) rs (b # bs)
      else mergeKept (ks @ [b]) (r # rs) bs)"

record cleaning =
  ckept :: "span list"
  ctextual :: bool
  cblocks :: "span list"
  csep :: span
  clines :: nat
  cnoClose :: bool
  cscan :: lineScan

definition endLine :: "textRules \<Rightarrow> cleaning \<Rightarrow> cleaning" where
  "endLine rs st =
     (case finish (cscan st) of (s, ok, txt) \<Rightarrow>
        st\<lparr>ckept := mergeKept (ckept st @ (if ok \<and> 0 < clines st then [csep st] else []))
                     (if ok then runs s else []) (cblocks st),
           clines := (if ok then clines st + 1 else clines st),
           ctextual := ctextual st \<or> (ok \<and> txt),
           cblocks := [], cscan := reset rs\<rparr>)"

text \<open>One turn of \<open>cleanText\<close>'s loop at \<open>i\<close>: the new state and the bytes consumed.\<close>

definition cleanStep :: "codec \<Rightarrow> Cues \<Rightarrow> textRules \<Rightarrow> nat \<Rightarrow> nat \<Rightarrow> cleaning \<Rightarrow> cleaning \<times> nat" where
  "cleanStep cod c rs limit i st =
     (case runeAt cod (doc c) (enc c) i limit of (r, n) \<Rightarrow>
        let ass = (format c \<noteq> SRT); k = lineBreak cod c i r n limit in
        if 0 < k then ((endLine rs st)\<lparr>csep := \<lparr>sfrom = i, sto = i + k\<rparr>\<rparr>, k)
        else if ass \<and> r = 0x5C \<and> i + n < limit then
          let m = n + snd (runeAt cod (doc c) (enc c) (i + n) limit)
          in (st\<lparr>cscan := feed (cscan st) r i m\<rparr>, m)
        else if ass \<and> r = 0x7B \<and> \<not> cnoClose st then
          (case blockEnd cod c (i + n) limit of
             Some e \<Rightarrow> (st\<lparr>cblocks := cblocks st @ [\<lparr>sfrom = i, sto = e\<rparr>]\<rparr>, e - i)
           | None \<Rightarrow> (st\<lparr>cnoClose := True, cscan := feed (cscan st) r i n\<rparr>, n))
        else (st\<lparr>cscan := feed (cscan st) r i n\<rparr>, n))"

lemma lineBreak_width:
  assumes "i < limit" "limit \<le> length (doc c)" "runeAt cod (doc c) (enc c) i limit = (r, n)"
  shows "i + lineBreak cod c i r n limit \<le> limit \<and> (0 < lineBreak cod c i r n limit \<longrightarrow> 0 < n)"
proof -
  have n: "0 < n" "i + n \<le> limit" using runeAt_width [OF assms(1,2), of cod "enc c"] assms(3) by simp_all
  have "i + n + snd (runeAt cod (doc c) (enc c) (i + n) limit) \<le> limit"
  proof (cases "i + n < limit")
    case True
    then show ?thesis using runeAt_width [OF True assms(2), of cod "enc c"] by (simp add: add.assoc)
  next
    case False
    then have "slice (doc c) (i + n) limit = []" by (simp add: slice_def)
    then show ?thesis using n by (simp add: runeAt_def)
  qed
  then show ?thesis using n by (simp add: lineBreak_def Let_def)
qed

lemma cleanStep_width:
  assumes "i < limit" "limit \<le> length (doc c)"
  shows "0 < snd (cleanStep cod c rs limit i st) \<and> i + snd (cleanStep cod c rs limit i st) \<le> limit"
proof -
  obtain r n where r: "runeAt cod (doc c) (enc c) i limit = (r, n)" by (metis surj_pair)
  have n: "0 < n" "i + n \<le> limit" using runeAt_width [OF assms, of cod "enc c"] r by simp_all
  note k = lineBreak_width [OF assms r]
  have m: "i + n < limit \<Longrightarrow> i + (n + snd (runeAt cod (doc c) (enc c) (i + n) limit)) \<le> limit"
    using runeAt_width [of "i + n" limit "doc c" cod "enc c"] assms(2) by simp
  have b: "blockEnd cod c (i + n) limit = Some e \<Longrightarrow> i < e \<and> e \<le> limit" for e
    using blockEnd_bounds [of cod c "i + n" limit e] by simp
  show ?thesis using n k m by (auto simp: cleanStep_def r Let_def dest!: b split: option.split)
qed

function cleanFrom :: "codec \<Rightarrow> Cues \<Rightarrow> textRules \<Rightarrow> nat \<Rightarrow> nat \<Rightarrow> cleaning \<Rightarrow> cleaning" where
  "cleanFrom cod c rs limit i st =
     (if i < limit \<and> limit \<le> length (doc c)
      then cleanFrom cod c rs limit (i + snd (cleanStep cod c rs limit i st)) (fst (cleanStep cod c rs limit i st))
      else st)"
  by pat_completeness auto
termination
proof (relation "measure (\<lambda>(cod, c, rs, limit, i, st). limit - i)", goal_cases)
  case (2 cod c rs limit i st)
  then show ?case using cleanStep_width [of i limit c cod rs st] by auto
qed simp

declare cleanFrom.simps [simp del]

definition cleanInit :: "textRules \<Rightarrow> cleaning" where
  "cleanInit rs = \<lparr>ckept = [], ctextual = False, cblocks = [], csep = noSpan, clines = 0, cnoClose = False,
     cscan = reset rs\<rparr>"

record cleaned =
  kspans :: "span list"
  ktext :: bool

definition cleanText :: "codec \<Rightarrow> Cues \<Rightarrow> span \<Rightarrow> textRules \<Rightarrow> cleaned" where
  "cleanText cod c t rs =
     (let st = endLine rs (cleanFrom cod c rs (sto t) (sfrom t) (cleanInit rs))
      in \<lparr>kspans = ckept st, ktext = ctextual st\<rparr>)"

subsection \<open>The document\<close>

definition rulesOf :: "CleanOptions \<Rightarrow> textRules" where
  "rulesOf o' = \<lparr>hi = oStripHI o', tags = oStripTags o', blanks = oCleanWhitespace o'\<rparr>"

fun docSlices :: "string \<Rightarrow> span list \<Rightarrow> string option" where
  "docSlices d [] = Some []"
| "docSlices d (k # ks) =
     (case docSlice d (sfrom k) (sto k) of None \<Rightarrow> None
      | Some s \<Rightarrow> map_option (\<lambda>rest. s @ rest) (docSlices d ks))"

text \<open>The second loop of \<open>edit\<close>; \<open>None\<close> is a slice out of range.\<close>

fun editEvents :: "Cues \<Rightarrow> bool \<Rightarrow> (cue \<times> cleaned) list \<Rightarrow> nat \<Rightarrow> nat \<Rightarrow> string option" where
  "editEvents c renumber [] pos n = docSlice (doc c) pos (length (doc c))"
| "editEvents c renumber ((e, k) # es) pos n =
     (if renumber \<and> \<not> ktext k
      then case docSlice (doc c) pos (sfrom (cblock e)) of None \<Rightarrow> None
           | Some gap \<Rightarrow> map_option (\<lambda>rest. gap @ rest) (editEvents c renumber es (sto (cblock e)) n)
      else
        case (if renumber \<and> sfrom (cindex e) < sto (cindex e)
              then map_option (\<lambda>gap. (appendASCII gap (dec (n + 1)) (enc c), sto (cindex e)))
                     (docSlice (doc c) pos (sfrom (cindex e)))
              else Some ([], pos)) of
          None \<Rightarrow> None
        | Some (head, pos1) \<Rightarrow>
            case docSlice (doc c) pos1 (sfrom (ctext e)) of None \<Rightarrow> None
            | Some gap \<Rightarrow>
                case docSlices (doc c) (kspans k) of None \<Rightarrow> None
                | Some kept' \<Rightarrow>
                    map_option (\<lambda>rest. head @ gap @ kept' @ rest)
                      (editEvents c renumber es (sto (ctext e)) (n + 1)))"

definition edit :: "codec \<Rightarrow> Cues \<Rightarrow> CleanOptions \<Rightarrow> string option" where
  "edit cod c o' =
     (let rs = rulesOf o'
      in if rs = \<lparr>hi = False, tags = False, blanks = False\<rparr> \<and> \<not> oRemoveEmpty o' then Some (doc c)
         else
           let ks = map (\<lambda>e. cleanText cod c (ctext e) rs) (events c);
               renumber = list_ex (\<lambda>k. oRemoveEmpty o' \<and> \<not> ktext k) ks
           in editEvents c renumber (zip (events c) ks) 0 0)"

definition bomOf :: "Encoding \<Rightarrow> string option" where
  "bomOf e = (if e = UTF8 then Some bomUTF8 else if e = UTF16LE then Some bomUTF16LE
     else if e = UTF16BE then Some bomUTF16BE else None)"

definition toUTF8 :: "codec \<Rightarrow> string \<Rightarrow> Encoding \<Rightarrow> string \<times> Encoding" where
  "toUTF8 cod d e =
     (let body = (case bomOf e of None \<Rightarrow> d
                  | Some bom \<Rightarrow> case cut_prefix bom d of Some r \<Rightarrow> r | None \<Rightarrow> d)
      in if e = UTF8 then (body, e)
         else case cod e body of None \<Rightarrow> (d, e) | Some t \<Rightarrow> (t, UTF8))"

text \<open>The loop of \<open>crlf\<close> at \<open>i\<close>; \<open>ended\<close> is whether the last rune ended a line.\<close>

function crlfFrom :: "codec \<Rightarrow> string \<Rightarrow> Encoding \<Rightarrow> nat \<Rightarrow> bool \<Rightarrow> string" where
  "crlfFrom cod d e i ended =
     (if i < length d
      then case runeAt cod d e i (length d) of (r, n) \<Rightarrow>
        if r = 0x0D \<or> r = 0x0A then
          let nxt = runeAt cod d e (i + n) (length d);
              m = (if r = 0x0D \<and> fst nxt = 0x0A then n + snd nxt else n)
          in appendASCII [] [CR, LF] e @ crlfFrom cod d e (i + m) True
        else slice d i (i + n) @ crlfFrom cod d e (i + n) False
      else if ended then [] else appendASCII [] [CR, LF] e)"
  by pat_completeness auto
termination
proof (relation "measure (\<lambda>(cod, d, e, i, ended). length d - i)", goal_cases)
  case (2 cod d e i ended r n nxt m)
  then show ?case using runeAt_width [of i "length d" d cod e] by (auto simp: prod_eq_iff)
next
  case (3 cod d e i ended r n)
  then show ?case using runeAt_width [of i "length d" d cod e] by (auto simp: prod_eq_iff)
qed simp

declare crlfFrom.simps [simp del]

definition crlf :: "codec \<Rightarrow> string \<Rightarrow> Encoding \<Rightarrow> string" where
  "crlf cod d e = crlfFrom cod d e 0 True"

datatype clean_outcome = Cleaned Cues | NoCues | CleanRefused parse_error | CleanPanic

text \<open>\<^verbatim>\<open>Cues.decode\<close>: bytes the encoding cannot read are shown as UTF-8.\<close>

definition decodeText :: "codec \<Rightarrow> Encoding \<Rightarrow> string \<Rightarrow> string" where
  "decodeText cod e b = (case cod e b of Some d \<Rightarrow> d | None \<Rightarrow> ToValidUTF8 b (EncodeRune RuneError))"

definition Clean :: "codec \<Rightarrow> (string \<Rightarrow> Encoding) \<Rightarrow> Cues \<Rightarrow> CleanOptions \<Rightarrow> clean_outcome" where
  "Clean cod detect c o' =
     (if format c = NoFormat then NoCues
      else case (if detect (doc c) \<noteq> enc c then parse (decodeText cod) (doc c) (detect (doc c)) else Inr c) of
        Inl err \<Rightarrow> CleanRefused err
      | Inr c1 \<Rightarrow>
          case edit cod c1 o' of None \<Rightarrow> CleanPanic
          | Some d0 \<Rightarrow>
              case (if oNormalizeUTF8 o' then toUTF8 cod d0 (enc c1) else (d0, enc c1)) of (d1, e) \<Rightarrow>
                let d2 = (if oNormalizeLineEndings o' then crlf cod d1 e else d1)
                in case checkSize d2 maxDocumentBytes of Some err \<Rightarrow> CleanRefused err
                   | None \<Rightarrow> (case parse (decodeText cod) d2 e of Inl err \<Rightarrow> CleanRefused err | Inr c2 \<Rightarrow> Cleaned c2))"

end
