(* ===== verification/CleanFacts.thy ===== *)
theory CleanFacts
  imports Clean
begin

text \<open>
  The spans internal/timing/clean.go keeps of an event's text are in order and inside it, so \<open>edit\<close> never
  slices out of range and, unless it removes events, only deletes bytes; and \<open>crlf\<close> on UTF-8 is the
  line-by-line specification.
\<close>

subsection \<open>Spans in order\<close>

fun spansIn :: "nat \<Rightarrow> span list \<Rightarrow> nat \<Rightarrow> bool" where
  "spansIn a [] b \<longleftrightarrow> a \<le> b"
| "spansIn a (s # ss) b \<longleftrightarrow> a \<le> sfrom s \<and> sfrom s < sto s \<and> spansIn (sto s) ss b"

lemma spansIn_le: "spansIn a ss b \<Longrightarrow> a \<le> b"
  by (induction ss arbitrary: a) fastforce+

lemma spansIn_mono: "spansIn a ss b \<Longrightarrow> b \<le> c \<Longrightarrow> spansIn a ss c"
  by (induction ss arbitrary: a) auto

lemma spansIn_start: "spansIn c ss b \<Longrightarrow> a \<le> c \<Longrightarrow> spansIn a ss b"
  by (cases ss) auto

lemma spansIn_append: "spansIn a (ss @ ts) b \<longleftrightarrow> (\<exists>c. spansIn a ss c \<and> spansIn c ts b)"
  by (induction ss arbitrary: a) (auto intro: spansIn_start)

lemma spansIn_snoc: "spansIn a (ss @ [s]) b \<longleftrightarrow> spansIn a ss (sfrom s) \<and> sfrom s < sto s \<and> sto s \<le> b"
  by (auto simp: spansIn_append intro: spansIn_mono)

definition runSpan :: "kept \<Rightarrow> span" where
  "runSpan k = \<lparr>sfrom = kfrom k, sto = kto k\<rparr>"

lemma runSpan_simps [simp]: "sfrom (runSpan k) = kfrom k" "sto (runSpan k) = kto k"
  by (simp_all add: runSpan_def)

definition apart :: "span \<Rightarrow> span \<Rightarrow> bool" where
  "apart s t \<longleftrightarrow> sto s \<le> sfrom t \<or> sto t \<le> sfrom s"

definition itemSpan :: "item \<Rightarrow> span" where
  "itemSpan k = (case k of (r, src, n) \<Rightarrow> \<lparr>sfrom = src, sto = src + n\<rparr>)"

text \<open>The runs of a scan cover its items and nothing else.\<close>

lemma addRun_spans:
  assumes "spansIn a (map runSpan ks) src" "0 < n"
    and "\<forall>k \<in> set ks. apart (runSpan k) b" "apart \<lparr>sfrom = src, sto = src + n\<rparr> b" "sfrom b < sto b"
  shows "\<forall>k \<in> set (addRun ks out src n). apart (runSpan k) b"
proof (cases "ks \<noteq> [] \<and> kto (last ks) = src")
  case False
  then have "addRun ks out src n = ks @ [\<lparr>koutFrom = out, kfrom = src, kto = src + n\<rparr>]" by (auto simp: addRun_def)
  then show ?thesis using assms(3,4) by (simp add: runSpan_def)
next
  case True
  then obtain xs l where ks: "ks = xs @ [l]" by (cases ks rule: rev_cases) auto
  have l: "src = kto l" using True by (simp add: ks)
  have r: "addRun (xs @ [l]) out (kto l) n = xs @ [l\<lparr>kto := kto l + n\<rparr>]" by (simp add: addRun_def)
  have "apart (runSpan (l\<lparr>kto := kto l + n\<rparr>)) b" using assms(3-5) by (auto simp: apart_def ks l)
  then show ?thesis using assms(3) by (simp add: r ks l)
qed

lemma addRun_spansIn:
  assumes "spansIn a (map runSpan ks) src" "0 < n"
  shows "spansIn a (map runSpan (addRun ks out src n)) (src + n)"
proof (cases "ks \<noteq> [] \<and> kto (last ks) = src")
  case False
  then have "addRun ks out src n = ks @ [\<lparr>koutFrom = out, kfrom = src, kto = src + n\<rparr>]" by (auto simp: addRun_def)
  then show ?thesis using assms by (simp add: spansIn_snoc)
next
  case True
  then obtain xs l where ks: "ks = xs @ [l]" by (cases ks rule: rev_cases) auto
  then have "addRun ks out src n = xs @ [l\<lparr>kto := kto l + n\<rparr>]" "src = kto l" using True by (simp_all add: addRun_def)
  then show ?thesis using assms by (simp add: spansIn_snoc ks)
qed

definition itemsPos :: "item list \<Rightarrow> bool" where
  "itemsPos ks \<longleftrightarrow> list_all (\<lambda>(r, src, n). 0 < n) ks"

lemma runs_spansIn:
  "srcs_ok a ks b \<Longrightarrow> itemsPos ks \<Longrightarrow> spansIn a (map runSpan (runs (scanOf rs ks))) b"
proof (induction ks arbitrary: b rule: rev_induct)
  case (snoc k ks)
  obtain r src n where k: "k = (r, src, n)" by (cases k) auto
  have o: "srcs_ok a ks src" "src + n \<le> b" "itemsPos ks" "0 < n"
    using snoc.prems by (simp_all add: k srcs_ok_snoc itemsPos_def)
  from spansIn_mono [OF addRun_spansIn [OF snoc.IH [OF o(1,3)] o(4)] o(2)]
  show ?case by (simp add: k scanOf_snoc)
qed simp

lemma runs_apart:
  "srcs_ok a ks c \<Longrightarrow> itemsPos ks \<Longrightarrow> \<forall>k \<in> set ks. apart (itemSpan k) b \<Longrightarrow> sfrom b < sto b \<Longrightarrow>
   \<forall>k \<in> set (runs (scanOf rs ks)). apart (runSpan k) b"
proof (induction ks arbitrary: c rule: rev_induct)
  case (snoc k ks)
  obtain r src n where k: "k = (r, src, n)" by (cases k) auto
  have o: "srcs_ok a ks src" "itemsPos ks" "0 < n" "apart \<lparr>sfrom = src, sto = src + n\<rparr> b"
    "\<forall>k \<in> set ks. apart (itemSpan k) b"
    using snoc.prems by (simp_all add: k srcs_ok_snoc itemsPos_def itemSpan_def)
  have "\<forall>k \<in> set (runs (scanOf rs ks)). apart (runSpan k) b" by (rule snoc.IH [OF o(1,2,5) snoc.prems(4)])
  from addRun_spans [OF runs_spansIn [OF o(1,2)] o(3) this o(4) snoc.prems(4)]
  show ?case by (simp add: k scanOf_snoc)
qed simp

lemma mergeKept_spans:
  "spansIn lo ks a \<Longrightarrow> spansIn a (map runSpan rs) b \<Longrightarrow> spansIn a bs b \<Longrightarrow>
   \<forall>r \<in> set rs. \<forall>s \<in> set bs. apart (runSpan r) s \<Longrightarrow> spansIn lo (mergeKept ks rs bs) b"
proof (induction ks rs bs arbitrary: a rule: mergeKept.induct)
  case (1 ks)
  then show ?case using spansIn_mono by auto
next
  case (2 ks r rs)
  have "spansIn lo (ks @ [runSpan r]) (kto r)" using 2 spansIn_mono by (auto simp: spansIn_snoc)
  then show ?case using 2 by (simp add: runSpan_def) (metis runSpan_def runSpan_simps(2) spansIn.simps(1) spansIn_le)
next
  case (3 ks b' bs)
  have "spansIn lo (ks @ [b']) (sto b')" using 3 spansIn_mono by (auto simp: spansIn_snoc)
  then show ?case using "3.IH" [of "sto b'"] 3 by (auto dest: spansIn_le)
next
  case (4 ks r rs b' bs)
  have r: "a \<le> kfrom r" "kfrom r < kto r" "spansIn (kto r) (map runSpan rs) b"
    and s: "a \<le> sfrom b'" "sfrom b' < sto b'" "spansIn (sto b') bs b" and ap: "apart (runSpan r) b'"
    using "4.prems" by simp_all
  show ?case
  proof (cases "kfrom r < sfrom b'")
    case True
    then have "kto r \<le> sfrom b'" using ap s by (auto simp: apart_def)
    moreover have "spansIn lo (ks @ [runSpan r]) (kto r)" using r "4.prems"(1) spansIn_mono by (auto simp: spansIn_snoc)
    ultimately have "spansIn lo (mergeKept (ks @ [runSpan r]) rs (b' # bs)) b"
      using True r s "4.prems"(4) by (intro "4.IH"(1) [of "kto r", folded runSpan_def]) auto
    then show ?thesis using True by (simp add: runSpan_def)
  next
    case False
    then have "sto b' \<le> kfrom r" using ap r by (auto simp: apart_def)
    moreover have "spansIn lo (ks @ [b']) (sto b')" using s "4.prems"(1) spansIn_mono by (auto simp: spansIn_snoc)
    ultimately have "spansIn lo (mergeKept (ks @ [b']) (r # rs) bs) b"
      using False r s "4.prems"(4) by (intro "4.IH"(2) [of "sto b'"]) auto
    then show ?thesis using False by simp
  qed
qed

subsection \<open>The loop of \<open>cleanText\<close>\<close>

definition line_inv :: "textRules \<Rightarrow> nat \<Rightarrow> nat \<Rightarrow> cleaning \<Rightarrow> item list \<Rightarrow> bool" where
  "line_inv rs a i st ks \<longleftrightarrow> norm (cscan st) = scanOf rs ks \<and> srcs_ok a ks i \<and> itemsPos ks
     \<and> spansIn a (cblocks st) i \<and> (\<forall>k \<in> set ks. \<forall>b \<in> set (cblocks st). apart (itemSpan k) b)"

definition sepOf :: "cleaning \<Rightarrow> span list" where
  "sepOf st = (if 0 < clines st then [csep st] else [])"

definition clean_inv :: "textRules \<Rightarrow> nat \<Rightarrow> nat \<Rightarrow> cleaning \<Rightarrow> bool" where
  "clean_inv rs lo i st \<longleftrightarrow>
     (\<exists>a ks. spansIn lo (ckept st @ sepOf st) a \<and> line_inv rs a i st ks)"

lemma spansIn_all: "spansIn a ss b \<Longrightarrow> s \<in> set ss \<Longrightarrow> a \<le> sfrom s \<and> sfrom s < sto s \<and> sto s \<le> b"
proof (induction ss arbitrary: a)
  case (Cons t ss)
  show ?case
  proof (cases "s = t")
    case True
    then show ?thesis using Cons.prems spansIn_le by auto
  next
    case False
    then have "sto t \<le> sfrom s \<and> sfrom s < sto s \<and> sto s \<le> b" using Cons.IH [of "sto t"] Cons.prems False by simp
    then show ?thesis using Cons.prems(1) by simp
  qed
qed simp

lemma srcs_ok_item: "srcs_ok a ks b \<Longrightarrow> k \<in> set ks \<Longrightarrow> sto (itemSpan k) \<le> b"
proof (induction ks arbitrary: a)
  case (Cons l ks)
  obtain r src n where l: "l = (r, src, n)" by (cases l) auto
  show ?case using Cons srcs_ok_le [of "src + n" ks b] by (auto simp: l itemSpan_def)
qed simp

lemma feed_line_inv:
  assumes inv: "line_inv rs a i st ks" and n: "0 < n"
  shows "\<exists>ks'. line_inv rs a (i + n) (st\<lparr>cscan := feed (cscan st) r i n\<rparr>) ks'"
proof -
  have s: "norm (cscan st) = scanOf rs ks" "srcs_ok a ks i" "itemsPos ks" "spansIn a (cblocks st) i"
    "\<forall>k \<in> set ks. \<forall>b \<in> set (cblocks st). apart (itemSpan k) b"
    using inv by (simp_all add: line_inv_def)
  have b: "spansIn a (cblocks st) (i + n)" using s(4) spansIn_mono le_add1 by blast
  have m: "srcs_ok a ks (i + n)" using s(2) srcs_ok_mono le_add1 by blast
  from feed_prefix [OF s(1,2), of r i n] show ?thesis
  proof (elim disjE exE conjE)
    fix ks1 ks2
    assume k: "ks = ks1 @ ks2" "norm (feed (cscan st) r i n) = scanOf rs ks1"
    then have "srcs_ok a ks1 (i + n)" using m by (auto simp: srcs_ok_append intro: srcs_ok_mono [OF _ srcs_ok_le])
    then have "line_inv rs a (i + n) (st\<lparr>cscan := feed (cscan st) r i n\<rparr>) ks1"
      using k s b by (simp add: line_inv_def itemsPos_def)
    then show ?thesis by blast
  next
    assume k: "norm (feed (cscan st) r i n) = scanOf rs (ks @ [(r, i, n)])"
    have "\<forall>b \<in> set (cblocks st). apart (itemSpan (r, i, n)) b"
      using spansIn_all [OF s(4)] by (auto simp: apart_def itemSpan_def)
    then have "line_inv rs a (i + n) (st\<lparr>cscan := feed (cscan st) r i n\<rparr>) (ks @ [(r, i, n)])"
      using k s b n by (simp add: line_inv_def itemsPos_def srcs_ok_snoc)
    then show ?thesis by blast
  qed
qed

lemma feed_clean_inv:
  assumes "clean_inv rs lo i st" "0 < n"
  shows "clean_inv rs lo (i + n) (st\<lparr>cscan := feed (cscan st) r i n\<rparr>)"
proof -
  from assms(1) obtain a ks where k: "spansIn lo (ckept st @ sepOf st) a" "line_inv rs a i st ks"
    unfolding clean_inv_def by blast
  from feed_line_inv [OF k(2) assms(2), of r] obtain ks' where
    "line_inv rs a (i + n) (st\<lparr>cscan := feed (cscan st) r i n\<rparr>) ks'" by blast
  moreover have "spansIn lo (ckept (st\<lparr>cscan := feed (cscan st) r i n\<rparr>)
      @ sepOf (st\<lparr>cscan := feed (cscan st) r i n\<rparr>)) a" using k(1) by (simp add: sepOf_def split: if_splits)
  ultimately show ?thesis unfolding clean_inv_def by blast
qed

lemma clean_inv_noClose: "clean_inv rs lo i (st\<lparr>cnoClose := x\<rparr>) = clean_inv rs lo i st"
  by (simp add: clean_inv_def line_inv_def sepOf_def)

lemma block_clean_inv:
  assumes "clean_inv rs lo i st" "i < e"
  shows "clean_inv rs lo e (st\<lparr>cblocks := cblocks st @ [\<lparr>sfrom = i, sto = e\<rparr>]\<rparr>)"
proof -
  from assms(1) obtain a ks where k: "spansIn lo (ckept st @ sepOf st) a" "line_inv rs a i st ks"
    unfolding clean_inv_def by blast
  then have s: "srcs_ok a ks i" "spansIn a (cblocks st) i" by (simp_all add: line_inv_def)
  have "\<forall>k \<in> set ks. apart (itemSpan k) \<lparr>sfrom = i, sto = e\<rparr>"
    using srcs_ok_item [OF s(1)] by (simp add: apart_def)
  then have "line_inv rs a e (st\<lparr>cblocks := cblocks st @ [\<lparr>sfrom = i, sto = e\<rparr>]\<rparr>) ks"
    using k(2) s assms(2) srcs_ok_mono [of a ks i e] by (auto simp: line_inv_def spansIn_snoc)
  then show ?thesis using k(1) by (auto simp: clean_inv_def sepOf_def)
qed

lemma reset_line_inv: "a \<le> i \<Longrightarrow> cscan st = reset rs \<Longrightarrow> cblocks st = [] \<Longrightarrow> line_inv rs a i st []"
  using scanOf_fields(5) [of rs "[]"] by (simp add: line_inv_def itemsPos_def)

lemma endLine_spans:
  assumes "clean_inv rs lo i st"
  shows "spansIn lo (ckept (endLine rs st)) i"
proof -
  from assms obtain a ks where k: "spansIn lo (ckept st @ sepOf st) a" and inv: "line_inv rs a i st ks"
    unfolding clean_inv_def by blast
  have s: "norm (cscan st) = scanOf rs ks" "srcs_ok a ks i" "itemsPos ks" "spansIn a (cblocks st) i"
    "\<forall>k \<in> set ks. \<forall>b \<in> set (cblocks st). apart (itemSpan k) b"
    using inv by (simp_all add: line_inv_def)
  obtain ks1 ks2 s2 t where f: "ks = ks1 @ ks2" "finish (cscan st) = (s2, keepLine rs (map fst ks1), t)"
      "runs s2 = runs (scanOf rs ks1)"
    using finish_spec [OF s(1,2)] by (elim exE conjE)
  have s1: "srcs_ok a ks1 i" "itemsPos ks1"
    using s(2,3) srcs_ok_mono srcs_ok_le by (fastforce simp: f(1) srcs_ok_append itemsPos_def)+
  have r: "spansIn a (map runSpan (runs s2)) i" unfolding f(3) by (rule runs_spansIn [OF s1])
  have ap: "\<forall>r \<in> set (runs s2). \<forall>b \<in> set (cblocks st). apart (runSpan r) b"
  proof (intro ballI)
    fix r b
    assume rb: "r \<in> set (runs s2)" "b \<in> set (cblocks st)"
    have "\<forall>k \<in> set ks1. apart (itemSpan k) b" using s(5) rb(2) by (simp add: f(1))
    then show "apart (runSpan r) b"
      using runs_apart [OF s1, of b rs] spansIn_all [OF s(4) rb(2)] rb(1) f(3) by simp
  qed
  have ka: "spansIn lo (ckept st) a" using k by (auto simp: spansIn_append intro: spansIn_mono [OF _ spansIn_le])
  show ?thesis
  proof (cases "keepLine rs (map fst ks1)")
    case True
    then have "ckept (endLine rs st) = mergeKept (ckept st @ sepOf st) (runs s2) (cblocks st)"
      by (simp add: endLine_def f(2) sepOf_def)
    then show ?thesis using mergeKept_spans [OF k r s(4) ap] by simp
  next
    case False
    then have "ckept (endLine rs st) = mergeKept (ckept st) [] (cblocks st)" by (simp add: endLine_def f(2))
    then show ?thesis using mergeKept_spans [OF ka, of "[]" i "cblocks st"] s(4) spansIn_le by auto
  qed
qed

lemma endLine_clean_inv:
  assumes "clean_inv rs lo i st" "0 < k"
  shows "clean_inv rs lo (i + k) ((endLine rs st)\<lparr>csep := \<lparr>sfrom = i, sto = i + k\<rparr>\<rparr>)"
proof -
  let ?st = "(endLine rs st)\<lparr>csep := \<lparr>sfrom = i, sto = i + k\<rparr>\<rparr>"
  have e: "cscan ?st = reset rs" "cblocks ?st = []" by (simp_all add: endLine_def split: prod.split)
  have "spansIn lo (ckept ?st @ sepOf ?st) (i + k)"
    using endLine_spans [OF assms(1)] assms(2) spansIn_mono by (auto simp: sepOf_def spansIn_snoc)
  then show ?thesis using reset_line_inv [OF le_refl e] by (auto simp: clean_inv_def)
qed

lemma cleanStep_inv:
  assumes i: "i < limit" "limit \<le> length (doc c)" and inv: "clean_inv rs lo i st"
  shows "clean_inv rs lo (i + snd (cleanStep cod c rs limit i st)) (fst (cleanStep cod c rs limit i st))"
proof -
  obtain r n where r: "runeAt cod (doc c) (enc c) i limit = (r, n)" by (metis surj_pair)
  have n: "0 < n" using runeAt_width [OF i, of cod "enc c"] r by simp
  have b: "blockEnd cod c (i + n) limit = Some e \<Longrightarrow> i < e" for e
    using blockEnd_bounds [of cod c "i + n" limit e] by simp
  have nc: "clean_inv rs lo (i + n) (st\<lparr>cnoClose := True, cscan := feed (cscan st) r i n\<rparr>)"
    using feed_clean_inv [OF clean_inv_noClose [THEN iffD2, OF inv] n, of True r] by simp
  have m: "0 < n + x" for x using n by simp
  show ?thesis
    using feed_clean_inv [OF inv] n m nc endLine_clean_inv [OF inv] block_clean_inv [OF inv] b
    by (auto simp: cleanStep_def r Let_def less_imp_le split: option.split)
qed

lemma cleanFrom_inv:
  "clean_inv rs lo i st \<Longrightarrow> i \<le> limit \<Longrightarrow> limit \<le> length (doc c) \<Longrightarrow>
   clean_inv rs lo limit (cleanFrom cod c rs limit i st)"
proof (induction cod c rs limit i st rule: cleanFrom.induct)
  case (1 cod c rs limit i st)
  show ?case
  proof (cases "i < limit")
    case True
    have "clean_inv rs lo (i + snd (cleanStep cod c rs limit i st)) (fst (cleanStep cod c rs limit i st))"
      by (rule cleanStep_inv [OF True "1.prems"(3,1)])
    then show ?thesis
      using "1.IH" True "1.prems" cleanStep_width [OF True "1.prems"(3)] by (subst cleanFrom.simps) simp
  next
    case False
    then show ?thesis using 1 by (subst cleanFrom.simps) simp
  qed
qed

lemma cleanText_spans:
  assumes "sfrom t \<le> sto t" "sto t \<le> length (doc c)"
  shows "spansIn (sfrom t) (kspans (cleanText cod c t rs)) (sto t)"
proof -
  have "line_inv rs (sfrom t) (sfrom t) (cleanInit rs) []" by (rule reset_line_inv) (simp_all add: cleanInit_def)
  then have "clean_inv rs (sfrom t) (sfrom t) (cleanInit rs)"
    by (intro exI [of _ "sfrom t"] exI [of _ "[]"] conjI clean_inv_def [THEN iffD2]) (simp_all add: cleanInit_def sepOf_def)
  from endLine_spans [OF cleanFrom_inv [OF this assms]] show ?thesis by (simp add: cleanText_def Let_def)
qed

subsection \<open>Editing\<close>

lemma slice_split:
  assumes "a \<le> b" "b \<le> c" shows "slice d a c = slice d a b @ slice d b c"
proof -
  have "c - a = (b - a) + (c - b)" "drop (b - a) (drop a d) = drop b d" using assms by simp_all
  then show ?thesis by (simp only: slice_def take_add)
qed

lemma drop_slice: "a \<le> b \<Longrightarrow> drop a d = slice d a b @ drop b d"
  using append_take_drop_id [of "b - a" "drop a d"] by (simp add: slice_def)

lemma docSlices_spans:
  "spansIn a ks b \<Longrightarrow> b \<le> length d \<Longrightarrow> \<exists>s. docSlices d ks = Some s \<and> subseq s (slice d a b)"
proof (induction ks arbitrary: a)
  case (Cons k ks)
  then obtain s where s: "docSlices d ks = Some s" "subseq s (slice d (sto k) b)" by auto
  have k: "a \<le> sfrom k" "sfrom k < sto k" "sto k \<le> b" using Cons.prems spansIn_le by auto
  then have "docSlice d (sfrom k) (sto k) = Some (slice d (sfrom k) (sto k))" using Cons.prems by (simp add: docSlice_def)
  moreover have "slice d a b = slice d a (sfrom k) @ slice d (sfrom k) (sto k) @ slice d (sto k) b"
    using k slice_split [of a "sfrom k" b d] slice_split [of "sfrom k" "sto k" b d] by simp
  ultimately show ?case using s by (simp add: list_emb_append2 list_emb_append_mono)
qed simp

lemma editEvents_total:
  assumes "events_wf lo (length (doc c)) (map fst es)" "pos \<le> lo"
    and "\<forall>(e, k) \<in> set es. spansIn (sfrom (ctext e)) (kspans k) (sto (ctext e))"
  shows "\<exists>out. editEvents c renumber es pos n = Some out \<and> (\<not> renumber \<longrightarrow> subseq out (drop pos (doc c)))"
  using assms
proof (induction es arbitrary: lo pos n)
  case Nil
  then show ?case by (simp add: docSlice_def slice_def)
next
  case (Cons ek es)
  obtain e k where ek: "ek = (e, k)" by (cases ek)
  let ?D = "length (doc c)"
  have w: "lo \<le> sfrom (cblock e)" "cue_wf e" "events_wf (sto (cblock e)) ?D (map fst es)"
    and sp: "spansIn (sfrom (ctext e)) (kspans k) (sto (ctext e))"
    and tl: "\<forall>(e, k) \<in> set es. spansIn (sfrom (ctext e)) (kspans k) (sto (ctext e))"
    using Cons.prems by (auto simp: ek)
  have o: "sfrom (cblock e) \<le> sfrom (ctext e)" "sfrom (ctext e) \<le> sto (ctext e)" "sto (ctext e) \<le> sto (cblock e)"
    "sto (cblock e) \<le> ?D" "sfrom (cindex e) < sto (cindex e) \<longrightarrow>
       sfrom (cblock e) \<le> sfrom (cindex e) \<and> sto (cindex e) \<le> sfrom (ctext e)"
    using w events_wf_le by (auto simp: cue_wf_def head_wf_def)
  have pos: "pos \<le> sfrom (cblock e)" using Cons.prems(2) w(1) by simp
  obtain s where s: "docSlices (doc c) (kspans k) = Some s" "subseq s (slice (doc c) (sfrom (ctext e)) (sto (ctext e)))"
    using docSlices_spans [OF sp, of "doc c"] o by auto
  obtain out where out: "editEvents c renumber es (sto (ctext e)) (n + 1) = Some out"
      "\<not> renumber \<longrightarrow> subseq out (drop (sto (ctext e)) (doc c))"
    using Cons.IH [OF w(3) o(3) tl] by blast
  obtain out' where out': "editEvents c renumber es (sto (cblock e)) n = Some out'"
    using Cons.IH [OF w(3) le_refl tl] by blast
  have g: "pos \<le> sfrom (ctext e)" "sfrom (ctext e) \<le> ?D" using o pos by auto
  have idx: "sfrom (cindex e) < sto (cindex e) \<Longrightarrow>
      docSlice (doc c) pos (sfrom (cindex e)) = Some (slice (doc c) pos (sfrom (cindex e)))
      \<and> docSlice (doc c) (sto (cindex e)) (sfrom (ctext e)) = Some (slice (doc c) (sto (cindex e)) (sfrom (ctext e)))"
    using o pos by (auto simp: docSlice_def)
  have gap: "docSlice (doc c) pos (sfrom (ctext e)) = Some (slice (doc c) pos (sfrom (ctext e)))"
    using g by (simp add: docSlice_def)
  have blk: "docSlice (doc c) pos (sfrom (cblock e)) = Some (slice (doc c) pos (sfrom (cblock e)))"
    using o pos by (simp add: docSlice_def)
  show ?case
  proof (cases renumber)
    case True
    then show ?thesis using s(1) out(1) out' idx gap blk by (auto simp: ek)
  next
    case False
    have "drop pos (doc c) = slice (doc c) pos (sfrom (ctext e)) @ slice (doc c) (sfrom (ctext e)) (sto (ctext e))
        @ drop (sto (ctext e)) (doc c)"
      using drop_slice [OF g(1)] drop_slice [OF o(2)] by metis
    then have "subseq (slice (doc c) pos (sfrom (ctext e)) @ s @ out) (drop pos (doc c))"
      using s(2) out(2) False by (simp add: list_emb_append_mono)
    then show ?thesis using False s(1) out(1) gap by (simp add: ek)
  qed
qed

lemma cleanTexts_spans:
  "events_wf lo (length (doc c)) es \<Longrightarrow>
   \<forall>(e, k) \<in> set (zip es (map (\<lambda>e. cleanText cod c (ctext e) rs) es)).
     spansIn (sfrom (ctext e)) (kspans k) (sto (ctext e))"
proof (induction es arbitrary: lo)
  case (Cons e es)
  have "sfrom (ctext e) \<le> sto (ctext e)" "sto (ctext e) \<le> length (doc c)"
    using Cons.prems events_wf_le by (fastforce simp: cue_wf_def)+
  from cleanText_spans [OF this] show ?case using Cons.IH [of "sto (cblock e)"] Cons.prems by simp
qed simp

subsection \<open>Line breaks\<close>

text \<open>The lines of a byte string: each ends at CR, LF or CRLF, or at the end of the string.\<close>

fun textLines :: "string \<Rightarrow> string list" where
  "textLines [] = []"
| "textLines (x # r) =
     (if x = LF then [] # textLines r
      else if x = CR then [] # (case r of [] \<Rightarrow> [] | y # r' \<Rightarrow> if y = LF then textLines r' else textLines r)
      else case textLines r of [] \<Rightarrow> [[x]] | l # ls \<Rightarrow> (x # l) # ls)"

definition crlfLines :: "string list \<Rightarrow> string" where
  "crlfLines ls = concat (map (\<lambda>l. l @ [CR, LF]) ls)"

lemma textLines_empty [simp]: "textLines s = [] \<longleftrightarrow> s = []"
  by (cases s) (auto split: list.splits)

lemma textLines_plain:
  "\<forall>x \<in> set w. x \<noteq> CR \<and> x \<noteq> LF \<Longrightarrow> w \<noteq> [] \<Longrightarrow>
   crlfLines (textLines (w @ r)) = w @ (if r = [] then [CR, LF] else crlfLines (textLines r))"
proof (induction w)
  case (Cons x w)
  show ?case
  proof (cases "w = []")
    case True
    then show ?thesis using Cons.prems by (cases "textLines r") (auto simp: crlfLines_def)
  next
    case False
    then have "textLines (w @ r) \<noteq> []" by simp
    then show ?thesis using Cons False by (cases "textLines (w @ r)") (auto simp: crlfLines_def)
  qed
qed simp

lemma textLines_no_breaks: "l \<in> set (textLines s) \<Longrightarrow> CR \<notin> set l \<and> LF \<notin> set l"
proof (induction s arbitrary: l rule: textLines.induct)
  case (2 x r)
  consider "x = LF" | "x = CR" "x \<noteq> LF" | "x \<noteq> CR" "x \<noteq> LF" by blast
  then show ?case
  proof cases
    case 1
    then show ?thesis using 2 by auto
  next
    case c: 2
    then show ?thesis using "2.IH"(2,3) "2.prems" by (cases r) (auto split: if_splits)
  next
    case 3
    then show ?thesis using "2.IH"(4) "2.prems" by (cases "textLines r") auto
  qed
qed simp

lemma textLines_crlfLines:
  "\<forall>l \<in> set ls. CR \<notin> set l \<and> LF \<notin> set l \<Longrightarrow> textLines (crlfLines ls) = ls"
proof (induction ls)
  case (Cons l ls)
  have "textLines (l @ CR # LF # s) = l # textLines s" if "CR \<notin> set l \<and> LF \<notin> set l" for l s
    using that by (induction l) (auto simp: CR_def LF_def)
  then show ?case using Cons by (simp add: crlfLines_def)
qed (simp add: crlfLines_def)

lemma EncodeRune_high: "0x80 \<le> r \<Longrightarrow> x \<in> set (EncodeRune r) \<Longrightarrow> 0x80 \<le> bv x"
proof -
  assume r: "0x80 \<le> r" and x: "x \<in> set (EncodeRune r)"
  have 2: "r div 64 < 32" if "r < 0x800" using that by simp
  have 3: "r div 4096 < 16" if "r < 0x10000" using that by simp
  have 4: "r div 262144 < 8" if "scalar r" using that by (auto simp: scalar_def)
  have m: "128 + q mod 64 < 256" for q :: nat using mod_less_divisor [of 64 q] by linarith
  show ?thesis using r x 2 3 4 m by (auto simp: EncodeRune_def split: if_splits)
qed

lemma bv_breaks [simp]: "bv CR = 13" "bv LF = 10"
  by (simp_all add: bv_def CR_def LF_def)

lemma bv_inject: "bv x = bv y \<Longrightarrow> x = y"
  by (simp add: bv_def)

lemma runeAt_UTF8:
  assumes "i < length d" "runeAt cod d UTF8 i (length d) = (r, n)"
  shows "(r = bv (d ! i) \<and> n = 1) \<or>
    (r \<noteq> 10 \<and> r \<noteq> 13 \<and> 0 < n \<and> 0x80 \<le> bv (d ! i) \<and> (\<forall>x \<in> set (take n (drop i d)). x \<noteq> CR \<and> x \<noteq> LF))"
proof -
  have s: "slice d i (length d) = drop i d" by (simp add: slice_def)
  have ne: "drop i d \<noteq> []" "drop i d ! 0 = d ! i" using assms(1) by simp_all
  show ?thesis
  proof (cases "bv (d ! i) < 0x80")
    case True
    then show ?thesis using assms(2) ne by (simp add: runeAt_def s Let_def)
  next
    case False
    then have dr: "DecodeRune (drop i d) = (r, n)" using assms(2) ne by (simp add: runeAt_def s Let_def)
    have n: "0 < n" using DecodeRune_width [OF ne(1)] dr by simp
    have high: "0x80 \<le> r \<and> (\<forall>x \<in> set (take n (drop i d)). 0x80 \<le> bv x)"
    proof (cases "r = RuneError \<and> n = 1")
      case True
      then have "take n (drop i d) = [d ! i]" using assms(1) by (simp add: take_Suc hd_drop_conv_nth)
      then show ?thesis using True False by (simp add: RuneError_def)
    next
      case v: False
      have e: "scalar r" "take n (drop i d) = EncodeRune r" using DecodeRune_valid [OF ne(1) dr v] by simp_all
      have "0x80 \<le> r"
      proof (rule ccontr)
        assume a: "\<not> 0x80 \<le> r"
        then have "take n (drop i d) = [byte_char r]" using e(2) by (simp add: EncodeRune_def)
        then have "d ! i = byte_char r" using ne n by (metis hd_conv_nth hd_take list.sel(1))
        then show False using a False by simp
      qed
      then show ?thesis using EncodeRune_high e(2) by auto
    qed
    have "x \<noteq> CR \<and> x \<noteq> LF" if "0x80 \<le> bv x" for x using that by auto
    then show ?thesis using high n False by auto
  qed
qed

lemma crlfFrom_UTF8:
  "i \<le> length d \<Longrightarrow> crlfFrom cod d UTF8 i ended =
     (if i = length d \<and> \<not> ended then [CR, LF] else crlfLines (textLines (drop i d)))"
proof (induction "length d - i" arbitrary: i ended rule: less_induct)
  case less
  let ?run = "crlfFrom cod d UTF8"
  have brk: "appendASCII [] [CR, LF] UTF8 = [CR, LF]" by (simp add: appendASCII_def asciiUnit_def)
  show ?case
  proof (cases "i < length d")
    case False
    then show ?thesis using less.prems by (subst crlfFrom.simps) (simp add: brk crlfLines_def)
  next
    case True
    obtain r n where r: "runeAt cod d UTF8 i (length d) = (r, n)" by (metis surj_pair)
    have w: "0 < n" "i + n \<le> length d" using runeAt_width [OF True le_refl, of cod UTF8] r by simp_all
    have dc: "drop i d = d ! i # drop (i + 1) d" using True Cons_nth_drop_Suc [OF True] by simp
    from runeAt_UTF8 [OF True r] show ?thesis
    proof (elim disjE conjE)
      assume a: "r = bv (d ! i)" "n = 1"
      have cr: "r = 13 \<longleftrightarrow> d ! i = CR" and lf: "r = 10 \<longleftrightarrow> d ! i = LF"
        using a(1) bv_inject [of "d ! i" CR] bv_inject [of "d ! i" LF] by auto
      have ih: "?run (i + 1) e = (if i + 1 = length d \<and> \<not> e then [CR, LF] else crlfLines (textLines (drop (i + 1) d)))" for e
        using less.hyps [of "i + 1" e] True by simp
      consider "d ! i = LF" | "d ! i = CR" "d ! i \<noteq> LF" | "d ! i \<noteq> CR" "d ! i \<noteq> LF" by blast
      then show ?thesis
      proof cases
        case 1
        then show ?thesis using True r a lf cr ih [of True] dc
          by (subst crlfFrom.simps) (simp add: brk Let_def crlfLines_def)
      next
        case 3
        then have "r \<noteq> 13" "r \<noteq> 10" using cr lf by auto
        then have "?run i ended = d ! i # ?run (i + 1) False"
          using True r a by (subst crlfFrom.simps) (simp add: slice_def take_Suc hd_drop_conv_nth)
        moreover have "crlfLines (textLines (drop i d)) = [d ! i]
            @ (if drop (i + 1) d = [] then [CR, LF] else crlfLines (textLines (drop (i + 1) d)))"
          using textLines_plain [of "[d ! i]" "drop (i + 1) d"] 3 dc by simp
        ultimately show ?thesis using True ih [of False] by simp
      next
        case 2
        obtain r' n' where r': "runeAt cod d UTF8 (i + 1) (length d) = (r', n')" by (metis surj_pair)
        show ?thesis
        proof (cases "i + 1 < length d \<and> d ! (i + 1) = LF")
          case lf2: True
          then have "r' = 10 \<and> n' = 1" using runeAt_UTF8 [OF _ r'] by auto
          then have "?run i ended = [CR, LF] @ ?run (i + 2) True"
            using True r r' a 2 cr by (subst crlfFrom.simps) (simp add: brk Let_def)
          moreover have "?run (i + 2) True = crlfLines (textLines (drop (i + 2) d))"
            using less.hyps [of "i + 2" True, OF diff_less_mono2] lf2 by simp
          moreover have "drop (i + 1) d = LF # drop (i + 2) d" using lf2 Cons_nth_drop_Suc [of "i + 1" d] by simp
          ultimately show ?thesis using 2 dc True by (simp add: crlfLines_def)
        next
          case False
          have "r' \<noteq> 10"
          proof (cases "i + 1 < length d")
            case True
            then show ?thesis using runeAt_UTF8 [OF True r'] False bv_inject [of "d ! (i + 1)" LF] by auto
          next
            case False
            then show ?thesis using r' by (simp add: runeAt_def slice_def RuneError_def split: if_splits)
          qed
          then have "?run i ended = [CR, LF] @ ?run (i + 1) True"
            using True r r' a 2 cr by (subst crlfFrom.simps) (simp add: brk Let_def)
          moreover have "textLines (drop i d) = [] # textLines (drop (i + 1) d)"
            using False 2 dc Cons_nth_drop_Suc [of "i + 1" d] by (cases "i + 1 < length d") (auto split: list.split)
          ultimately show ?thesis using ih [of True] True by (simp add: crlfLines_def)
        qed
      qed
    next
      assume a: "r \<noteq> 10" "r \<noteq> 13" "\<forall>x \<in> set (take n (drop i d)). x \<noteq> CR \<and> x \<noteq> LF"
      have "?run i ended = take n (drop i d) @ ?run (i + n) False"
        using True r a by (subst crlfFrom.simps) (simp add: slice_def)
      moreover have "?run (i + n) False = (if i + n = length d then [CR, LF] else crlfLines (textLines (drop (i + n) d)))"
        using less.hyps [of "i + n" False] w True by simp
      moreover have "drop i d = take n (drop i d) @ drop (i + n) d"
        using append_take_drop_id [of n "drop i d"] by (simp add: add.commute)
      moreover have "take n (drop i d) \<noteq> []" using w True by simp
      ultimately show ?thesis using textLines_plain [OF a(3), of "drop (i + n) d"] w True by simp
    qed
  qed
qed

subsection \<open>Properties\<close>

text \<open>C7. Cleaning deletes: on a document whose events are in order (every parsed SubRip document, and every
  ASS document whose Format lines name Start before End), \<open>edit\<close> never slices out of range,
  whatever the encoding's codec answers, and unless empty events are to be removed the document it
  writes is a subsequence of the bytes of the document.\<close>

theorem edit_deletes:
  assumes "events_wf 0 (length (doc c)) (events c)"
  shows "\<exists>out. edit cod c o' = Some out \<and> (\<not> oRemoveEmpty o' \<longrightarrow> subseq out (doc c))"
proof -
  let ?ks = "map (\<lambda>e. cleanText cod c (ctext e) (rulesOf o')) (events c)"
  have "events_wf 0 (length (doc c)) (map fst (zip (events c) ?ks))" using assms by (simp add: map_fst_zip)
  from editEvents_total [OF this le_refl cleanTexts_spans [OF assms], of "list_ex (\<lambda>k. oRemoveEmpty o' \<and> \<not> ktext k) ?ks" 0]
  obtain out where "editEvents c (list_ex (\<lambda>k. oRemoveEmpty o' \<and> \<not> ktext k) ?ks) (zip (events c) ?ks) 0 0 = Some out"
    "\<not> list_ex (\<lambda>k. oRemoveEmpty o' \<and> \<not> ktext k) ?ks \<longrightarrow> subseq out (doc c)" by auto
  then show ?thesis by (auto simp: edit_def Let_def list_ex_iff)
qed

theorem edit_deletes_witness:
  "\<exists>out. edit (\<lambda>e b. None) \<lparr>doc = ''0:0:0,0-->0:0:1,0'', events = [oneCue], format = SRT, enc = UTF8\<rparr>
      \<lparr>oStripHI = True, oStripTags = True, oCleanWhitespace = True, oRemoveEmpty = False,
       oNormalizeUTF8 = True, oNormalizeLineEndings = True\<rparr> = Some out
    \<and> subseq out ''0:0:0,0-->0:0:1,0''"
proof -
  let ?c = "\<lparr>doc = ''0:0:0,0-->0:0:1,0'', events = [oneCue], format = SRT, enc = UTF8\<rparr>"
  have "events_wf 0 (length (doc ?c)) (events ?c)" by (simp add: oneCue_def cue_wf_def head_wf_def noSpan_def)
  from edit_deletes [OF this, of "\<lambda>e b. None" "\<lparr>oStripHI = True, oStripTags = True, oCleanWhitespace = True,
      oRemoveEmpty = False, oNormalizeUTF8 = True, oNormalizeLineEndings = True\<rparr>"]
  show ?thesis by simp
qed

text \<open>Normalizing line endings of a UTF-8 document is the line-by-line specification: the lines of
  the bytes, ending at CR, LF or CRLF, each followed by CRLF, invalid bytes included; so no other
  byte changes, the last line is ended, and normalizing again changes nothing.\<close>

theorem crlf_lines:
  "crlf cod d UTF8 = crlfLines (textLines d) \<and> textLines (crlf cod d UTF8) = textLines d
   \<and> crlf cod (crlf cod d UTF8) UTF8 = crlf cod d UTF8"
proof -
  have c: "crlf cod s UTF8 = crlfLines (textLines s)" for s
    by (simp add: crlf_def crlfFrom_UTF8)
  have "textLines (crlfLines (textLines d)) = textLines d"
    by (rule textLines_crlfLines) (simp add: textLines_no_breaks)
  then show ?thesis by (simp add: c)
qed

end
