(* ===== verification/RenderVTT.thy ===== *)
theory RenderVTT
  imports CleanFacts
begin

text \<open>
  internal/timing/rendervtt.go and the decoded view of cues.go: the WebVTT preview of a document under
  a timing. \<open>vttMarkup\<close> turns an event's text into cue text, \<open>RenderVTT\<close> writes the events of a ten
  minute window. A reader finds exactly the cues written: no other line of the output holds \<open>-->\<close>
  and no line inside a cue is blank.
\<close>

subsection \<open>The decoded text of an event\<close>

fun replaceBreaks :: "string \<Rightarrow> string" where
  "replaceBreaks [] = []"
| "replaceBreaks (x # r) =
     (if x = CR then LF # (case r of [] \<Rightarrow> [] | y # r' \<Rightarrow> if y = LF then replaceBreaks r' else replaceBreaks r)
      else x # replaceBreaks r)"

fun replaceAssBreaks :: "string \<Rightarrow> string" where
  "replaceAssBreaks [] = []"
| "replaceAssBreaks [x] = [x]"
| "replaceAssBreaks (x # y # r) =
     (if x = CHR 0x5C \<and> y = CHR ''N'' then LF # replaceAssBreaks r else x # replaceAssBreaks (y # r))"

definition eventText :: "codec \<Rightarrow> Cues \<Rightarrow> span \<Rightarrow> string" where
  "eventText cod c s =
     (let t = decodeText cod (enc c) (slice (doc c) (sfrom s) (sto s))
      in if format c = SRT then replaceBreaks t else replaceAssBreaks t)"

record event =
  eText :: string
  eStyle :: string
  eStartMs :: int
  eEndMs :: int

definition Events :: "codec \<Rightarrow> Cues \<Rightarrow> event list" where
  "Events cod c = map (\<lambda>e. \<lparr>eText = eventText cod c (ctext e), eStyle = cstyle e,
     eStartMs = startMs e, eEndMs = endMs e\<rparr>) (events c)"

subsection \<open>Markup\<close>

datatype tagKind = NotTag | TagPass | TagHidden

definition passTags :: "string list" where
  "passTags = [''<i>'', ''</i>'', ''<b>'', ''</b>'', ''<u>'', ''</u>'']"

definition hiddenNames :: "string list" where
  "hiddenNames = [''i'', ''b'', ''u'', ''s'', ''font'']"

definition srtTag :: "string \<Rightarrow> string \<times> tagKind" where
  "srtTag t =
     (let inner = takeWhile (\<lambda>x. x \<noteq> CHR ''<'' \<and> x \<noteq> CHR ''>'') (drop 1 t); k = length inner
      in if length t \<le> k + 1 \<or> t ! (k + 1) \<noteq> CHR ''>'' then ([], NotTag)
         else
           let tag = take (k + 2) t;
               name = takeWhile (\<lambda>x. x \<noteq> CHR '' '' \<and> x \<noteq> TAB) (trimSlash inner)
           in if tag \<in> set passTags then (tag, TagPass)
              else if map lowerRune (runes name) \<in> set (map asciiWord hiddenNames) then (tag, TagHidden)
              else ([], NotTag))"

definition escaped :: "char \<Rightarrow> string" where
  "escaped x = (if x = CHR ''<'' then ''&lt;'' else if x = CHR ''>'' then ''&gt;''
     else if x = CHR ''&'' then ''&amp;'' else [x])"

definition writeTag :: "string \<Rightarrow> string \<times> nat" where
  "writeTag t =
     (case srtTag t of
        (tag, TagPass) \<Rightarrow> (tag, length tag)
      | (tag, TagHidden) \<Rightarrow> ([], length tag)
      | (tag, NotTag) \<Rightarrow> (escaped (CHR ''<''), 1))"

definition assSpaces :: "char \<Rightarrow> string option" where
  "assSpaces x = (if x = CHR ''h'' then Some (EncodeRune 0xA0) else if x = CHR ''n'' then Some '' '' else None)"

definition brokenArrow :: string where
  "brokenArrow = ''--'' @ EncodeRune 0x2060 @ ''&gt;''"

text \<open>One turn of the loop at \<open>rest\<close>, which starts at \<open>i\<close>: what it writes and the bytes it consumes.\<close>

definition markupStep :: "bool \<Rightarrow> int \<Rightarrow> nat \<Rightarrow> string \<Rightarrow> string \<times> nat" where
  "markupStep ass lastClose i rest =
     (if hasPrefix ''-->'' rest then (brokenArrow, 3)
      else if hd rest = CHR ''{'' \<and> (ass \<or> hasPrefix [CHR ''{'', CHR 0x5C] rest) \<and> int i < lastClose
        then ([], length (takeWhile (\<lambda>x. x \<noteq> CHR ''}'') rest) + 1)
      else if ass \<and> hd rest = CHR 0x5C \<and> 1 < length rest \<and> assSpaces (rest ! 1) \<noteq> None
        then (the (assSpaces (rest ! 1)), 2)
      else if hd rest = CHR ''<'' \<and> \<not> ass then writeTag rest
      else (escaped (hd rest), 1))"

lemma writeTag_width: "0 < snd (writeTag t)"
proof (cases "srtTag t")
  case (Pair tag k)
  have "k \<noteq> NotTag \<Longrightarrow> tag \<noteq> []" using Pair by (auto simp: srtTag_def Let_def split: if_splits)
  then show ?thesis by (cases k) (auto simp: writeTag_def Pair)
qed

lemma markupStep_width: "0 < snd (markupStep ass lastClose i rest)"
  using writeTag_width by (simp add: markupStep_def)

function vttMarkupFrom :: "string \<Rightarrow> bool \<Rightarrow> int \<Rightarrow> nat \<Rightarrow> string" where
  "vttMarkupFrom t ass lastClose i =
     (if i < length t
      then fst (markupStep ass lastClose i (drop i t))
         @ vttMarkupFrom t ass lastClose (i + snd (markupStep ass lastClose i (drop i t)))
      else [])"
  by pat_completeness auto
termination
  by (relation "measure (\<lambda>(t, ass, lastClose, i). length t - i)")
    (auto intro!: diff_less_mono2 simp: markupStep_width)

declare vttMarkupFrom.simps [simp del]

definition lastIndexByte :: "char \<Rightarrow> string \<Rightarrow> int" where
  "lastIndexByte x s = (if x \<in> set s then int (length s - 1 - length (takeWhile (\<lambda>y. y \<noteq> x) (rev s))) else - 1)"

definition vttMarkup :: "string \<Rightarrow> bool \<Rightarrow> string" where
  "vttMarkup t ass = vttMarkupFrom t ass (lastIndexByte (CHR ''}'') t) 0"

subsection \<open>The preview\<close>

definition previewSpanMs :: int where "previewSpanMs = 600000"

definition vttStampOf :: "int \<Rightarrow> string" where
  "vttStampOf ms = pad 2 (nat ms div 3600000) @ '':'' @ pad 2 (nat ms div 60000 mod 60) @ '':''
     @ pad 2 (nat ms div 1000 mod 60) @ ''.'' @ pad 3 (nat ms mod 1000)"

datatype preview_error = BeforeZero | NotRendered render_error

definition previewBlank :: "string \<Rightarrow> bool" where
  "previewBlank l \<longleftrightarrow> trimFunc isSpace (runes l) = []"

definition inWindow :: "int \<Rightarrow> mappedCue \<Rightarrow> bool" where
  "inWindow fromMs m \<longleftrightarrow> keep m \<and> fromMs < mend m \<and> mstart m < fromMs + previewSpanMs"

definition timingLine :: "int \<Rightarrow> mappedCue \<Rightarrow> string" where
  "timingLine fromMs m = vttStampOf (max (mstart m - fromMs) 0) @ '' --> ''
     @ vttStampOf (min (mend m - fromMs) previewSpanMs)"

definition vttBlock :: "codec \<Rightarrow> Cues \<Rightarrow> int \<Rightarrow> cue \<Rightarrow> mappedCue \<Rightarrow> string" where
  "vttBlock cod c fromMs e m =
     [LF] @ timingLine fromMs m @ [LF]
     @ concat (map (\<lambda>l. l @ [LF]) (filter (\<lambda>l. \<not> previewBlank l)
         (splitOn LF (vttMarkup (eventText cod c (ctext e)) (format c \<noteq> SRT)))))"

definition RenderVTT :: "bool \<Rightarrow> codec \<Rightarrow> Cues \<Rightarrow> Timing \<Rightarrow> int \<Rightarrow> preview_error + string" where
  "RenderVTT fused cod c t fromNs =
     (if fromNs < 0 then Inl BeforeZero
      else case mapEvents fused c t of Inl err \<Rightarrow> Inl (NotRendered err)
      | Inr ms \<Rightarrow>
          let fromMs = fromNs div 1000000
          in Inr (''WEBVTT'' @ [LF] @ concat (map (\<lambda>(e, m). vttBlock cod c fromMs e m)
               (filter (\<lambda>(e, m). inWindow fromMs m) (zip (events c) ms)))))"

subsection \<open>The markup is safe\<close>

text \<open>Cue text in which every < and > belongs to one of the six tags and every & starts one of the three
  entities the writer uses.\<close>

inductive safeMarkup :: "string \<Rightarrow> bool" where
  safe_Nil: "safeMarkup []"
| safe_char: "safeMarkup s \<Longrightarrow> x \<noteq> CHR ''<'' \<Longrightarrow> x \<noteq> CHR ''>'' \<Longrightarrow> x \<noteq> CHR ''&'' \<Longrightarrow> safeMarkup (x # s)"
| safe_tag: "safeMarkup s \<Longrightarrow> tag \<in> set passTags \<Longrightarrow> safeMarkup (tag @ s)"
| safe_entity: "safeMarkup s \<Longrightarrow> ent \<in> {''&lt;'', ''&gt;'', ''&amp;''} \<Longrightarrow> safeMarkup (ent @ s)"

lemma safe_append: "safeMarkup s \<Longrightarrow> safeMarkup t \<Longrightarrow> safeMarkup (s @ t)"
  by (induction rule: safeMarkup.induct) (auto intro: safeMarkup.intros)

lemma safe_plain: "\<forall>x \<in> set s. x \<notin> {CHR ''<'', CHR ''>'', CHR ''&''} \<Longrightarrow> safeMarkup s"
  by (induction s) (auto intro: safeMarkup.intros)

lemma safe_escaped: "safeMarkup (escaped x)"
  using safe_entity [OF safe_Nil, of "escaped x"] safe_plain [of "[x]"]
  by (cases "x \<in> {CHR ''<'', CHR ''>'', CHR ''&''}") (auto simp: escaped_def)

lemma EncodeRune_plain: "0x80 \<le> r \<Longrightarrow> safeMarkup (EncodeRune r)"
proof (rule safe_plain, intro ballI)
  fix x
  assume "0x80 \<le> r" "x \<in> set (EncodeRune r)"
  then have "0x80 \<le> bv x" by (rule EncodeRune_high)
  then show "x \<notin> {CHR ''<'', CHR ''>'', CHR ''&''}" by (auto simp: bv_def)
qed

lemma safe_arrow: "safeMarkup brokenArrow"
proof -
  have "safeMarkup ''--''" "safeMarkup ''&gt;''"
    using safe_entity [OF safe_Nil, of "''&gt;''"] by (simp_all add: safe_plain)
  then show ?thesis unfolding brokenArrow_def by (intro safe_append EncodeRune_plain) simp_all
qed

lemma safe_writeTag: "safeMarkup (fst (writeTag t))"
proof (cases "srtTag t")
  case (Pair tag k)
  have "k = TagPass \<Longrightarrow> tag \<in> set passTags" using Pair by (auto simp: srtTag_def Let_def split: if_splits)
  then have "k = TagPass \<Longrightarrow> safeMarkup tag" using safe_tag [OF safe_Nil, of tag] by simp
  then show ?thesis by (cases k) (simp_all add: writeTag_def Pair safe_Nil safe_escaped)
qed

lemma safe_step: "safeMarkup (fst (markupStep ass lastClose i rest))"
proof -
  have "assSpaces x \<noteq> None \<Longrightarrow> safeMarkup (the (assSpaces x))" for x
    by (auto simp: assSpaces_def intro!: safe_plain EncodeRune_plain)
  then show ?thesis
    using safe_arrow safe_writeTag safe_escaped safe_Nil by (simp add: markupStep_def)
qed

lemma safe_markupFrom: "safeMarkup (vttMarkupFrom t ass lastClose i)"
proof (induction t ass lastClose i rule: vttMarkupFrom.induct)
  case (1 t ass lastClose i)
  then show ?case using safe_append [OF safe_step] by (subst vttMarkupFrom.simps) (simp add: safe_Nil)
qed

text \<open>A safe text holds no \<open>-->\<close>: each > comes after an i, b or u.\<close>

fun closesTag :: "char \<Rightarrow> string \<Rightarrow> bool" where
  "closesTag p [] \<longleftrightarrow> True"
| "closesTag p (x # s) \<longleftrightarrow> (x = CHR ''>'' \<longrightarrow> p \<in> {CHR ''i'', CHR ''b'', CHR ''u''}) \<and> closesTag x s"

fun hasArrow :: "string \<Rightarrow> bool" where
  "hasArrow [] \<longleftrightarrow> False"
| "hasArrow (x # s) \<longleftrightarrow> hasPrefix ''-->'' (x # s) \<or> hasArrow s"

lemma safe_closesTag: "safeMarkup s \<Longrightarrow> closesTag p s"
  by (induction arbitrary: p rule: safeMarkup.induct) (auto simp: passTags_def)

lemma closesTag_no_arrow: "closesTag p s \<Longrightarrow> \<not> hasArrow s"
proof (induction s arbitrary: p)
  case (Cons x s)
  then show ?case by (cases s; cases "tl s") (auto simp: hasPrefix_def)
qed simp

lemma closesTag_append: "closesTag p (s @ x # t) \<Longrightarrow> closesTag p s \<and> closesTag x t"
  by (induction s arbitrary: p) auto

lemma splitOn_head: "splitOn c s = m # ms \<Longrightarrow> s = m \<or> (\<exists>ys. s = m @ c # ys)"
proof (induction s arbitrary: m ms)
  case (Cons y s)
  obtain k ks where k: "splitOn c s = k # ks" by (metis splitOn_not_Nil neq_Nil_conv)
  show ?case using Cons.IH [OF k] Cons.prems by (cases "y = c") (auto simp: k)
qed simp

lemma closesTag_lines: "closesTag p s \<Longrightarrow> l \<in> set (splitOn LF s) \<Longrightarrow> \<exists>q. closesTag q l"
proof (induction s arbitrary: p l)
  case (Cons x s)
  obtain m ms where s: "splitOn LF s = m # ms" by (metis splitOn_not_Nil neq_Nil_conv)
  have c: "closesTag x s" using Cons.prems(1) by simp
  have tails: "\<exists>q. closesTag q k" if "k \<in> set (splitOn LF s)" for k by (rule Cons.IH [OF c that])
  show ?case
  proof (cases "x = LF")
    case True
    then have "l = [] \<or> l \<in> set (splitOn LF s)" using Cons.prems(2) by simp
    then show ?thesis using tails by (metis closesTag.simps(1))
  next
    case False
    have "closesTag x m" using splitOn_head [OF s] c closesTag_append by metis
    then have "closesTag p (x # m)" using Cons.prems(1) by simp
    moreover have "l = x # m \<or> l \<in> set (splitOn LF s)" using Cons.prems(2) False s by auto
    ultimately show ?thesis using tails by metis
  qed
qed (auto intro: exI [of _ LF])

subsection \<open>Reading the preview back\<close>

lemma hourDigits_two:
  assumes "digitsText 2 w" "r = [] \<or> \<not> isDigit (hd r)"
  shows "hourDigits (u @ w @ r) (length u) = (foldl hourStep 0 w, length u + length w)"
proof -
  have "takeWhile isDigit (w @ r) = w"
    using assms by (cases r) (auto simp: digitsText_def list_all_iff takeWhile_append)
  then show ?thesis by (simp add: hourDigits_def)
qed

lemma pad_zero: "pad 2 0 = ''00''"
  by (simp add: pad_def dec.simps numeral_2_eq_2)

lemma fixedDigits_pad:
  assumes "b = u @ pad k n @ r" "i = length u" "n < 10 ^ k" "0 < k" "r = [] \<or> \<not> isDigit (hd r)"
    and "j = i + k"
  shows "fixedDigits b i k k = (n, j, True)"
  using digits_intro [OF digitsText_pad [OF assms(3,4)] assms(5), of u] assms
  by (simp add: fixedDigits_def pad_length)

lemma vttStamp_intro:
  assumes "hourDigits b i = (0, i + 2)" "at_colon b (i + 2)" "fixedDigits b (i + 2 + 1) 2 2 = (m, j, True)"
    and "at_colon b j" "fixedDigits b (j + 1) 2 2 = (s, k, True)" "k < length b" "b ! k = CHR ''.''"
    and "fixedDigits b (k + 1) 3 3 = (f, l, True)" "m < 60" "s < 60"
  shows "vttStamp b i = Inr ((m * 60 + s) * 1000 + f, l)"
  using assms by (simp add: vttStamp_def vttClock_def maxSRTHour_def)

lemma vttStamp_reads:
  assumes "0 \<le> ms" "ms \<le> previewSpanMs" "r = [] \<or> \<not> isDigit (hd r)"
  shows "vttStamp (u @ vttStampOf ms @ r) (length u) = Inr (nat ms, length u + 12)"
proof -
  let ?n = "nat ms" let ?m = "nat ms div 60000 mod 60" let ?s = "nat ms div 1000 mod 60" let ?f = "nat ms mod 1000"
  have n: "?n \<le> 600000" using assms by (simp add: previewSpanMs_def)
  have h: "?n div 3600000 = 0" using n by simp
  have b: "?m < 60" "?s < 60" "?f < 1000" by simp_all
  have split: "?n = (?m * 60 + ?s) * 1000 + ?f"   proof -
    have "((0 * 60 + ?m) * 60 + ?s) * 1000 = ?n - ?f" by (rule hms_split [of ?n, unfolded h])
    then have "(?m * 60 + ?s) * 1000 = ?n - ?f" by (simp only: mult_0 add_0)
    moreover have "?f \<le> ?n" by (rule mod_less_eq_dividend)
    ultimately show ?thesis by (metis le_add_diff_inverse2)
  qed
  let ?b = "u @ ''00:'' @ pad 2 ?m @ '':'' @ pad 2 ?s @ ''.'' @ pad 3 ?f @ r"
  have e: "u @ vttStampOf ms @ r = ?b" by (simp add: vttStampOf_def h pad_zero)
  have 1: "hourDigits ?b (length u) = (0, length u + 2)"
    using hourDigits_two [of "''00''" "'':'' @ pad 2 ?m @ '':'' @ pad 2 ?s @ ''.'' @ pad 3 ?f @ r" u]
    by (simp add: digitsText_def isDigit_def less_eq_char_def hourStep_def digit_val_def maxSRTHour_def)
  have 2: "fixedDigits ?b (length u + 2 + 1) 2 2 = (?m, length u + 5, True)"
    by (rule fixedDigits_pad [where u = "u @ ''00:''" and r = "'':'' @ pad 2 ?s @ ''.'' @ pad 3 ?f @ r"])
      (use b in simp_all)
  have 3: "fixedDigits ?b (length u + 5 + 1) 2 2 = (?s, length u + 8, True)"
    by (rule fixedDigits_pad [where u = "u @ ''00:'' @ pad 2 ?m @ '':''" and r = "''.'' @ pad 3 ?f @ r"])
      (use b in \<open>simp_all add: pad_length\<close>)
  have 4: "fixedDigits ?b (length u + 8 + 1) 3 3 = (?f, length u + 12, True)"
    by (rule fixedDigits_pad [where u = "u @ ''00:'' @ pad 2 ?m @ '':'' @ pad 2 ?s @ ''.''" and r = r])
      (use b assms(3) in \<open>simp_all add: pad_length\<close>)
  have c: "at_colon ?b (length u + 2)" "at_colon ?b (length u + 5)" "length u + 8 < length ?b"
    "?b ! (length u + 8) = CHR ''.''"
    using b by (simp_all add: at_colon_def nth_append pad_length)
  have "vttStamp ?b (length u) = Inr ((?m * 60 + ?s) * 1000 + ?f, length u + 12)"
    by (rule vttStamp_intro [OF 1 c(1) 2 c(2) 3 c(3,4) 4 b(1,2)])
  then show ?thesis unfolding e using split by simp
qed

lemma hasPrefix_arrow: "cut_prefix ''-->'' (''--> '' @ r) = Some ('' '' @ r)"
  by simp

lemma stamp_ascii: "list_all (\<lambda>x. isDigit x \<or> x = CHR '':'' \<or> x = CHR ''.'') (vttStampOf ms)"
  using pad_digits by (auto simp: vttStampOf_def list_all_append list_all_iff)

lemma stamp_chars: "x \<in> set (vttStampOf ms) \<Longrightarrow> \<not> above7F x \<and> x \<noteq> LF \<and> \<not> isBlank x \<and> x \<noteq> CHR ''-''"
  using stamp_ascii [of ms] by (auto simp: list_all_iff isDigit_def less_eq_char_def above7F_def LF_def TAB_def isBlank_def)

lemma stamp_not_Nil: "vttStampOf ms \<noteq> []"
  by (simp add: vttStampOf_def)

lemma skipBlank_none: "i < length b \<Longrightarrow> \<not> isBlank (b ! i) \<Longrightarrow> skipBlank b i = i"
  by (simp add: skipBlank_def Cons_nth_drop_Suc [symmetric])

lemma vttTiming_reads:
  assumes "0 \<le> a" "a \<le> previewSpanMs" "0 \<le> z" "z \<le> previewSpanMs"
  shows "vttTiming (vttStampOf a @ '' --> '' @ vttStampOf z) = Inr (nat a, nat z)"
proof -
  let ?b = "vttStampOf a @ '' --> '' @ vttStampOf z"
  have 1: "vttStamp ?b 0 = Inr (nat a, 12)"
    using vttStamp_reads [OF assms(1,2), of "'' --> '' @ vttStampOf z" "[]"] by (simp add: isDigit_def less_eq_char_def)
  have la: "length (vttStampOf ms) = 12" if "0 \<le> ms" "ms \<le> previewSpanMs" for ms
  proof -
    have "nat ms div 3600000 = 0" using that by (simp add: previewSpanMs_def)
    then show ?thesis by (simp add: vttStampOf_def pad_length)
  qed
  have l: "length ?b = 29" using la assms by simp
  have 2: "vttStamp ?b 17 = Inr (nat z, 29)"
    using vttStamp_reads [OF assms(3,4), of "[]" "vttStampOf a @ '' --> ''"] la [OF assms(1,2)] by simp
  have asc: "isASCII ?b" using stamp_chars by (auto simp: isASCII_def list_all_iff above7F_def)
  have b0: "\<not> isBlank (?b ! 0)"
    using stamp_chars [of "vttStampOf a ! 0" a] la [OF assms(1,2)] by (simp add: nth_append)
  have b17: "\<not> isBlank (?b ! 17)"
    using stamp_chars [of "vttStampOf z ! 0" z] la [OF assms(1,2)] la [OF assms(3,4)] by (simp add: nth_append)
  have d: "drop 12 ?b = '' --> '' @ vttStampOf z" using la [OF assms(1,2)] by simp
  have s0: "skipBlank ?b 0 = 0" using skipBlank_none [of 0 ?b] b0 l by simp
  have s12: "skipBlank ?b 12 = 13" unfolding skipBlank_def d by (simp add: isBlank_def TAB_def)
  have d13: "drop 13 ?b = ''--> '' @ vttStampOf z" using la [OF assms(1,2)] by simp
  have s16: "skipBlank ?b 16 = 17"
  proof -
    have "drop 16 ?b = CHR '' '' # vttStampOf z" using la [OF assms(1,2)] by simp
    moreover have "takeWhile isBlank (vttStampOf z) = []"
      using stamp_chars [of "hd (vttStampOf z)" z] stamp_not_Nil [of z] by (cases "vttStampOf z") auto
    ultimately show ?thesis by (simp add: skipBlank_def isBlank_def)
  qed
  show ?thesis using 1 2 asc s0 s12 s16 l d13 la [OF assms(3,4)] by (simp add: vttTiming_def)
qed

subsection \<open>The lines of the preview\<close>

definition cueLines :: "codec \<Rightarrow> Cues \<Rightarrow> cue \<Rightarrow> string list" where
  "cueLines cod c e = filter (\<lambda>l. \<not> previewBlank l)
     (splitOn LF (vttMarkup (eventText cod c (ctext e)) (format c \<noteq> SRT)))"

definition previewLines :: "codec \<Rightarrow> Cues \<Rightarrow> int \<Rightarrow> (cue \<times> mappedCue) list \<Rightarrow> string list" where
  "previewLines cod c fromMs ems =
     ''WEBVTT'' # concat (map (\<lambda>(e, m). [] # timingLine fromMs m # cueLines cod c e) ems)"

definition endLines :: "string list \<Rightarrow> string" where
  "endLines ls = concat (map (\<lambda>l. l @ [LF]) ls)"

lemma endLines_simps [simp]: "endLines [] = []" "endLines (l # ls) = l @ LF # endLines ls"
  "endLines (ls @ ms) = endLines ls @ endLines ms"
  by (simp_all add: endLines_def)

lemma splitOn_endLines: "\<forall>l \<in> set ls. LF \<notin> set l \<Longrightarrow> splitOn LF (endLines ls) = ls @ [[]]"
proof (induction ls)
  case (Cons l ls)
  then show ?case using splitOn_no [of LF l "LF # endLines ls"] by simp
qed simp

lemma preview_out:
  "''WEBVTT'' @ [LF] @ concat (map (\<lambda>(e, m). vttBlock cod c fromMs e m) ems) = endLines (previewLines cod c fromMs ems)"
proof -
  have "vttBlock cod c fromMs e m = endLines ([] # timingLine fromMs m # cueLines cod c e)" for e m
    by (simp add: vttBlock_def cueLines_def endLines_def)
  then show ?thesis by (induction ems) (auto simp: previewLines_def)
qed

lemma cueLines_facts: "l \<in> set (cueLines cod c e) \<Longrightarrow> LF \<notin> set l \<and> \<not> hasArrow l \<and> \<not> previewBlank l"
  using closesTag_lines [OF safe_closesTag [OF safe_markupFrom]] closesTag_no_arrow splitOn_lines
  by (fastforce simp: cueLines_def vttMarkup_def)

lemma hasArrow_append: "hasArrow (s @ ''-->'' @ t)"
  by (induction s) (auto simp: hasPrefix_def)

lemma timingLine_facts: "LF \<notin> set (timingLine fromMs m) \<and> hasArrow (timingLine fromMs m) \<and> timingLine fromMs m \<noteq> []"
proof -
  have "hasArrow (timingLine fromMs m)"
    using hasArrow_append [of "vttStampOf (max (mstart m - fromMs) 0) @ '' ''"] by (simp add: timingLine_def)
  then show ?thesis using stamp_chars by (auto simp: timingLine_def LF_def)
qed

lemma preview_no_LF: "\<forall>l \<in> set (previewLines cod c fromMs ems). LF \<notin> set l"
  using timingLine_facts cueLines_facts by (auto simp: previewLines_def LF_def)

lemma preview_arrows: "filter hasArrow (previewLines cod c fromMs ems) = map (\<lambda>(e, m). timingLine fromMs m) ems"
proof -
  have "filter hasArrow (cueLines cod c e) = []" for e
    using cueLines_facts by (auto simp: filter_empty_conv)
  then show ?thesis
    using timingLine_facts by (induction ems) (auto simp: previewLines_def hasPrefix_def)
qed

subsection \<open>Properties\<close>

text \<open>C30. Cue text is safe: whatever the event's text, the markup written for it has no < or > outside the
  six tags a player styles and no & outside the writer's three entities, so no text of a subtitle
  makes markup of its own, and it holds no cue arrow.\<close>

theorem vttMarkup_safe: "safeMarkup (vttMarkup t ass) \<and> \<not> hasArrow (vttMarkup t ass)"
  using closesTag_no_arrow [OF safe_closesTag [OF safe_markupFrom]] safe_markupFrom by (simp add: vttMarkup_def)

text \<open>C10. A reader finds exactly the preview's cues: the output's lines are the header and, per event that
  meets the window, an empty line, the timing line and the cue's lines; the lines with an arrow
  are exactly the timing lines, none of a cue's lines is blank, and the program's own WebVTT reader
  reads each timing line as the event's times shifted to the window and clipped to it.\<close>

theorem RenderVTT_lines:
  assumes "RenderVTT fused cod c t ns = Inr out"
  shows "\<exists>ms. mapEvents fused c t = Inr ms \<and>
    (let from = ns div 1000000; w = filter (\<lambda>(e, m). inWindow from m) (zip (events c) ms)
     in splitOn LF out = previewLines cod c from w @ [[]]
        \<and> filter hasArrow (splitOn LF out) = map (\<lambda>(e, m). timingLine from m) w
        \<and> (\<forall>(e, m) \<in> set w. (\<forall>l \<in> set (cueLines cod c e). \<not> previewBlank l)
             \<and> vttTiming (timingLine from m)
               = Inr (nat (max (mstart m - from) 0), nat (min (mend m - from) previewSpanMs))))"
proof -
  from assms obtain ms where ms: "mapEvents fused c t = Inr ms"
    and out: "out = endLines (previewLines cod c (ns div 1000000)
      (filter (\<lambda>(e, m). inWindow (ns div 1000000) m) (zip (events c) ms)))"
    by (auto simp: RenderVTT_def Let_def preview_out [simplified] split: if_splits sum.splits)
  let ?from = "ns div 1000000"
  let ?w = "filter (\<lambda>(e, m). inWindow ?from m) (zip (events c) ms)"
  have 1: "splitOn LF out = previewLines cod c ?from ?w @ [[]]"
    unfolding out by (rule splitOn_endLines [OF preview_no_LF])
  have 2: "filter hasArrow (splitOn LF out) = map (\<lambda>(e, m). timingLine ?from m) ?w"
    unfolding 1 using preview_arrows by simp
  have "vttTiming (timingLine ?from m) = Inr (nat (max (mstart m - ?from) 0), nat (min (mend m - ?from) previewSpanMs))"
    if "inWindow ?from m" for m
    unfolding timingLine_def
    by (rule vttTiming_reads) (use that in \<open>auto simp: inWindow_def previewSpanMs_def\<close>)
  then have 3: "\<forall>(e, m) \<in> set ?w. (\<forall>l \<in> set (cueLines cod c e). \<not> previewBlank l)
      \<and> vttTiming (timingLine ?from m) = Inr (nat (max (mstart m - ?from) 0), nat (min (mend m - ?from) previewSpanMs))"
    using cueLines_facts by auto
  show ?thesis using ms 1 2 3 by (auto simp: Let_def)
qed

theorem RenderVTT_lines_witness:
  "\<exists>out. RenderVTT True (\<lambda>e b. Some b) \<lparr>doc = ''0:0:0,0-->0:0:1,0'', events = [oneCue], format = SRT, enc = UTF8\<rparr>
      (Shift 500) 0 = Inr out
    \<and> filter hasArrow (splitOn LF out) = [timingLine 0 \<lparr>mstart = 500, mend = 1500, keep = True\<rparr>]"
proof -
  let ?c = "\<lparr>doc = ''0:0:0,0-->0:0:1,0'', events = [oneCue], format = SRT, enc = UTF8\<rparr>"
  have v: "Validate (Shift 500) = None" by (simp add: Validate_def Canonical_def checkOffset_def maxOffsetMs_def)
  have m: "mapEvents True ?c (Shift 500) = Inr [\<lparr>mstart = 500, mend = 1500, keep = True\<rparr>]"
    by (simp add: mapEvents_def v mapCue_oneCue)
  then obtain out where o: "RenderVTT True (\<lambda>e b. Some b) ?c (Shift 500) 0 = Inr out"
    by (simp add: RenderVTT_def)
  from RenderVTT_lines [OF o] m have "filter hasArrow (splitOn LF out) = [timingLine 0 \<lparr>mstart = 500, mend = 1500, keep = True\<rparr>]"
    by (auto simp: Let_def inWindow_def previewSpanMs_def)
  then show ?thesis using o by blast
qed

end
