(* ===== verification/Netregex.thy ===== *)
theory Netregex
  imports Utf8 "HOL-Library.Word"
begin

text \<open>
  internal/release/netregex: the Pike machine of exec.go that runs a compiled .NET pattern. A program is
  the instruction list of Go's regexp/syntax with the meaning netregex.go gives its captures; the
  queue is the code's sparse set. The thread free list only recycles memory and is not modelled;
  \<open>qsteps\<close> counts a queue's insertions, whose sum is the code's \<^verbatim>\<open>in.steps\<close>. A lookaround's answer at
  a position is the argument \<open>look\<close> of the machine; \<open>holds\<close> computes it with the code's memo. The
  Unicode tables of Go's standard library are the argument \<open>uni\<close>.
\<close>

unbundle bit_operations_syntax

record unicode =
  uLetter :: "rune \<Rightarrow> bool"
  uMn :: "rune \<Rightarrow> bool"
  uNd :: "rune \<Rightarrow> bool"
  uPc :: "rune \<Rightarrow> bool"
  uFold :: "rune \<Rightarrow> rune list"

type_synonym caps = "int list"
type_synonym EmptyOp = "8 word"

datatype inst = InstFail | InstAlt nat nat | InstAltMatch nat nat | InstEmptyWidth EmptyOp nat
  | InstNop nat | InstCapture nat nat | InstMatch | InstRune "rune list" bool nat
  | InstRune1 rune nat | InstRuneAny nat | InstRuneAnyNotNL nat

record prog =
  insts :: "inst list"
  scratch :: "int list"
  grp :: "int list"
  predOf :: "int list"
  start :: nat
  ncap :: nat

record env =
  code :: prog
  inp :: string
  look :: "nat \<Rightarrow> nat \<Rightarrow> bool"
  uni :: unicode

subsection \<open>Assertions\<close>

definition IsWordChar :: "unicode \<Rightarrow> rune \<Rightarrow> bool" where
  "IsWordChar u r \<longleftrightarrow> uLetter u r \<or> uMn u r \<or> uNd u r \<or> uPc u r \<or> r = 0x200C \<or> r = 0x200D"

definition wordBefore :: "unicode \<Rightarrow> string \<Rightarrow> nat \<Rightarrow> bool" where
  "wordBefore u s pos \<longleftrightarrow> 0 < pos \<and> IsWordChar u (fst (DecodeLastRune (take pos s)))"

definition wordAfter :: "unicode \<Rightarrow> string \<Rightarrow> nat \<Rightarrow> bool" where
  "wordAfter u s pos \<longleftrightarrow> pos < length s \<and> IsWordChar u (fst (DecodeRune (drop pos s)))"

definition assertAt :: "unicode \<Rightarrow> string \<Rightarrow> nat \<Rightarrow> EmptyOp \<Rightarrow> bool" where
  "assertAt u s pos op =
     (if (op AND 5 \<noteq> 0 \<and> pos \<noteq> 0) \<or> (op AND 8 \<noteq> 0 \<and> pos \<noteq> length s)
         \<or> (op AND 2 \<noteq> 0 \<and> pos \<noteq> length s \<and> (pos \<noteq> length s - 1 \<or> s ! pos \<noteq> CHR 0x0A))
      then False
      else if op AND 48 \<noteq> 0 then
        \<not> ((wordBefore u s pos \<noteq> wordAfter u s pos) \<noteq> (op AND 16 \<noteq> 0))
      else True)"

subsection \<open>The queue\<close>

record queue =
  sparse :: "nat list"
  dense :: "(nat \<times> caps option) list"
  qsteps :: nat

definition newQueue :: "nat \<Rightarrow> queue" where
  "newQueue n = \<lparr>sparse = replicate n 0, dense = [], qsteps = 0\<rparr>"

definition inQueue :: "queue \<Rightarrow> nat \<Rightarrow> bool" where
  "inQueue q pc \<longleftrightarrow> (let j = sparse q ! pc in j < length (dense q) \<and> fst (dense q ! j) = pc)"

definition enter :: "queue \<Rightarrow> nat \<Rightarrow> caps option \<Rightarrow> queue" where
  "enter q pc t = \<lparr>sparse = (sparse q)[pc := length (dense q)], dense = dense q @ [(pc, t)], qsteps = qsteps q + 1\<rparr>"

definition release :: "queue \<Rightarrow> queue" where
  "release q = q\<lparr>dense := []\<rparr>"

text \<open>The captures \<open>capture\<close> passes on at an \<^verbatim>\<open>InstCapture\<close> that is no placeholder.\<close>

definition captured :: "prog \<Rightarrow> nat \<Rightarrow> nat \<Rightarrow> caps \<Rightarrow> caps" where
  "captured p a pos cs =
     (if 0 \<le> grp p ! a then
        let g = nat (grp p ! a) in cs[g := cs ! nat (scratch p ! a), g + 1 := int pos]
      else if 0 \<le> scratch p ! a then cs[nat (scratch p ! a) := int pos]
      else cs)"

text \<open>\<open>add\<close> with the recursion's depth as fuel: each call below it enters one more instruction, so the
  number of instructions is enough (\<open>addThread\<close>).\<close>

fun add :: "nat \<Rightarrow> env \<Rightarrow> queue \<Rightarrow> nat \<Rightarrow> nat \<Rightarrow> caps \<Rightarrow> queue" where
  "add 0 e q pc pos cs = q"
| "add (Suc k) e q pc pos cs =
     (if inQueue q pc then q
      else case insts (code e) ! pc of
        InstFail \<Rightarrow> enter q pc None
      | InstAlt out arg \<Rightarrow> add k e (add k e (enter q pc None) out pos cs) arg pos cs
      | InstAltMatch out arg \<Rightarrow> add k e (add k e (enter q pc None) out pos cs) arg pos cs
      | InstEmptyWidth op out \<Rightarrow>
          if assertAt (uni e) (inp e) pos op then add k e (enter q pc None) out pos cs else enter q pc None
      | InstNop out \<Rightarrow> add k e (enter q pc None) out pos cs
      | InstCapture a out \<Rightarrow>
          if 0 \<le> predOf (code e) ! a then
            (if look e (nat (predOf (code e) ! a)) pos then add k e (enter q pc None) out pos cs
             else enter q pc None)
          else add k e (enter q pc None) out pos (captured (code e) a pos cs)
      | _ \<Rightarrow> enter q pc (Some cs))"

definition addThread :: "env \<Rightarrow> queue \<Rightarrow> nat \<Rightarrow> nat \<Rightarrow> caps \<Rightarrow> queue" where
  "addThread e q pc pos cs = add (Suc (length (insts (code e)))) e q pc pos cs"

definition seed :: "env \<Rightarrow> queue \<Rightarrow> nat \<Rightarrow> queue" where
  "seed e q pos =
     (let cs = replicate (ncap (code e)) (- 1)
      in addThread e q (start (code e)) pos (if cs = [] then cs else cs[0 := int pos]))"

subsection \<open>Steps\<close>

datatype mode = modeFind | modeAny | modeAt | modeEnds

text \<open>Go's \<^verbatim>\<open>Inst.MatchRune\<close>: one rune, with its fold orbit when folding, or pairs of range ends.\<close>

fun inRanges :: "rune list \<Rightarrow> rune \<Rightarrow> bool" where
  "inRanges (lo # hi' # rs) r \<longleftrightarrow> (lo \<le> r \<and> r \<le> hi') \<or> inRanges rs r"
| "inRanges _ r \<longleftrightarrow> False"

definition MatchRune :: "unicode \<Rightarrow> rune list \<Rightarrow> bool \<Rightarrow> rune \<Rightarrow> bool" where
  "MatchRune u rs fld r =
     (if length rs = 1 then r = rs ! 0 \<or> (fld \<and> r \<in> set (uFold u (rs ! 0))) else inRanges rs r)"

text \<open>The instruction a consumed rune continues at; \<open>None\<close> as rune is the end of the input.\<close>

definition consume :: "unicode \<Rightarrow> inst \<Rightarrow> rune option \<Rightarrow> nat option" where
  "consume u i c =
     (case c of None \<Rightarrow> None
      | Some r \<Rightarrow>
          (case i of
             InstRune rs fld out \<Rightarrow> if MatchRune u rs fld r then Some out else None
           | InstRune1 x out \<Rightarrow> if r = x then Some out else None
           | InstRuneAny out \<Rightarrow> Some out
           | InstRuneAnyNotNL out \<Rightarrow> if r \<noteq> 0x0A then Some out else None
           | _ \<Rightarrow> None))"

record outcome =
  nextq :: queue
  ends :: "bool list"
  matchcap :: caps
  hit :: bool

fun step :: "env \<Rightarrow> mode \<Rightarrow> nat \<Rightarrow> nat \<Rightarrow> rune option \<Rightarrow> (nat \<times> caps option) list \<Rightarrow> outcome \<Rightarrow> outcome" where
  "step e md pos next c [] o' = o'\<lparr>hit := False\<rparr>"
| "step e md pos next c ((pc, None) # ds) o' = step e md pos next c ds o'"
| "step e md pos next c ((pc, Some cs) # ds) o' =
     (if insts (code e) ! pc = InstMatch then
        if md = modeEnds then step e md pos next c ds (o'\<lparr>ends := (ends o')[pos := True]\<rparr>)
        else o'\<lparr>matchcap := (if md = modeFind then cs[1 := int pos] else matchcap o'), hit := True\<rparr>
      else
        case consume (uni e) (insts (code e) ! pc) c of
          None \<Rightarrow> step e md pos next c ds o'
        | Some out \<Rightarrow> step e md pos next c ds (o'\<lparr>nextq := addThread e (nextq o') out next cs\<rparr>))"

definition runeOf :: "string \<Rightarrow> nat \<Rightarrow> rune option \<times> nat" where
  "runeOf s pos =
     (if pos < length s then (Some (fst (DecodeRune (drop pos s))), snd (DecodeRune (drop pos s))) else (None, 0))"

text \<open>One turn of \<open>run\<close>'s loop: seed, then step; the queues are swapped and the old one cleared.\<close>

definition turn :: "env \<Rightarrow> mode \<Rightarrow> nat \<Rightarrow> nat \<Rightarrow> queue \<Rightarrow> bool \<Rightarrow> outcome \<Rightarrow> queue \<times> outcome" where
  "turn e md from pos runq found o' =
     (let runq1 = (if \<not> found \<and> (md \<noteq> modeAt \<or> pos = from) then seed e runq pos else runq);
          cw = runeOf (inp e) pos
      in (release runq1, step e md pos (pos + snd cw) (fst cw) (dense runq1) o'))"

function runFrom :: "env \<Rightarrow> mode \<Rightarrow> nat \<Rightarrow> nat \<Rightarrow> queue \<Rightarrow> bool \<Rightarrow> outcome \<Rightarrow> bool \<times> queue \<times> outcome" where
  "runFrom e md from pos runq found o' =
     (case turn e md from pos runq found o' of (spent, o1) \<Rightarrow>
        let found1 = hit o1 \<or> found; w = snd (runeOf (inp e) pos)
        in if (found1 \<and> md \<noteq> modeFind) \<or> w = 0 then (found1, spent, o1)
           else if dense (nextq o1) = [] \<and> (found1 \<or> md = modeAt) then (found1, spent, o1)
           else runFrom e md from (pos + w) (nextq o1) found1 (o1\<lparr>nextq := spent\<rparr>))"
  by pat_completeness auto
termination
  by (relation "measure (\<lambda>(e, md, from, pos, runq, found, o'). length (inp e) - pos)")
    (auto simp: runeOf_def split: if_splits)

declare runFrom.simps [simp del]

definition runInit :: "env \<Rightarrow> bool list \<Rightarrow> outcome" where
  "runInit e ends0 = \<lparr>nextq = newQueue (length (insts (code e))), ends = ends0,
     matchcap = replicate (ncap (code e)) 0, hit = False\<rparr>"

definition run :: "env \<Rightarrow> mode \<Rightarrow> nat \<Rightarrow> bool list \<Rightarrow> bool \<times> queue \<times> outcome" where
  "run e md from ends0 = runFrom e md from from (newQueue (length (insts (code e)))) False (runInit e ends0)"

end
