(* ===== verification/NetregexFacts.thy ===== *)
theory NetregexFacts
  imports Netregex
begin

text \<open>
  The Pike machine against its program as an automaton: the queue is a set of instructions closed under
  the empty moves at a position, each entered once, and its threads are the paths from a start.
\<close>

subsection \<open>The sparse set\<close>

definition pcs :: "queue \<Rightarrow> nat set" where
  "pcs q = fst ` set (dense q)"

definition qwf :: "nat \<Rightarrow> queue \<Rightarrow> bool" where
  "qwf n q \<longleftrightarrow> length (sparse q) = n
     \<and> (\<forall>i < length (dense q). fst (dense q ! i) < n \<and> sparse q ! fst (dense q ! i) = i)"

lemma pcs_nth: "pc \<in> pcs q \<longleftrightarrow> (\<exists>i < length (dense q). fst (dense q ! i) = pc)"
  unfolding pcs_def by (metis (no_types) imageE image_eqI in_set_conv_nth)

lemma inQueue_iff: "qwf n q \<Longrightarrow> inQueue q pc \<longleftrightarrow> pc \<in> pcs q"
  by (auto simp: inQueue_def qwf_def pcs_nth Let_def)

lemma qwf_distinct: "qwf n q \<Longrightarrow> distinct (map fst (dense q))"
  unfolding distinct_conv_nth qwf_def by (metis length_map nth_map)

lemma qwf_pcs: "qwf n q \<Longrightarrow> pcs q \<subseteq> {..<n}"
  by (auto simp: qwf_def pcs_nth)

lemma qwf_length: "qwf n q \<Longrightarrow> length (dense q) \<le> n"
proof -
  assume q: "qwf n q"
  have "card (pcs q) = length (dense q)"
    using distinct_card [OF qwf_distinct [OF q]] by (simp add: pcs_def)
  moreover have "card (pcs q) \<le> n" using card_mono [OF _ qwf_pcs [OF q]] by simp
  ultimately show ?thesis by simp
qed

lemma enter_simps [simp]:
  "dense (enter q pc t) = dense q @ [(pc, t)]" "qsteps (enter q pc t) = qsteps q + 1"
  "pcs (enter q pc t) = insert pc (pcs q)"
  by (auto simp: enter_def pcs_def)

lemma enter_wf: "qwf n q \<Longrightarrow> pc < n \<Longrightarrow> pc \<notin> pcs q \<Longrightarrow> qwf n (enter q pc t)"
proof -
  assume q: "qwf n q" and pc: "pc < n" "pc \<notin> pcs q"
  have "fst ((dense q @ [(pc, t)]) ! i) < n \<and> (sparse q)[pc := length (dense q)] ! fst ((dense q @ [(pc, t)]) ! i) = i"
    if "i < length (dense q) + 1" for i
  proof (cases "i < length (dense q)")
    case True
    then have "fst (dense q ! i) \<noteq> pc" using pc(2) by (force simp: pcs_def)
    then show ?thesis using True q by (simp add: nth_append qwf_def)
  next
    case False
    then show ?thesis using that q pc by (simp add: nth_append qwf_def)
  qed
  then show ?thesis using q by (simp add: qwf_def enter_def)
qed

lemma release_wf: "qwf n q \<Longrightarrow> qwf n (release q)"
  by (simp add: qwf_def release_def)

lemma release_simps [simp]: "dense (release q) = []" "qsteps (release q) = qsteps q" "pcs (release q) = {}"
  by (simp_all add: release_def pcs_def)

subsection \<open>Programs\<close>

definition consuming :: "inst \<Rightarrow> bool" where
  "consuming i \<longleftrightarrow> (case i of InstMatch \<Rightarrow> True | InstRune _ _ _ \<Rightarrow> True | InstRune1 _ _ \<Rightarrow> True
     | InstRuneAny _ \<Rightarrow> True | InstRuneAnyNotNL _ \<Rightarrow> True | _ \<Rightarrow> False)"

text \<open>The empty moves of an instruction at a position, in the order \<open>add\<close> follows them.\<close>

definition succs :: "env \<Rightarrow> nat \<Rightarrow> nat \<Rightarrow> nat list" where
  "succs e pos pc = (case insts (code e) ! pc of
      InstAlt out arg \<Rightarrow> [out, arg]
    | InstAltMatch out arg \<Rightarrow> [out, arg]
    | InstEmptyWidth op out \<Rightarrow> if assertAt (uni e) (inp e) pos op then [out] else []
    | InstNop out \<Rightarrow> [out]
    | InstCapture a out \<Rightarrow>
        if 0 \<le> predOf (code e) ! a \<and> \<not> look e (nat (predOf (code e) ! a)) pos then [] else [out]
    | _ \<Rightarrow> [])"

definition capsAt :: "env \<Rightarrow> nat \<Rightarrow> nat \<Rightarrow> caps \<Rightarrow> caps" where
  "capsAt e pos pc cs = (case insts (code e) ! pc of
      InstCapture a out \<Rightarrow> if 0 \<le> predOf (code e) ! a then cs else captured (code e) a pos cs
    | _ \<Rightarrow> cs)"

fun targets :: "inst \<Rightarrow> nat list" where
  "targets (InstAlt x y) = [x, y]"
| "targets (InstAltMatch x y) = [x, y]"
| "targets (InstEmptyWidth _ x) = [x]"
| "targets (InstNop x) = [x]"
| "targets (InstCapture _ x) = [x]"
| "targets (InstRune _ _ x) = [x]"
| "targets (InstRune1 _ x) = [x]"
| "targets (InstRuneAny x) = [x]"
| "targets (InstRuneAnyNotNL x) = [x]"
| "targets _ = []"

text \<open>What \<^verbatim>\<open>syntax.Compile\<close> and \<open>compileProg\<close> give: jumps stay inside, and group and scratch slots leave
  slot 0, the match's start, alone.\<close>

definition prog_wf :: "prog \<Rightarrow> bool" where
  "prog_wf p \<longleftrightarrow> start p < length (insts p)
     \<and> list_all (\<lambda>i. list_all (\<lambda>t. t < length (insts p)) (targets i)) (insts p)
     \<and> list_all (\<lambda>g. g \<noteq> 0) (grp p) \<and> list_all (\<lambda>g. g \<noteq> 0) (scratch p)
     \<and> length (scratch p) = length (grp p)
     \<and> list_all (\<lambda>i. case i of InstCapture a _ \<Rightarrow> a < length (grp p) | _ \<Rightarrow> True) (insts p)"

lemma add_unfold:
  "add (Suc k) e q pc pos cs =
     (if inQueue q pc then q
      else if consuming (insts (code e) ! pc) then enter q pc (Some cs)
      else foldl (\<lambda>q s. add k e q s pos (capsAt e pos pc cs)) (enter q pc None) (succs e pos pc))"
  by (cases "insts (code e) ! pc") (simp_all add: consuming_def succs_def capsAt_def)

declare add.simps(2) [simp del]

lemma targets_in: "prog_wf p \<Longrightarrow> pc < length (insts p) \<Longrightarrow> t \<in> set (targets (insts p ! pc)) \<Longrightarrow> t < length (insts p)"
  by (auto simp: prog_wf_def list_all_iff)

lemma succs_in: "prog_wf (code e) \<Longrightarrow> pc < length (insts (code e)) \<Longrightarrow> s \<in> set (succs e pos pc) \<Longrightarrow> s < length (insts (code e))"
  by (rule targets_in) (auto simp: succs_def split: inst.splits if_splits)

lemma captured_slot: "prog_wf p \<Longrightarrow> a < length (grp p) \<Longrightarrow> captured p a pos cs ! 0 = cs ! 0 \<and> length (captured p a pos cs) = length cs"
proof -
  assume p: "prog_wf p" and a: "a < length (grp p)"
  then have "grp p ! a \<noteq> 0" "scratch p ! a \<noteq> 0" by (auto simp: prog_wf_def list_all_iff)
  then have "0 \<le> grp p ! a \<Longrightarrow> nat (grp p ! a) \<noteq> 0" "0 \<le> scratch p ! a \<Longrightarrow> nat (scratch p ! a) \<noteq> 0" by auto
  then show ?thesis by (simp add: captured_def Let_def)
qed

lemma capsAt_slot:
  assumes "prog_wf (code e)" "pc < length (insts (code e))"
  shows "capsAt e pos pc cs ! 0 = cs ! 0 \<and> length (capsAt e pos pc cs) = length cs"
proof (cases "insts (code e) ! pc")
  case (InstCapture a out)
  then have "a < length (grp (code e))" using assms by (auto simp: prog_wf_def list_all_iff dest!: nth_mem)
  then show ?thesis using captured_slot [OF assms(1)] by (simp add: capsAt_def InstCapture)
qed (simp_all add: capsAt_def)

subsection \<open>Adding a thread\<close>

definition eps :: "env \<Rightarrow> nat \<Rightarrow> nat \<Rightarrow> nat \<Rightarrow> bool" where
  "eps e pos = (\<lambda>x y. y \<in> set (succs e pos x))\<^sup>*\<^sup>*"

text \<open>An entry of the queue: a consuming instruction has a thread, whose captures keep slot 0.\<close>

definition entry_ok :: "env \<Rightarrow> caps \<Rightarrow> nat \<times> caps option \<Rightarrow> bool" where
  "entry_ok e cs x \<longleftrightarrow> (case x of (p, t) \<Rightarrow> (t = None \<longleftrightarrow> \<not> consuming (insts (code e) ! p))
     \<and> (\<forall>c. t = Some c \<longrightarrow> c ! 0 = cs ! 0 \<and> length c = length cs))"

definition grown :: "env \<Rightarrow> nat \<Rightarrow> (nat \<Rightarrow> bool) \<Rightarrow> caps \<Rightarrow> queue \<Rightarrow> queue \<Rightarrow> bool" where
  "grown e pos R cs q q' \<longleftrightarrow> (\<exists>new. dense q' = dense q @ new \<and> qsteps q' = qsteps q + length new
     \<and> (\<forall>x \<in> set new. R (fst x) \<and> entry_ok e cs x
          \<and> (\<forall>s \<in> set (succs e pos (fst x)). s \<in> pcs q')))"

lemma grown_refl: "grown e pos R cs q q"
  by (auto simp: grown_def)

lemma grown_pcs: "grown e pos R cs q q' \<Longrightarrow> pcs q \<subseteq> pcs q'"
  by (auto simp: grown_def pcs_def)

lemma grown_length: "grown e pos R cs q q' \<Longrightarrow> length (dense q) \<le> length (dense q')"
  by (auto simp: grown_def)

lemma grown_trans:
  assumes "grown e pos R cs q q1" "grown e pos R cs q1 q2" shows "grown e pos R cs q q2"
proof -
  obtain n1 where n1: "dense q1 = dense q @ n1" "qsteps q1 = qsteps q + length n1"
    "\<forall>x \<in> set n1. R (fst x) \<and> entry_ok e cs x \<and> (\<forall>s \<in> set (succs e pos (fst x)). s \<in> pcs q1)"
    using assms(1) unfolding grown_def by blast
  obtain n2 where n2: "dense q2 = dense q1 @ n2" "qsteps q2 = qsteps q1 + length n2"
    "\<forall>x \<in> set n2. R (fst x) \<and> entry_ok e cs x \<and> (\<forall>s \<in> set (succs e pos (fst x)). s \<in> pcs q2)"
    using assms(2) unfolding grown_def by blast
  have "\<forall>x \<in> set (n1 @ n2). R (fst x) \<and> entry_ok e cs x \<and> (\<forall>s \<in> set (succs e pos (fst x)). s \<in> pcs q2)"
    using n1(3) n2(3) grown_pcs [OF assms(2)] by auto
  then show ?thesis unfolding grown_def using n1 n2 by (intro exI [of _ "n1 @ n2"]) simp
qed

lemma grown_mono: "grown e pos R cs q q' \<Longrightarrow> (\<And>p. R p \<Longrightarrow> S p) \<Longrightarrow> c ! 0 = cs ! 0 \<Longrightarrow> length c = length cs
  \<Longrightarrow> grown e pos S c q q'"
  unfolding grown_def entry_ok_def by fastforce

lemma add_spec:
  assumes "prog_wf (code e)" "qwf (length (insts (code e))) q" "pc < length (insts (code e))"
    and "length (insts (code e)) < k + length (dense q)"
  shows "qwf (length (insts (code e))) (add k e q pc pos cs) \<and> pc \<in> pcs (add k e q pc pos cs)
    \<and> grown e pos (eps e pos pc) cs q (add k e q pc pos cs)"
  using assms(2-4)
proof (induction k arbitrary: q pc cs)
  case 0
  then show ?case using qwf_length [of _ q] by fastforce
next
  case (Suc k)
  let ?n = "length (insts (code e))"
  note wf = assms(1)
  show ?case
  proof (cases "inQueue q pc")
    case True
    then have "add (Suc k) e q pc pos cs = q" "pc \<in> pcs q"
      using inQueue_iff [OF Suc.prems(1)] by (simp_all add: add_unfold)
    then show ?thesis using Suc.prems(1) grown_refl by simp
  next
    case False
    then have fresh: "pc \<notin> pcs q" using inQueue_iff [OF Suc.prems(1)] by simp
    have ewf: "qwf ?n (enter q pc t)" for t by (rule enter_wf [OF Suc.prems(1,2) fresh])
    show ?thesis
    proof (cases "consuming (insts (code e) ! pc)")
      case True
      have "succs e pos pc = []" using True by (cases "insts (code e) ! pc") (simp_all add: consuming_def succs_def)
      then have "grown e pos (eps e pos pc) cs q (enter q pc (Some cs))"
        using True by (auto simp: grown_def entry_ok_def eps_def)
      then show ?thesis using True False ewf by (simp add: add_unfold)
    next
      case nc: False
      let ?cs = "capsAt e pos pc cs"
      let ?S = "succs e pos pc"
      have slot: "?cs ! 0 = cs ! 0" "length ?cs = length cs" using capsAt_slot [OF wf Suc.prems(2)] by simp_all
      have fold: "set ss \<subseteq> set ?S \<Longrightarrow> qwf ?n q1 \<Longrightarrow> length (dense q) < length (dense q1) \<Longrightarrow>
          qwf ?n (foldl (\<lambda>q s. add k e q s pos ?cs) q1 ss)
          \<and> set ss \<subseteq> pcs (foldl (\<lambda>q s. add k e q s pos ?cs) q1 ss)
          \<and> grown e pos (eps e pos pc) cs q1 (foldl (\<lambda>q s. add k e q s pos ?cs) q1 ss)" for ss q1
      proof (induction ss arbitrary: q1)
        case Nil
        then show ?case using grown_refl by simp
      next
        case (Cons s ss)
        let ?q2 = "add k e q1 s pos ?cs"
        have s: "s \<in> set ?S" "s < ?n" using Cons.prems(1) succs_in [OF wf Suc.prems(2)] by auto
        have a: "qwf ?n ?q2" "s \<in> pcs ?q2" "grown e pos (eps e pos s) ?cs q1 ?q2"
          using Suc.IH [OF Cons.prems(2) s(2)] Cons.prems(3) Suc.prems(3) by auto
        have g: "grown e pos (eps e pos pc) cs q1 ?q2"
        proof (rule grown_mono [OF a(3)])
          show "eps e pos pc p" if "eps e pos s p" for p
            using that s(1) unfolding eps_def by (rule_tac converse_rtranclp_into_rtranclp)
        qed (simp_all add: slot)
        have "length (dense q) < length (dense ?q2)" using Cons.prems(3) grown_length [OF g] by simp
        from Cons.IH [OF _ a(1) this] Cons.prems(1) have
          r: "qwf ?n (foldl (\<lambda>q s. add k e q s pos ?cs) ?q2 ss)"
             "set ss \<subseteq> pcs (foldl (\<lambda>q s. add k e q s pos ?cs) ?q2 ss)"
             "grown e pos (eps e pos pc) cs ?q2 (foldl (\<lambda>q s. add k e q s pos ?cs) ?q2 ss)" by simp_all
        then show ?case using grown_trans [OF g r(3)] grown_pcs [OF r(3)] a(2) by auto
      qed
      let ?q' = "foldl (\<lambda>q s. add k e q s pos ?cs) (enter q pc None) ?S"
      have r: "qwf ?n ?q'" "set ?S \<subseteq> pcs ?q'" "grown e pos (eps e pos pc) cs (enter q pc None) ?q'"
        using fold [OF subset_refl ewf [of None]] by simp_all
      obtain new where new: "dense ?q' = dense q @ (pc, None) # new" "qsteps ?q' = qsteps q + 1 + length new"
        "\<forall>x \<in> set new. eps e pos pc (fst x) \<and> entry_ok e cs x \<and> (\<forall>s \<in> set (succs e pos (fst x)). s \<in> pcs ?q')"
        using r(3) unfolding grown_def by auto
      have "grown e pos (eps e pos pc) cs q ?q'"
        unfolding grown_def by (rule exI [of _ "(pc, None) # new"])
          (use new r(2) nc in \<open>auto simp: entry_ok_def eps_def\<close>)
      moreover have "pc \<in> pcs ?q'" using grown_pcs [OF r(3)] by simp
      ultimately show ?thesis using r(1) False nc by (simp add: add_unfold)
    qed
  qed
qed

lemma addThread_spec:
  assumes "prog_wf (code e)" "qwf (length (insts (code e))) q" "pc < length (insts (code e))"
  shows "qwf (length (insts (code e))) (addThread e q pc pos cs)" "pc \<in> pcs (addThread e q pc pos cs)"
    "grown e pos (eps e pos pc) cs q (addThread e q pc pos cs)"
  using add_spec [OF assms, of "Suc (length (insts (code e)))" pos cs] by (simp_all add: addThread_def)

end
