(* ===== verification/NetregexRun.thy ===== *)
theory NetregexRun
  imports NetregexFacts
begin

text \<open>
  The loop of netregex's machine: \<open>acc\<close> says that an instruction at a position reaches a match ending at
  another, \<open>path\<close> that a thread started at a position reaches an instruction, \<open>bnd\<close> names the rune
  boundaries the loop visits. A run finds a match exactly when one exists, and enters each
  instruction at most once per position.
\<close>

definition nextPos :: "string \<Rightarrow> nat \<Rightarrow> nat" where
  "nextPos s p = p + snd (runeOf s p)"

definition bnd :: "string \<Rightarrow> nat \<Rightarrow> nat \<Rightarrow> bool" where
  "bnd s from a \<longleftrightarrow> (\<exists>k. a = (nextPos s ^^ k) from)"

inductive acc :: "env \<Rightarrow> nat \<Rightarrow> nat \<Rightarrow> nat \<Rightarrow> bool" for e :: env where
  acc_match: "insts (code e) ! pc = InstMatch \<Longrightarrow> acc e pc pos pos"
| acc_eps: "s \<in> set (succs e pos pc) \<Longrightarrow> acc e s pos z \<Longrightarrow> acc e pc pos z"
| acc_rune: "consume (uni e) (insts (code e) ! pc) (fst (runeOf (inp e) pos)) = Some out \<Longrightarrow>
    acc e out (nextPos (inp e) pos) z \<Longrightarrow> acc e pc pos z"

inductive path :: "env \<Rightarrow> nat \<Rightarrow> nat \<Rightarrow> nat \<Rightarrow> bool" for e :: env and a :: nat where
  path_start: "path e a (start (code e)) a"
| path_eps: "path e a pc pos \<Longrightarrow> s \<in> set (succs e pos pc) \<Longrightarrow> path e a s pos"
| path_rune: "path e a pc pos \<Longrightarrow>
    consume (uni e) (insts (code e) ! pc) (fst (runeOf (inp e) pos)) = Some out \<Longrightarrow>
    path e a out (nextPos (inp e) pos)"

lemma path_acc: "path e a pc pos \<Longrightarrow> acc e pc pos z \<Longrightarrow> acc e (start (code e)) a z"
  by (induction rule: path.induct) (blast intro: acc.intros)+

lemma path_reach: "path e a pc pos \<Longrightarrow> eps e pos pc p \<Longrightarrow> path e a p pos"
proof -
  assume "path e a pc pos" "eps e pos pc p"
  from this(2,1) show ?thesis unfolding eps_def
    by (induction rule: rtranclp_induct) (blast intro: path_eps)+
qed

subsection \<open>Boundaries\<close>

lemma runeOf_end: "snd (runeOf s p) = 0 \<longleftrightarrow> length s \<le> p"
  using DecodeRune_width [of "drop p s"] by (auto simp: runeOf_def)

lemma runeOf_None: "fst (runeOf s p) = None \<longleftrightarrow> length s \<le> p"
  by (auto simp: runeOf_def)

lemma nextPos_le: "p \<le> nextPos s p"
  by (simp add: nextPos_def)

lemma nextPos_len: "p \<le> length s \<Longrightarrow> nextPos s p \<le> length s"
  using DecodeRune_width [of "drop p s"] by (auto simp: nextPos_def runeOf_def)

lemma nextPos_mono: "m \<le> n \<Longrightarrow> (nextPos s ^^ m) p \<le> (nextPos s ^^ n) p"
  by (induction n) (auto simp: le_Suc_eq intro: le_trans [OF _ nextPos_le])

lemma bnd_from [simp]: "bnd s from from"
  unfolding bnd_def by (rule exI [of _ 0]) simp

lemma bnd_next: "bnd s from p \<Longrightarrow> bnd s from (nextPos s p)"
  unfolding bnd_def by (metis funpow.simps(2) o_apply)

lemma bnd_ge: "bnd s from a \<Longrightarrow> from \<le> a"
  unfolding bnd_def using nextPos_mono [of 0 _ s "from"] by auto

lemma bnd_len: "bnd s from a \<Longrightarrow> from \<le> length s \<Longrightarrow> a \<le> length s"
proof -
  have "from \<le> length s \<Longrightarrow> (nextPos s ^^ k) from \<le> length s" for k
    by (induction k) (auto intro: nextPos_len)
  then show "bnd s from a \<Longrightarrow> from \<le> length s \<Longrightarrow> a \<le> length s" by (auto simp: bnd_def)
qed

lemma bnd_gap: "bnd s from a \<Longrightarrow> bnd s from p \<Longrightarrow> a < nextPos s p \<Longrightarrow> a \<le> p"
proof -
  assume "bnd s from a" "bnd s from p" and lt: "a < nextPos s p"
  then obtain m n where a: "a = (nextPos s ^^ m) from" and p: "p = (nextPos s ^^ n) from" by (auto simp: bnd_def)
  show "a \<le> p"
  proof (rule ccontr)
    assume "\<not> a \<le> p"
    then have "\<not> m \<le> n" using nextPos_mono [of m n s "from"] a p by auto
    then have "(nextPos s ^^ Suc n) from \<le> a" unfolding a by (intro nextPos_mono) simp
    then show False using lt by (simp add: p)
  qed
qed

subsection \<open>The queue's invariant\<close>

definition closed :: "env \<Rightarrow> nat \<Rightarrow> queue \<Rightarrow> bool" where
  "closed e pos q \<longleftrightarrow> (\<forall>p \<in> pcs q. set (succs e pos p) \<subseteq> pcs q)"

text \<open>A run starts threads at the boundaries, the anchored mode only at the first.\<close>

definition starts :: "env \<Rightarrow> mode \<Rightarrow> nat \<Rightarrow> nat \<Rightarrow> bool" where
  "starts e md from a \<longleftrightarrow> bnd (inp e) from a \<and> (md = modeAt \<longrightarrow> a = from)"

definition thread_ok :: "env \<Rightarrow> mode \<Rightarrow> nat \<Rightarrow> nat \<Rightarrow> nat \<Rightarrow> caps \<Rightarrow> bool" where
  "thread_ok e md from pos p c \<longleftrightarrow> length c = ncap (code e)
     \<and> (\<exists>a. starts e md from a \<and> a \<le> pos \<and> path e a p pos \<and> (0 < ncap (code e) \<longrightarrow> c ! 0 = int a))"

definition entries :: "env \<Rightarrow> mode \<Rightarrow> nat \<Rightarrow> nat \<Rightarrow> (nat \<times> caps option) list \<Rightarrow> bool" where
  "entries e md from pos ds \<longleftrightarrow> (\<forall>(p, t) \<in> set ds. p < length (insts (code e))
     \<and> (t = None \<longleftrightarrow> \<not> consuming (insts (code e) ! p)) \<and> (\<forall>c. t = Some c \<longrightarrow> thread_ok e md from pos p c))"

definition qinv :: "env \<Rightarrow> mode \<Rightarrow> nat \<Rightarrow> nat \<Rightarrow> queue \<Rightarrow> bool" where
  "qinv e md from pos q \<longleftrightarrow> qwf (length (insts (code e))) q \<and> closed e pos q \<and> entries e md from pos (dense q)"

lemma qinv_empty: "qwf (length (insts (code e))) q \<Longrightarrow> dense q = [] \<Longrightarrow> qinv e md from pos q"
  by (simp add: qinv_def closed_def entries_def pcs_def)

lemma grown_closed: "closed e pos q \<Longrightarrow> grown e pos R cs q q' \<Longrightarrow> closed e pos q'"
proof -
  assume q: "closed e pos q" and g: "grown e pos R cs q q'"
  obtain new where new: "dense q' = dense q @ new"
      "\<forall>x \<in> set new. R (fst x) \<and> entry_ok e cs x \<and> (\<forall>s \<in> set (succs e pos (fst x)). s \<in> pcs q')"
    using g unfolding grown_def by (elim exE conjE)
  have "set (succs e pos p) \<subseteq> pcs q'" if "p \<in> pcs q'" for p
  proof (cases "p \<in> pcs q")
    case True
    then show ?thesis using q grown_pcs [OF g] unfolding closed_def by blast
  next
    case False
    then have "p \<in> fst ` set new" using that by (auto simp: pcs_def new(1))
    then show ?thesis using new(2) by auto
  qed
  then show ?thesis by (simp add: closed_def)
qed

lemma addThread_qinv:
  assumes wf: "prog_wf (code e)" and q: "qinv e md from pos q" and pc: "pc < length (insts (code e))"
    and t: "thread_ok e md from pos pc cs"
  shows "qinv e md from pos (addThread e q pc pos cs)"
proof -
  let ?q = "addThread e q pc pos cs"
  note s = addThread_spec [OF wf _ pc, of q pos cs]
  have w: "qwf (length (insts (code e))) q" "closed e pos q" "entries e md from pos (dense q)"
    using q by (simp_all add: qinv_def)
  obtain new where new: "dense ?q = dense q @ new"
    "\<forall>x \<in> set new. eps e pos pc (fst x) \<and> entry_ok e cs x \<and> (\<forall>s \<in> set (succs e pos (fst x)). s \<in> pcs ?q)"
    using s(3) [OF w(1)] unfolding grown_def by (elim exE conjE)
  obtain a where a: "length cs = ncap (code e)" "starts e md from a" "a \<le> pos" "path e a pc pos"
    "0 < ncap (code e) \<longrightarrow> cs ! 0 = int a" using t unfolding thread_ok_def by (elim conjE exE)
  have lt: "fst x < length (insts (code e))" if "x \<in> set new" for x
  proof -
    have "fst x \<in> pcs ?q" using that by (simp add: pcs_def new(1))
    then show ?thesis using qwf_pcs [OF s(1) [OF w(1)]] by auto
  qed
  have "entries e md from pos new"
    unfolding entries_def
  proof (intro ballI, clarify, intro conjI allI impI)
    fix p t
    assume x: "(p, t) \<in> set new"
    then have n: "eps e pos pc p" "entry_ok e cs (p, t)" using new(2) by auto
    show "p < length (insts (code e))" using lt [OF x] by simp
    show "(t = None) = (\<not> consuming (insts (code e) ! p))" using n(2) by (simp add: entry_ok_def)
    fix c
    assume "t = Some c"
    then have c: "c ! 0 = cs ! 0" "length c = length cs" using n(2) by (simp_all add: entry_ok_def)
    show "thread_ok e md from pos p c"
      unfolding thread_ok_def using a c path_reach [OF a(4) n(1)] by auto
  qed
  then have "entries e md from pos (dense ?q)" using w(3) by (auto simp: entries_def new(1))
  then show ?thesis using s(1) [OF w(1)] grown_closed [OF w(2) s(3) [OF w(1)]] by (simp add: qinv_def)
qed

lemma seed_qinv:
  assumes wf: "prog_wf (code e)" and q: "qinv e md from pos q" and st: "starts e md from pos"
  shows "qinv e md from pos (seed e q pos)" "start (code e) \<in> pcs (seed e q pos)" "pcs q \<subseteq> pcs (seed e q pos)"
proof -
  let ?cs = "replicate (ncap (code e)) (- 1 :: int)"
  let ?c = "if ?cs = [] then ?cs else ?cs[0 := int pos]"
  have lt: "start (code e) < length (insts (code e))" using wf by (simp add: prog_wf_def)
  have t: "thread_ok e md from pos (start (code e)) ?c"
    using st path_start by (auto simp: thread_ok_def)
  have s: "seed e q pos = addThread e q (start (code e)) pos ?c" by (simp add: seed_def Let_def)
  have w: "qwf (length (insts (code e))) q" using q by (simp add: qinv_def)
  show "qinv e md from pos (seed e q pos)" unfolding s by (rule addThread_qinv [OF wf q lt t])
  show "start (code e) \<in> pcs (seed e q pos)" "pcs q \<subseteq> pcs (seed e q pos)"
    unfolding s using addThread_spec [OF wf w lt] grown_pcs by blast+
qed

lemma acc_thread:
  assumes "acc e p pos z" "p \<in> pcs q" "qinv e md from pos q"
  shows "\<exists>p' c. (p', Some c) \<in> set (dense q) \<and> acc e p' pos z \<and> consuming (insts (code e) ! p')"
  using assms
proof (induction rule: acc.induct)
  case (acc_match pc pos)
  then obtain t where t: "(pc, t) \<in> set (dense q)" by (auto simp: pcs_def)
  have c: "consuming (insts (code e) ! pc)" using acc_match by (simp add: consuming_def)
  then obtain c' where "t = Some c'" using t acc_match by (fastforce simp: qinv_def entries_def)
  then show ?case using t c acc.acc_match [OF acc_match.hyps] by blast
next
  case (acc_eps s pos pc z)
  then show ?case by (auto simp: qinv_def closed_def)
next
  case (acc_rune pc pos out z)
  then obtain t where t: "(pc, t) \<in> set (dense q)" by (auto simp: pcs_def)
  have c: "consuming (insts (code e) ! pc)"
    using acc_rune.hyps(1) by (auto simp: consume_def consuming_def split: option.splits inst.splits)
  then obtain c' where "t = Some c'" using t acc_rune.prems by (fastforce simp: qinv_def entries_def)
  then show ?case using t c acc.acc_rune [OF acc_rune.hyps(1,2)] by blast
qed

subsection \<open>A step\<close>

definition isMatch :: "env \<Rightarrow> nat \<times> caps option \<Rightarrow> bool" where
  "isMatch e x \<longleftrightarrow> insts (code e) ! fst x = InstMatch \<and> snd x \<noteq> None"

text \<open>The part of \<open>step\<close> that moves threads over a rune.\<close>

fun moved :: "env \<Rightarrow> nat \<Rightarrow> rune option \<Rightarrow> (nat \<times> caps option) list \<Rightarrow> queue \<Rightarrow> queue" where
  "moved e nx c [] q = q"
| "moved e nx c ((pc, None) # ds) q = moved e nx c ds q"
| "moved e nx c ((pc, Some cs) # ds) q =
     (case consume (uni e) (insts (code e) ! pc) c of None \<Rightarrow> moved e nx c ds q
      | Some out \<Rightarrow> moved e nx c ds (addThread e q out nx cs))"

lemma consume_match [simp]: "consume u InstMatch c = None"
  by (simp add: consume_def split: option.split)

lemma step_moves:
  "\<forall>x \<in> set ds. \<not> isMatch e x \<Longrightarrow> step e md pos nx c ds o' = o'\<lparr>nextq := moved e nx c ds (nextq o'), hit := False\<rparr>"
  by (induction e md pos nx c ds o' rule: step.induct) (auto simp: isMatch_def split: option.split)

lemma step_hits:
  "\<forall>x \<in> set ds1. \<not> isMatch e x \<Longrightarrow> insts (code e) ! pc = InstMatch \<Longrightarrow> md \<noteq> modeEnds \<Longrightarrow>
   step e md pos nx c (ds1 @ (pc, Some cs) # ds2) o' =
     o'\<lparr>nextq := moved e nx c ds1 (nextq o'),
        matchcap := (if md = modeFind then cs[1 := int pos] else matchcap o'), hit := True\<rparr>"
proof (induction ds1 arbitrary: o')
  case (Cons x ds1)
  obtain p t where x: "x = (p, t)" by (cases x)
  show ?case using Cons by (cases t) (auto simp: x isMatch_def split: option.split)
qed simp

lemma step_ends:
  "step e modeEnds pos nx c ds o' = o'\<lparr>nextq := moved e nx c ds (nextq o'),
     ends := (if \<exists>x \<in> set ds. isMatch e x then (ends o')[pos := True] else ends o'), hit := False\<rparr>"
proof (induction ds arbitrary: o')
  case (Cons x ds)
  obtain p t where x: "x = (p, t)" by (cases x)
  show ?case
  proof (cases t)
    case None
    then have "\<not> isMatch e x" by (simp add: x isMatch_def)
    then show ?thesis using Cons [of o'] None by (simp add: x)
  next
    case (Some cs)
    then have im: "isMatch e x \<longleftrightarrow> insts (code e) ! p = InstMatch" by (simp add: x isMatch_def)
    show ?thesis
    proof (cases "insts (code e) ! p = InstMatch")
      case True
      then show ?thesis using im Some Cons [of "o'\<lparr>ends := (ends o')[pos := True]\<rparr>"] by (simp add: x)
    next
      case False
      then show ?thesis using im Some
        by (cases "consume (uni e) (insts (code e) ! p) c") (simp_all add: x Cons)
    qed
  qed
qed simp

lemma consume_target: "consume u i c = Some out \<Longrightarrow> out \<in> set (targets i)"
  by (auto simp: consume_def split: option.splits inst.splits if_splits)

lemma thread_next:
  assumes "thread_ok e md from pos p c" "consume (uni e) (insts (code e) ! p) (fst (runeOf (inp e) pos)) = Some out"
  shows "thread_ok e md from (nextPos (inp e) pos) out c"
  using assms nextPos_le [of pos "inp e"] path_rune by (fastforce simp: thread_ok_def intro: le_trans)

lemma moved_qinv:
  assumes wf: "prog_wf (code e)" and ds: "entries e md from pos ds"
    and q: "qinv e md from (nextPos (inp e) pos) q"
  shows "qinv e md from (nextPos (inp e) pos) (moved e (nextPos (inp e) pos) (fst (runeOf (inp e) pos)) ds q)
    \<and> pcs q \<subseteq> pcs (moved e (nextPos (inp e) pos) (fst (runeOf (inp e) pos)) ds q)
    \<and> (\<forall>(p, t) \<in> set ds. \<forall>out. t \<noteq> None \<longrightarrow>
         consume (uni e) (insts (code e) ! p) (fst (runeOf (inp e) pos)) = Some out \<longrightarrow>
         out \<in> pcs (moved e (nextPos (inp e) pos) (fst (runeOf (inp e) pos)) ds q))"
  using ds q
proof (induction ds arbitrary: q)
  case (Cons x ds)
  let ?c = "fst (runeOf (inp e) pos)" and ?nx = "nextPos (inp e) pos"
  obtain p t where x: "x = (p, t)" by (cases x)
  have d: "entries e md from pos ds" using Cons.prems(1) by (simp add: entries_def)
  show ?case
  proof (cases "\<exists>cs out. t = Some cs \<and> consume (uni e) (insts (code e) ! p) ?c = Some out")
    case False
    then have "moved e ?nx ?c (x # ds) q = moved e ?nx ?c ds q" by (cases t) (auto simp: x split: option.split)
    then show ?thesis using Cons.IH [OF d Cons.prems(2)] False by (auto simp: x)
  next
    case True
    then obtain cs out where t: "t = Some cs" "consume (uni e) (insts (code e) ! p) ?c = Some out" by blast
    have p: "p < length (insts (code e))" "thread_ok e md from pos p cs"
      using Cons.prems(1) by (simp_all add: entries_def x t(1))
    have lt: "out < length (insts (code e))" using targets_in [OF wf p(1) consume_target [OF t(2)]] .
    let ?q = "addThread e q out ?nx cs"
    have q': "qinv e md from ?nx ?q" by (rule addThread_qinv [OF wf Cons.prems(2) lt thread_next [OF p(2) t(2)]])
    have w: "qwf (length (insts (code e))) q" using Cons.prems(2) by (simp add: qinv_def)
    have o: "out \<in> pcs ?q" "pcs q \<subseteq> pcs ?q" using addThread_spec [OF wf w lt] grown_pcs by blast+
    have m: "moved e ?nx ?c (x # ds) q = moved e ?nx ?c ds ?q" by (simp add: x t)
    show ?thesis using Cons.IH [OF d q'] o t unfolding m by (auto simp: x)
  qed
qed simp

lemma acc_moves:
  assumes "acc e p pos z" "consuming (insts (code e) ! p)" "insts (code e) ! p \<noteq> InstMatch"
  obtains out where "consume (uni e) (insts (code e) ! p) (fst (runeOf (inp e) pos)) = Some out"
    "acc e out (nextPos (inp e) pos) z"
  using assms by (cases rule: acc.cases) (auto simp: consuming_def succs_def split: inst.splits)

text \<open>Every match from an instruction of the queue ends here or continues from the moved threads.\<close>

lemma moved_acc:
  assumes wf: "prog_wf (code e)" and q: "qinv e md from pos q" and ds: "set ds \<subseteq> set (dense q)"
    and nq: "qinv e md from (nextPos (inp e) pos) nq"
    and a: "(p, Some c) \<in> set ds" "acc e p pos z" "insts (code e) ! p \<noteq> InstMatch"
  shows "\<exists>p' \<in> pcs (moved e (nextPos (inp e) pos) (fst (runeOf (inp e) pos)) ds nq).
    acc e p' (nextPos (inp e) pos) z"
proof -
  have en: "entries e md from pos ds" using q ds by (auto simp: qinv_def entries_def)
  then have "consuming (insts (code e) ! p)" using a(1) by (fastforce simp: entries_def)
  from acc_moves [OF a(2) this a(3)] obtain out where
    "consume (uni e) (insts (code e) ! p) (fst (runeOf (inp e) pos)) = Some out" "acc e out (nextPos (inp e) pos) z" .
  then show ?thesis using moved_qinv [OF wf en nq] a(1) by fastforce
qed

lemma acc_match_here: "acc e p pos z \<Longrightarrow> insts (code e) ! p = InstMatch \<Longrightarrow> z = pos"
  by (erule acc.cases) (auto simp: succs_def)

subsection \<open>A turn\<close>

definition seeded :: "env \<Rightarrow> mode \<Rightarrow> nat \<Rightarrow> nat \<Rightarrow> bool \<Rightarrow> queue \<Rightarrow> queue" where
  "seeded e md from pos found q = (if \<not> found \<and> (md \<noteq> modeAt \<or> pos = from) then seed e q pos else q)"

lemma turn_simp:
  "turn e md from pos q found o' =
     (release (seeded e md from pos found q),
      step e md pos (nextPos (inp e) pos) (fst (runeOf (inp e) pos)) (dense (seeded e md from pos found q)) o')"
  by (simp add: turn_def seeded_def Let_def nextPos_def)

lemma runFrom_turn:
  "turn e md from pos q found o' = (spent, o1) \<Longrightarrow> runFrom e md from pos q found o' =
     (if (hit o1 \<or> found) \<and> md \<noteq> modeFind \<or> snd (runeOf (inp e) pos) = 0 then (hit o1 \<or> found, spent, o1)
      else if dense (nextq o1) = [] \<and> (hit o1 \<or> found \<or> md = modeAt) then (hit o1 \<or> found, spent, o1)
      else runFrom e md from (nextPos (inp e) pos) (nextq o1) (hit o1 \<or> found) (o1\<lparr>nextq := spent\<rparr>))"
  unfolding nextPos_def by (subst runFrom.simps) (simp only: Let_def prod.case disj_assoc)

text \<open>The turn that finds no match.\<close>

lemma turn_moves:
  assumes "\<forall>x \<in> set (dense (seeded e md from pos found q)). \<not> isMatch e x"
  obtains o1 where "turn e md from pos q found o' = (release (seeded e md from pos found q), o1)"
    "nextq o1 = moved e (nextPos (inp e) pos) (fst (runeOf (inp e) pos)) (dense (seeded e md from pos found q)) (nextq o')"
    "\<not> hit o1" "ends o1 = ends o'" "matchcap o1 = matchcap o'"
  by (rule that [OF turn_simp]) (simp_all add: step_moves [OF assms])

lemma seeded_qinv:
  assumes "prog_wf (code e)" "qinv e md from pos q" "bnd (inp e) from pos"
  shows "qinv e md from pos (seeded e md from pos found q)" "pcs q \<subseteq> pcs (seeded e md from pos found q)"
    "\<not> found \<Longrightarrow> starts e md from pos \<Longrightarrow> start (code e) \<in> pcs (seeded e md from pos found q)"
proof -
  have "\<not> found \<and> (md \<noteq> modeAt \<or> pos = from) \<Longrightarrow> starts e md from pos" using assms(3) by (auto simp: starts_def)
  then show "qinv e md from pos (seeded e md from pos found q)" "pcs q \<subseteq> pcs (seeded e md from pos found q)"
    using seed_qinv [OF assms(1,2)] assms(2) by (auto simp: seeded_def)
  show "\<not> found \<Longrightarrow> starts e md from pos \<Longrightarrow> start (code e) \<in> pcs (seeded e md from pos found q)"
    using seed_qinv [OF assms(1,2)] by (auto simp: seeded_def starts_def)
qed

text \<open>All matches of starts before \<open>pos\<close> that end at \<open>z\<close> are still to come from the queue.\<close>

definition pending :: "env \<Rightarrow> mode \<Rightarrow> nat \<Rightarrow> nat \<Rightarrow> queue \<Rightarrow> nat \<Rightarrow> bool" where
  "pending e md from pos q z \<longleftrightarrow>
     (\<forall>a < pos. starts e md from a \<longrightarrow> acc e (start (code e)) a z \<longrightarrow> (\<exists>p \<in> pcs q. acc e p pos z))"

lemma pending_seeded:
  assumes "prog_wf (code e)" "qinv e md from pos q" "bnd (inp e) from pos" "pending e md from pos q z"
    and "starts e md from a" "a \<le> pos" "acc e (start (code e)) a z"
  shows "\<exists>p \<in> pcs (seeded e md from pos False q). acc e p pos z"
proof (cases "a = pos")
  case True
  then show ?thesis using seeded_qinv(3) [OF assms(1-3), of False] assms(5,7) by auto
next
  case False
  then have "\<exists>p \<in> pcs q. acc e p pos z" using assms(4-7) unfolding pending_def by (metis nat_less_le)
  then show ?thesis using seeded_qinv(2) [OF assms(1-3), of False] by blast
qed

text \<open>The queues between turns.\<close>

definition idle :: "env \<Rightarrow> queue \<Rightarrow> bool" where
  "idle e q \<longleftrightarrow> qwf (length (insts (code e))) q \<and> dense q = []"

lemma idle_release: "qinv e md from pos q \<Longrightarrow> idle e (release q)"
  by (simp add: idle_def qinv_def release_wf)

lemma idle_qinv: "idle e q \<Longrightarrow> qinv e md from pos q"
  by (simp add: idle_def qinv_empty)

lemma bnd_next_gap: "bnd s from p \<Longrightarrow> bnd s from a \<Longrightarrow> a < nextPos s p \<Longrightarrow> a \<le> p"
  by (rule bnd_gap)

lemma turn_pending:
  assumes wf: "prog_wf (code e)" and q: "qinv e md from pos q" and b: "bnd (inp e) from pos"
    and idle: "idle e nq" and pend: "pending e md from pos q z"
    and ds: "ds = dense (seeded e md from pos False q)"
    and nm: "z = pos \<longrightarrow> md \<noteq> modeEnds \<longrightarrow> (\<forall>x \<in> set ds. \<not> isMatch e x)"
    and z: "\<not> (z = pos \<and> md = modeEnds)"
  shows "pending e md from (nextPos (inp e) pos)
    (moved e (nextPos (inp e) pos) (fst (runeOf (inp e) pos)) ds nq) z"
  unfolding pending_def
proof (intro allI impI)
  fix a
  assume a: "a < nextPos (inp e) pos" "starts e md from a" "acc e (start (code e)) a z"
  have "a \<le> pos" using bnd_gap [OF _ b a(1)] a(2) by (simp add: starts_def)
  from pending_seeded [OF wf q b pend a(2) this a(3)]
  obtain p where p: "p \<in> pcs (seeded e md from pos False q)" "acc e p pos z" by blast
  note sq = seeded_qinv(1) [OF wf q b, of False]
  from acc_thread [OF p(2,1) sq] obtain p' c where
    t: "(p', Some c) \<in> set ds" "acc e p' pos z" "consuming (insts (code e) ! p')" unfolding ds by blast
  have "insts (code e) ! p' \<noteq> InstMatch"
  proof
    assume m: "insts (code e) ! p' = InstMatch"
    then have "z = pos" using acc_match_here t(2) by blast
    then show False using nm z t(1) m by (auto simp: isMatch_def)
  qed
  from moved_acc [OF wf sq _ idle_qinv [OF idle] t(1,2) this]
  show "\<exists>p \<in> pcs (moved e (nextPos (inp e) pos) (fst (runeOf (inp e) pos)) ds nq). acc e p (nextPos (inp e) pos) z"
    unfolding ds by simp
qed

lemma turn_qinv:
  assumes "prog_wf (code e)" "qinv e md from pos q" "set ds \<subseteq> set (dense q)" "idle e nq"
  shows "qinv e md from (nextPos (inp e) pos) (moved e (nextPos (inp e) pos) (fst (runeOf (inp e) pos)) ds nq)"
proof -
  have "entries e md from pos ds" using assms(2,3) by (auto simp: qinv_def entries_def)
  then show ?thesis using moved_qinv [OF assms(1) _ idle_qinv [OF assms(4)]] by blast
qed

subsection \<open>Whether a match exists\<close>

lemma matched_thread:
  assumes "qinv e md from pos q" "(p, Some c) \<in> set (dense q)" "insts (code e) ! p = InstMatch"
  shows "\<exists>a. starts e md from a \<and> a \<le> pos \<and> acc e (start (code e)) a pos \<and> (0 < ncap (code e) \<longrightarrow> c ! 0 = int a)"
proof -
  have "thread_ok e md from pos p c" using assms by (fastforce simp: qinv_def entries_def)
  then show ?thesis using path_acc acc_match [OF assms(3)] by (fastforce simp: thread_ok_def)
qed

lemma isMatch_split:
  assumes "\<exists>x \<in> set ds. isMatch e x"
  obtains ds1 p c ds2 where "ds = ds1 @ (p, Some c) # ds2" "\<forall>x \<in> set ds1. \<not> isMatch e x" "insts (code e) ! p = InstMatch"
proof -
  from split_list_first_prop [OF assms] obtain ds1 x ds2 where
    x: "ds = ds1 @ x # ds2" "isMatch e x" "\<forall>y \<in> set ds1. \<not> isMatch e y" by blast
  then show ?thesis using that [of ds1 "fst x" "the (snd x)" ds2] by (cases x) (auto simp: isMatch_def)
qed

lemma end_no_match:
  assumes "qinv e md from pos q" "length (inp e) \<le> pos" "p \<in> pcs q" "acc e p pos z"
  shows "\<exists>x \<in> set (dense q). isMatch e x"
proof -
  from acc_thread [OF assms(4,3,1)] obtain p' c where
    t: "(p', Some c) \<in> set (dense q)" "acc e p' pos z" "consuming (insts (code e) ! p')" by blast
  have "fst (runeOf (inp e) pos) = None" using runeOf_None assms(2) by blast
  then have "insts (code e) ! p' = InstMatch" using acc_moves [OF t(2,3)] by (auto simp: consume_def)
  then show ?thesis using t(1) by (force simp: isMatch_def)
qed

lemma run_exists:
  assumes wf: "prog_wf (code e)" and md: "md = modeAny \<or> md = modeAt"
  shows "qinv e md from pos q \<Longrightarrow> bnd (inp e) from pos \<Longrightarrow> from \<le> length (inp e) \<Longrightarrow> idle e (nextq o') \<Longrightarrow>
    \<forall>z. pending e md from pos q z \<Longrightarrow>
    fst (runFrom e md from pos q False o') \<longleftrightarrow> (\<exists>a z. starts e md from a \<and> acc e (start (code e)) a z)"
proof (induction "length (inp e) - pos" arbitrary: pos q o' rule: less_induct)
  case less
  note q = less.prems(1) and b = less.prems(2)
  let ?q = "seeded e md from pos False q" and ?nx = "nextPos (inp e) pos" and ?c = "fst (runeOf (inp e) pos)"
  note sq = seeded_qinv [OF wf q b, of False]
  have len: "pos \<le> length (inp e)" using bnd_len [OF b less.prems(3)] .
  show ?case
  proof (cases "\<exists>x \<in> set (dense ?q). isMatch e x")
    case True
    then obtain ds1 p c ds2 where d: "dense ?q = ds1 @ (p, Some c) # ds2" "\<forall>x \<in> set ds1. \<not> isMatch e x"
      "insts (code e) ! p = InstMatch" by (rule isMatch_split)
    have "md \<noteq> modeEnds" "md \<noteq> modeFind" using md by auto
    then have "fst (runFrom e md from pos q False o')"
      by (subst runFrom.simps) (simp add: turn_simp d(1) step_hits [OF d(2,3)])
    moreover have "\<exists>a z. starts e md from a \<and> acc e (start (code e)) a z"
      using matched_thread [OF sq(1), of p c] d by auto
    ultimately show ?thesis by simp
  next
    case False
    then have nm: "\<forall>x \<in> set (dense ?q). \<not> isMatch e x" by blast
    let ?m = "moved e ?nx ?c (dense ?q) (nextq o')"
    have pend: "\<forall>z. pending e md from ?nx ?m z"
      using turn_pending [OF wf q b less.prems(4) _ refl] less.prems(5) nm md by auto
    have qm: "qinv e md from ?nx ?m" by (rule turn_qinv [OF wf sq(1) subset_refl less.prems(4)])
    obtain o1 where o1: "turn e md from pos q False o' = (release ?q, o1)" "nextq o1 = ?m" "\<not> hit o1"
      using turn_moves [OF nm] by metis
    note unf = runFrom_turn [OF o1(1)]
    have some: "\<exists>p \<in> pcs ?q. acc e p pos z" if "starts e md from a" "acc e (start (code e)) a z" "a \<le> pos" for a z
      using pending_seeded [OF wf q b _ that(1,3,2)] less.prems(5) by blast
    show ?thesis
    proof (cases "snd (runeOf (inp e) pos) = 0")
      case True
      then have e: "length (inp e) \<le> pos" by (simp add: runeOf_end)
      have "\<not> fst (runFrom e md from pos q False o')" using True o1(3) by (simp add: unf)
      moreover have "\<not> (starts e md from a \<and> acc e (start (code e)) a z)" for a z
      proof
        assume a: "starts e md from a \<and> acc e (start (code e)) a z"
        then have "a \<le> pos" using bnd_len [OF _ less.prems(3)] len e by (auto simp: starts_def)
        then show False using some a end_no_match [OF sq(1) e] nm by blast
      qed
      ultimately show ?thesis by blast
    next
      case w: False
      show ?thesis
      proof (cases "dense ?m = [] \<and> md = modeAt")
        case True
        have "\<not> fst (runFrom e md from pos q False o')" unfolding unf o1(2) using conjunct1 [OF True] conjunct2 [OF True] w o1(3) by simp
        moreover have "\<not> (starts e md from a \<and> acc e (start (code e)) a z)" for a z
        proof
          assume a: "starts e md from a \<and> acc e (start (code e)) a z"
          then have "a < ?nx" using True w bnd_ge [OF b] by (auto simp: starts_def nextPos_def)
          then show False using pend a True by (auto simp: pending_def pcs_def)
        qed
        ultimately show ?thesis by blast
      next
        case False
        have r: "runFrom e md from pos q False o' = runFrom e md from ?nx ?m False (o1\<lparr>nextq := release ?q\<rparr>)"
          using False w o1(2,3) by (auto simp: unf)
        have "length (inp e) - ?nx < length (inp e) - pos"
          using w len by (simp add: nextPos_def runeOf_def split: if_splits)
        from less.hyps [OF this qm bnd_next [OF b] less.prems(3) _ pend]
        show ?thesis unfolding r using idle_release [OF sq(1)] by simp
      qed
    qed
  qed
qed

end
