(* ===== verification/NetregexEnds.thy ===== *)
theory NetregexEnds
  imports NetregexRun
begin

text \<open>
  What a run of netregex's machine computes, from the loop's invariants: whether a match exists (the
  modes of IsMatch and of a lookahead), the positions a match ends at (a lookbehind's table), and how
  many queue insertions it makes, the unit of the package's bound.
\<close>

lemma idle_new: "idle e (newQueue (length (insts (code e))))"
  by (simp add: idle_def newQueue_def qwf_def)

lemma pending_from: "pending e md from from q z"
  using bnd_ge by (fastforce simp: pending_def starts_def)

lemma run_matches:
  assumes "prog_wf (code e)" "md = modeAny \<or> md = modeAt" "from \<le> length (inp e)"
  shows "fst (run e md from ends0) \<longleftrightarrow> (\<exists>a z. starts e md from a \<and> acc e (start (code e)) a z)"
  unfolding run_def
  by (rule run_exists [OF assms(1,2) idle_qinv [OF idle_new] bnd_from assms(3)])
    (simp_all add: runInit_def idle_new pending_from)

lemma run_At:
  "prog_wf (code e) \<Longrightarrow> from \<le> length (inp e) \<Longrightarrow>
   fst (run e modeAt from ends0) \<longleftrightarrow> (\<exists>z. acc e (start (code e)) from z)"
  by (subst run_matches) (auto simp: starts_def)

lemma run_Any:
  "prog_wf (code e) \<Longrightarrow> from \<le> length (inp e) \<Longrightarrow>
   fst (run e modeAny from ends0) \<longleftrightarrow> (\<exists>a z. bnd (inp e) from a \<and> acc e (start (code e)) a z)"
  by (subst run_matches) (auto simp: starts_def)

subsection \<open>The ends of matches\<close>

lemma acc_bnd: "acc e p a z \<Longrightarrow> bnd (inp e) from a \<Longrightarrow> bnd (inp e) from z \<and> a \<le> z"
  by (induction rule: acc.induct) (auto intro: le_trans [OF nextPos_le] bnd_next)

lemma consume_width: "consume u i (fst (runeOf s pos)) = Some out \<Longrightarrow> pos < nextPos s pos"
  using runeOf_end [of s pos] runeOf_None [of s pos] by (cases "fst (runeOf s pos)") (auto simp: consume_def nextPos_def)

lemma acc_after: "acc e p nx z \<Longrightarrow> nx \<le> z"
  by (induction rule: acc.induct) (auto intro: le_trans [OF nextPos_le])

lemma match_now:
  assumes "qinv e md from pos q" "p \<in> pcs q" "acc e p pos pos"
  shows "\<exists>x \<in> set (dense q). isMatch e x"
proof -
  from acc_thread [OF assms(3,2,1)] obtain p' c where
    t: "(p', Some c) \<in> set (dense q)" "acc e p' pos pos" "consuming (insts (code e) ! p')" by blast
  have "insts (code e) ! p' = InstMatch"
  proof (rule ccontr)
    assume "insts (code e) ! p' \<noteq> InstMatch"
    from acc_moves [OF t(2,3) this] obtain out where
      "consume (uni e) (insts (code e) ! p') (fst (runeOf (inp e) pos)) = Some out"
      "acc e out (nextPos (inp e) pos) pos" .
    then show False using consume_width acc_after by fastforce
  qed
  then show ?thesis using t(1) by (force simp: isMatch_def)
qed

lemma step_ends_sel:
  "nextq (step e modeEnds pos nx c ds o') = moved e nx c ds (nextq o')" "\<not> hit (step e modeEnds pos nx c ds o')"
  "ends (step e modeEnds pos nx c ds o') =
     (if \<exists>x \<in> set ds. isMatch e x then (ends o')[pos := True] else ends o')"
  by (simp_all add: step_ends split del: if_split)

lemma run_ends:
  assumes wf: "prog_wf (code e)"
  shows "qinv e modeEnds from pos q \<Longrightarrow> bnd (inp e) from pos \<Longrightarrow> from \<le> length (inp e) \<Longrightarrow> idle e (nextq o') \<Longrightarrow>
    \<forall>z \<ge> pos. pending e modeEnds from pos q z \<Longrightarrow> length (ends o') = Suc (length (inp e)) \<Longrightarrow> z \<le> length (inp e) \<Longrightarrow>
    ends (snd (snd (runFrom e modeEnds from pos q False o'))) ! z \<longleftrightarrow>
      ends o' ! z \<or> (pos \<le> z \<and> (\<exists>a. bnd (inp e) from a \<and> acc e (start (code e)) a z))"
proof (induction "length (inp e) - pos" arbitrary: pos q o' rule: less_induct)
  case less
  note q = less.prems(1) and b = less.prems(2)
  let ?md = modeEnds
  let ?q = "seeded e ?md from pos False q" and ?nx = "nextPos (inp e) pos" and ?c = "fst (runeOf (inp e) pos)"
  let ?m = "moved e ?nx ?c (dense ?q) (nextq o')"
  note sq = seeded_qinv [OF wf q b, of False]
  have len: "pos \<le> length (inp e)" using bnd_len [OF b less.prems(3)] .
  obtain o1 where o1: "turn e ?md from pos q False o' = (release ?q, o1)" "nextq o1 = ?m" "\<not> hit o1"
      "ends o1 = (if \<exists>x \<in> set (dense ?q). isMatch e x then (ends o')[pos := True] else ends o')"
    by (rule that [OF turn_simp step_ends_sel])
  have here: "(\<exists>x \<in> set (dense ?q). isMatch e x) \<longleftrightarrow> (\<exists>a. bnd (inp e) from a \<and> acc e (start (code e)) a pos)"
  proof
    assume "\<exists>x \<in> set (dense ?q). isMatch e x"
    then obtain ds1 p c ds2 where "dense ?q = ds1 @ (p, Some c) # ds2" "insts (code e) ! p = InstMatch" by (rule isMatch_split)
    then show "\<exists>a. bnd (inp e) from a \<and> acc e (start (code e)) a pos"
      using matched_thread [OF sq(1), of p c] by (auto simp: starts_def)
  next
    assume "\<exists>a. bnd (inp e) from a \<and> acc e (start (code e)) a pos"
    then obtain a where a: "bnd (inp e) from a" "acc e (start (code e)) a pos" by blast
    have "starts e ?md from a" "a \<le> pos" using a acc_bnd [OF a(2,1)] by (simp_all add: starts_def)
    then obtain p where "p \<in> pcs ?q" "acc e p pos pos"
      using pending_seeded [OF wf q b _ _ _ a(2)] less.prems(5) by blast
    then show "\<exists>x \<in> set (dense ?q). isMatch e x" using match_now [OF sq(1)] by blast
  qed
  have e1: "length (ends o1) = Suc (length (inp e))" using less.prems(6) o1(4) by simp
  have ez: "ends o1 ! z \<longleftrightarrow> ends o' ! z \<or> z = pos \<and> (\<exists>a. bnd (inp e) from a \<and> acc e (start (code e)) a z)"
  proof (cases "z = pos")
    case True
    then show ?thesis using less.prems(6) len by (auto simp: o1(4) here)
  next
    case False
    then show ?thesis by (simp add: o1(4))
  qed
  show ?case
  proof (cases "snd (runeOf (inp e) pos) = 0")
    case True
    then have e: "length (inp e) \<le> pos" by (simp add: runeOf_end)
    have "runFrom e ?md from pos q False o' = (False, release ?q, o1)"
      using runFrom_turn [OF o1(1)] True o1(3) by simp
    then show ?thesis using ez e less.prems(7) by auto
  next
    case w: False
    have r: "runFrom e ?md from pos q False o' = runFrom e ?md from ?nx ?m False (o1\<lparr>nextq := release ?q\<rparr>)"
      using runFrom_turn [OF o1(1)] w o1(2,3) by simp
    have lt: "pos < ?nx" using w by (simp add: nextPos_def)
    then have "length (inp e) - ?nx < length (inp e) - pos" using w len by (simp add: runeOf_def split: if_splits)
    moreover have "qinv e ?md from ?nx ?m" by (rule turn_qinv [OF wf sq(1) subset_refl less.prems(4)])
    moreover have "\<forall>z \<ge> ?nx. pending e ?md from ?nx ?m z"
      using turn_pending [OF wf q b less.prems(4) _ refl] less.prems(5) lt by auto
    ultimately have "ends (snd (snd (runFrom e ?md from pos q False o'))) ! z \<longleftrightarrow>
        ends o1 ! z \<or> (?nx \<le> z \<and> (\<exists>a. bnd (inp e) from a \<and> acc e (start (code e)) a z))"
      unfolding r using less.hyps [of ?nx ?m "o1\<lparr>nextq := release ?q\<rparr>"] bnd_next [OF b] less.prems(3,7) e1
        idle_release [OF sq(1)] by simp
    moreover have "?nx \<le> z \<or> z = pos \<longleftrightarrow> pos \<le> z"
      if "\<exists>a. bnd (inp e) from a \<and> acc e (start (code e)) a z"
    proof -
      have "bnd (inp e) from z" using that acc_bnd by blast
      then show ?thesis using bnd_gap [OF _ b, of z] lt by fastforce
    qed
    ultimately show ?thesis using ez by blast
  qed
qed

lemma run_Ends:
  assumes "prog_wf (code e)" "from \<le> length (inp e)" "z \<le> length (inp e)"
  shows "ends (snd (snd (run e modeEnds from (replicate (Suc (length (inp e))) False)))) ! z \<longleftrightarrow>
    (\<exists>a. bnd (inp e) from a \<and> acc e (start (code e)) a z)"
proof -
  have "ends (snd (snd (run e modeEnds from (replicate (Suc (length (inp e))) False)))) ! z \<longleftrightarrow>
    replicate (Suc (length (inp e))) False ! z \<or> (from \<le> z \<and> (\<exists>a. bnd (inp e) from a \<and> acc e (start (code e)) a z))"
    unfolding run_def
    by (subst run_ends [OF assms(1) idle_qinv [OF idle_new] bnd_from assms(2) _ _ _ assms(3)])
      (simp_all add: runInit_def idle_new pending_from)
  moreover have "bnd (inp e) from a \<Longrightarrow> acc e (start (code e)) a z \<Longrightarrow> from \<le> z" for a
    using acc_bnd bnd_ge by blast
  ultimately show ?thesis using assms(3) by (auto simp del: replicate_Suc)
qed
subsection \<open>The number of insertions\<close>

text \<open>Insertions into a queue grow it; only \<open>release\<close> shrinks it.\<close>

definition spentSteps :: "queue \<Rightarrow> int" where
  "spentSteps q = int (qsteps q) - int (length (dense q))"

lemma addThread_steps:
  assumes "prog_wf (code e)" "qinv e md from pos q" "pc < length (insts (code e))"
  shows "spentSteps (addThread e q pc pos cs) = spentSteps q"
proof -
  have w: "qwf (length (insts (code e))) q" using assms(2) by (simp add: qinv_def)
  show ?thesis using addThread_spec(3) [OF assms(1) w assms(3), of pos cs] by (auto simp: grown_def spentSteps_def)
qed

lemma moved_steps:
  assumes wf: "prog_wf (code e)" and ds: "entries e md from pos ds"
    and q: "qinv e md from (nextPos (inp e) pos) q"
  shows "spentSteps (moved e (nextPos (inp e) pos) (fst (runeOf (inp e) pos)) ds q) = spentSteps q"
  using ds q
proof (induction ds arbitrary: q)
  case (Cons x ds)
  let ?c = "fst (runeOf (inp e) pos)" and ?nx = "nextPos (inp e) pos"
  obtain p t where x: "x = (p, t)" by (cases x)
  have d: "entries e md from pos ds" using Cons.prems(1) by (simp add: entries_def)
  show ?case
  proof (cases "\<exists>cs out. t = Some cs \<and> consume (uni e) (insts (code e) ! p) ?c = Some out")
    case False
    then have "moved e ?nx ?c (x # ds) q = moved e ?nx ?c ds q" by (cases t) (auto simp: x split: option.split)
    then show ?thesis using Cons.IH [OF d Cons.prems(2)] by simp
  next
    case True
    then obtain cs out where t: "t = Some cs" "consume (uni e) (insts (code e) ! p) ?c = Some out" by blast
    have p: "p < length (insts (code e))" "thread_ok e md from pos p cs"
      using Cons.prems(1) by (simp_all add: entries_def x t(1))
    have lt: "out < length (insts (code e))" using targets_in [OF wf p(1) consume_target [OF t(2)]] .
    have q': "qinv e md from ?nx (addThread e q out ?nx cs)"
      by (rule addThread_qinv [OF wf Cons.prems(2) lt thread_next [OF p(2) t(2)]])
    show ?thesis using Cons.IH [OF d q'] addThread_steps [OF wf Cons.prems(2) lt] by (simp add: x t)
  qed
qed simp

lemma seeded_steps:
  assumes "prog_wf (code e)" "qinv e md from pos q"
  shows "spentSteps (seeded e md from pos found q) = spentSteps q"
proof -
  have "start (code e) < length (insts (code e))" using assms(1) by (simp add: prog_wf_def)
  then show ?thesis using addThread_steps [OF assms] by (simp add: seeded_def seed_def Let_def)
qed

text \<open>Whatever the mode, a step moves a first part of the queue's threads.\<close>

lemma step_prefix:
  "\<exists>ds1 ds2. ds = ds1 @ ds2 \<and> nextq (step e md pos nx c ds o') = moved e nx c ds1 (nextq o')"
proof (cases "(\<exists>x \<in> set ds. isMatch e x) \<and> md \<noteq> modeEnds")
  case True
  then obtain ds1 p cs ds2 where d: "ds = ds1 @ (p, Some cs) # ds2" "\<forall>x \<in> set ds1. \<not> isMatch e x" "insts (code e) ! p = InstMatch"
    using isMatch_split by metis
  then show ?thesis using True step_hits [OF d(2,3)] by auto
next
  case False
  then have "nextq (step e md pos nx c ds o') = moved e nx c ds (nextq o')"
    using step_ends_sel(1) step_moves [of ds e md pos nx c o'] by auto
  then show ?thesis by (metis append_Nil2)
qed

lemma turn_shape:
  assumes wf: "prog_wf (code e)" and q: "qinv e md from pos q" and b: "bnd (inp e) from pos" and i: "idle e (nextq o')"
  obtains o1 where "turn e md from pos q found o' = (release (seeded e md from pos found q), o1)"
    "qinv e md from (nextPos (inp e) pos) (nextq o1)" "spentSteps (nextq o1) = spentSteps (nextq o')"
    "idle e (release (seeded e md from pos found q))"
proof -
  let ?q = "seeded e md from pos found q"
  note sq = seeded_qinv [OF wf q b, of found]
  let ?o1 = "step e md pos (nextPos (inp e) pos) (fst (runeOf (inp e) pos)) (dense ?q) o'"
  obtain ds1 ds2 where d: "dense ?q = ds1 @ ds2"
    "nextq ?o1 = moved e (nextPos (inp e) pos) (fst (runeOf (inp e) pos)) ds1 (nextq o')"
    using step_prefix by metis
  have s: "set ds1 \<subseteq> set (dense ?q)" using d(1) by simp
  have "entries e md from pos ds1" using sq(1) s by (auto simp: qinv_def entries_def)
  then have "spentSteps (nextq ?o1) = spentSteps (nextq o')"
    unfolding d(2) by (rule moved_steps [OF wf _ idle_qinv [OF i]])
  then show ?thesis using that [OF turn_simp] turn_qinv [OF wf sq(1) s i] idle_release [OF sq(1)] by (simp add: d(2))
qed

lemma qinv_dense: "qinv e md from pos q \<Longrightarrow> length (dense q) \<le> length (insts (code e))"
  by (simp add: qinv_def qwf_length)

lemma runFrom_cases:
  assumes "turn e md from pos q found o' = (spent, o1)"
  obtains "runFrom e md from pos q found o' = (hit o1 \<or> found, spent, o1)"
  | "snd (runeOf (inp e) pos) \<noteq> 0" "runFrom e md from pos q found o' =
       runFrom e md from (nextPos (inp e) pos) (nextq o1) (hit o1 \<or> found) (o1\<lparr>nextq := spent\<rparr>)"
  using runFrom_turn [OF assms] by (meson)

lemma run_steps:
  assumes wf: "prog_wf (code e)"
  shows "qinv e md from pos q \<Longrightarrow> bnd (inp e) from pos \<Longrightarrow> from \<le> length (inp e) \<Longrightarrow> idle e (nextq o') \<Longrightarrow>
    runFrom e md from pos q found o' = (b, q2, o2) \<Longrightarrow>
    int (qsteps q2) + int (qsteps (nextq o2)) \<le>
      spentSteps q + spentSteps (nextq o') + int (length (insts (code e))) * (int (length (inp e)) - int pos + 2)"
proof (induction "length (inp e) - pos" arbitrary: pos q o' found rule: less_induct)
  case less
  note q = less.prems(1) and bd = less.prems(2)
  let ?q = "seeded e md from pos found q" and ?nx = "nextPos (inp e) pos" and ?n = "int (length (insts (code e)))"
  obtain o1 where o1: "turn e md from pos q found o' = (release ?q, o1)" "qinv e md from ?nx (nextq o1)"
      "spentSteps (nextq o1) = spentSteps (nextq o')" "idle e (release ?q)"
    using turn_shape [OF wf q bd less.prems(4)] by metis
  have sp: "spentSteps ?q = spentSteps q" by (rule seeded_steps [OF wf q])
  have n: "int (length (dense ?q)) \<le> ?n" "int (length (dense (nextq o1))) \<le> ?n"
    using qinv_dense [OF seeded_qinv(1) [OF wf q bd, of found]] qinv_dense [OF o1(2)] by simp_all
  have len: "int pos \<le> int (length (inp e))" using bnd_len [OF bd less.prems(3)] by simp
  show ?case
  proof (rule runFrom_cases [OF o1(1)])
    assume "runFrom e md from pos q found o' = (hit o1 \<or> found, release ?q, o1)"
    then have e: "q2 = release ?q" "o2 = o1" using less.prems(5) by simp_all
    have "?n * 2 \<le> ?n * (int (length (inp e)) - int pos + 2)" using len by (intro mult_left_mono) simp_all
    then show ?thesis using sp o1(3) n by (simp add: e spentSteps_def)
  next
    assume w: "snd (runeOf (inp e) pos) \<noteq> 0" and r: "runFrom e md from pos q found o' =
      runFrom e md from ?nx (nextq o1) (hit o1 \<or> found) (o1\<lparr>nextq := release ?q\<rparr>)"
    have lt: "pos < ?nx" using w by (simp add: nextPos_def)
    then have "length (inp e) - ?nx < length (inp e) - pos" using w by (simp add: runeOf_end)
    from less.hyps [OF this o1(2) bnd_next [OF bd] less.prems(3) _ less.prems(5) [unfolded r]]
    have "int (qsteps q2) + int (qsteps (nextq o2)) \<le> spentSteps (nextq o1) + spentSteps (release ?q)
        + ?n * (int (length (inp e)) - int ?nx + 2)" using o1(4) by simp
    moreover have "?n * (int (length (inp e)) - int ?nx + 2) \<le> ?n * (int (length (inp e)) - int pos + 1)"
      using lt by (intro mult_left_mono) simp_all
    moreover have "?n * (int (length (inp e)) - int pos + 2) = ?n * (int (length (inp e)) - int pos + 1) + ?n"
      by (simp add: algebra_simps)
    ultimately show ?thesis using sp o1(3) n by (simp add: spentSteps_def)
  qed
qed

lemma run_Steps:
  assumes "prog_wf (code e)" "from \<le> length (inp e)" "run e md from ends0 = (b, q2, o2)"
  shows "qsteps q2 + qsteps (nextq o2) \<le> length (insts (code e)) * (length (inp e) - from + 2)"
proof -
  have "int (qsteps q2) + int (qsteps (nextq o2)) \<le>
      int (length (insts (code e))) * (int (length (inp e)) - int from + 2)"
    using run_steps [OF assms(1) idle_qinv [OF idle_new] bnd_from assms(2) _ assms(3) [unfolded run_def]]
    by (simp add: runInit_def idle_new) (simp add: newQueue_def spentSteps_def)
  also have "\<dots> = int (length (insts (code e)) * (length (inp e) - from + 2))"
    using le_Suc_ex [OF assms(2)] by (auto simp: algebra_simps)
  finally show ?thesis by (simp only: of_nat_le_iff flip: of_nat_add)
qed

end
