(* ===== verification/NetregexFind.thy ===== *)
theory NetregexFind
  imports NetregexEnds
begin

text \<open>
  The find mode of netregex's machine: the threads of a queue stand in the order of their starts, so the
  first match cuts off only later starts, and the last match recorded is the leftmost one.
\<close>

definition prio :: "(nat \<times> caps option) list \<Rightarrow> int list" where
  "prio ds = map (\<lambda>c. c ! 0) (List.map_filter snd ds)"

lemma prio_simps [simp]: "prio [] = []" "prio ((p, None) # ds) = prio ds" "prio ((p, Some c) # ds) = c ! 0 # prio ds"
  "prio (ds @ ds') = prio ds @ prio ds'"
  by (simp_all add: prio_def List.map_filter_simps map_filter_def)

lemma prio_in: "(p, Some c) \<in> set ds \<Longrightarrow> c ! 0 \<in> set (prio ds)"
  by (force simp: prio_def map_filter_def)

lemma addThread_prio:
  assumes "prog_wf (code e)" "qinv e md from pos q" "pc < length (insts (code e))"
    and "sorted (prio (dense q))" "\<forall>x \<in> set (prio (dense q)). x \<le> cs ! 0"
  shows "\<exists>new. dense (addThread e q pc pos cs) = dense q @ new \<and> sorted (prio (dense q @ new))
    \<and> (\<forall>x \<in> set (prio new). x = cs ! 0)"
proof -
  have w: "qwf (length (insts (code e))) q" using assms(2) by (simp add: qinv_def)
  obtain new where new: "dense (addThread e q pc pos cs) = dense q @ new" "\<forall>x \<in> set new. entry_ok e cs x"
    using addThread_spec(3) [OF assms(1) w assms(3), of pos cs] unfolding grown_def by blast
  have "\<forall>x \<in> set ns. entry_ok e cs x \<Longrightarrow> sorted (prio ns) \<and> (\<forall>x \<in> set (prio ns). x = cs ! 0)" for ns
  proof (induction ns)
    case (Cons x ns)
    obtain p t where x: "x = (p, t)" by (cases x)
    show ?case using Cons by (cases t) (auto simp: x entry_ok_def)
  qed simp
  then have "sorted (prio new) \<and> (\<forall>x \<in> set (prio new). x = cs ! 0)" using new(2) by blast
  then show ?thesis using new(1) assms(4,5) by (auto simp: sorted_append)
qed

lemma moved_append: "moved e nx c (ds @ ds') q = moved e nx c ds' (moved e nx c ds q)"
proof (induction ds arbitrary: q)
  case (Cons x ds)
  obtain p t where x: "x = (p, t)" by (cases x)
  show ?case using Cons by (cases t) (auto simp: x split: option.split)
qed simp

lemma moved_prio:
  assumes wf: "prog_wf (code e)" and ds: "entries e md from pos ds" "sorted (prio ds)"
    and q: "qinv e md from (nextPos (inp e) pos) q" "sorted (prio (dense q))"
      "\<forall>x \<in> set (prio (dense q)). \<forall>y \<in> set (prio ds). x \<le> y"
  shows "\<exists>new. dense (moved e (nextPos (inp e) pos) (fst (runeOf (inp e) pos)) ds q) = dense q @ new
    \<and> sorted (prio (dense q @ new)) \<and> set (prio new) \<subseteq> set (prio ds)"
  using ds q
proof (induction ds arbitrary: q)
  case (Cons x ds)
  let ?c = "fst (runeOf (inp e) pos)" and ?nx = "nextPos (inp e) pos"
  obtain p t where x: "x = (p, t)" by (cases x)
  have d: "entries e md from pos ds" using Cons.prems(1) by (simp add: entries_def)
  have s: "sorted (prio ds)" using Cons.prems(2) by (cases t) (simp_all add: x)
  have sub: "set (prio ds) \<subseteq> set (prio (x # ds))" by (cases t) (auto simp: x)
  show ?case
  proof (cases "\<exists>cs out. t = Some cs \<and> consume (uni e) (insts (code e) ! p) ?c = Some out")
    case False
    then have "moved e ?nx ?c (x # ds) q = moved e ?nx ?c ds q" by (cases t) (auto simp: x split: option.split)
    then show ?thesis using Cons.IH [OF d s Cons.prems(3,4)] Cons.prems(5) sub by fastforce
  next
    case True
    then obtain cs out where t: "t = Some cs" "consume (uni e) (insts (code e) ! p) ?c = Some out" by blast
    have p: "p < length (insts (code e))" "thread_ok e md from pos p cs"
      using Cons.prems(1) by (simp_all add: entries_def x t(1))
    have lt: "out < length (insts (code e))" using targets_in [OF wf p(1) consume_target [OF t(2)]] .
    let ?q = "addThread e q out ?nx cs"
    have q': "qinv e md from ?nx ?q"
      by (rule addThread_qinv [OF wf Cons.prems(3) lt thread_next [OF p(2) t(2)]])
    have le: "\<forall>y \<in> set (prio ds). cs ! 0 \<le> y" using Cons.prems(2) by (simp add: x t(1))
    have "\<forall>y \<in> set (prio (dense q)). y \<le> cs ! 0" using Cons.prems(5) by (simp add: x t(1))
    from addThread_prio [OF wf Cons.prems(3) lt Cons.prems(4) this] obtain n1 where
      n1: "dense ?q = dense q @ n1" "sorted (prio (dense q @ n1))" "\<forall>x \<in> set (prio n1). x = cs ! 0"
      by (elim exE conjE)
    have b: "\<forall>x \<in> set (prio (dense ?q)). \<forall>y \<in> set (prio ds). x \<le> y"
      using n1(1,3) le Cons.prems(5) sub by fastforce
    have "sorted (prio (dense ?q))" using n1(1,2) by simp
    from Cons.IH [OF d s q' this b] obtain n2 where
      n2: "dense (moved e ?nx ?c ds ?q) = dense ?q @ n2" "sorted (prio (dense ?q @ n2))" "set (prio n2) \<subseteq> set (prio ds)"
      by (elim exE conjE)
    have m: "moved e ?nx ?c (x # ds) q = moved e ?nx ?c ds ?q" by (simp add: x t)
    show ?thesis unfolding m
      by (rule exI [of _ "n1 @ n2"]) (use n1 n2 in \<open>auto simp: x t(1)\<close>)
  qed
qed simp

text \<open>What a thread can still match continues from a thread of no later start.\<close>

lemma moved_first:
  assumes wf: "prog_wf (code e)" and ds: "entries e md from pos ds" "sorted (prio ds)"
    and q: "idle e q"
    and a: "(p, Some c) \<in> set ds" "acc e p pos z" "insts (code e) ! p \<noteq> InstMatch"
  shows "\<exists>p' c'. (p', Some c') \<in> set (dense (moved e (nextPos (inp e) pos) (fst (runeOf (inp e) pos)) ds q))
    \<and> c' ! 0 \<le> c ! 0 \<and> acc e p' (nextPos (inp e) pos) z"
proof -
  let ?c = "fst (runeOf (inp e) pos)" and ?nx = "nextPos (inp e) pos"
  obtain ds1 ds2 where d: "ds = ds1 @ (p, Some c) # ds2" using split_list [OF a(1)] by blast
  have e1: "entries e md from pos ds1" "entries e md from pos ds2" and p: "p < length (insts (code e))"
    "consuming (insts (code e) ! p)" "thread_ok e md from pos p c"
    using ds(1) by (auto simp: entries_def d)
  have s: "sorted (prio ds1)" "sorted (prio ds2)" "\<forall>x \<in> set (prio ds1). x \<le> c ! 0" "\<forall>y \<in> set (prio ds2). c ! 0 \<le> y"
    using ds(2) by (auto simp: d sorted_append)
  from acc_moves [OF a(2) p(2) a(3)] obtain out where
    out: "consume (uni e) (insts (code e) ! p) ?c = Some out" "acc e out ?nx z" .
  have lt: "out < length (insts (code e))" using targets_in [OF wf p(1) consume_target [OF out(1)]] .
  let ?q1 = "moved e ?nx ?c ds1 q"
  have i: "dense q = []" using q by (simp add: idle_def)
  have q1: "qinv e md from ?nx ?q1" using moved_qinv [OF wf e1(1) idle_qinv [OF q]] by blast
  from moved_prio [OF wf e1(1) s(1) idle_qinv [OF q]] i obtain n1 where
    n1: "dense ?q1 = n1" "sorted (prio n1)" "set (prio n1) \<subseteq> set (prio ds1)" by auto
  let ?q2 = "addThread e ?q1 out ?nx c"
  have q2: "qinv e md from ?nx ?q2" by (rule addThread_qinv [OF wf q1 lt thread_next [OF p(3) out(1)]])
  have "\<forall>x \<in> set (prio (dense ?q1)). x \<le> c ! 0" using n1 s(3) by blast
  from addThread_prio [OF wf q1 lt _ this] n1(1,2) obtain n2 where
    n2: "dense ?q2 = n1 @ n2" "sorted (prio (n1 @ n2))" "\<forall>x \<in> set (prio n2). x = c ! 0" by auto
  have le: "\<forall>x \<in> set (prio (dense ?q2)). x \<le> c ! 0" using n1 n2 s(3) by auto
  have "qwf (length (insts (code e))) ?q1" using q1 by (simp add: qinv_def)
  from acc_thread [OF out(2) addThread_spec(2) [OF wf this lt] q2] obtain p' c' where
    t: "(p', Some c') \<in> set (dense ?q2)" "acc e p' ?nx z" by blast
  have b: "\<forall>x \<in> set (prio (dense ?q2)). \<forall>y \<in> set (prio ds2). x \<le> y" using le s(4) by fastforce
  have "sorted (prio (dense ?q2))" using n2(1,2) by simp
  from moved_prio [OF wf e1(2) s(2) q2 this b] obtain n3 where
    n3: "dense (moved e ?nx ?c ds2 ?q2) = dense ?q2 @ n3" by blast
  have m: "moved e ?nx ?c ds q = moved e ?nx ?c ds2 ?q2" by (simp add: d moved_append out(1))
  have "c' ! 0 \<le> c ! 0" using le prio_in [OF t(1)] by blast
  moreover have "(p', Some c') \<in> set (dense (moved e ?nx ?c ds q))" using t(1) by (simp add: m n3)
  ultimately show ?thesis using t(2) by blast
qed
subsection \<open>The loop\<close>

text \<open>\<open>lead\<close>: every match of a start below \<open>b\<close> continues from a thread of no later start.\<close>

definition lead :: "env \<Rightarrow> nat \<Rightarrow> nat \<Rightarrow> (nat \<times> caps option) list \<Rightarrow> nat \<Rightarrow> bool" where
  "lead e from pos ds b \<longleftrightarrow> (\<forall>a z. bnd (inp e) from a \<and> a < b \<and> acc e (start (code e)) a z \<longrightarrow>
     (\<exists>p c. (p, Some c) \<in> set ds \<and> c ! 0 \<le> int a \<and> acc e p pos z))"

lemma lead_mono: "lead e from pos ds b \<Longrightarrow> b' \<le> b \<Longrightarrow> lead e from pos ds b'"
  unfolding lead_def by (meson order_less_le_trans)

definition best :: "env \<Rightarrow> nat \<Rightarrow> caps \<Rightarrow> nat \<Rightarrow> bool" where
  "best e from mc a \<longleftrightarrow> bnd (inp e) from a \<and> length mc = ncap (code e) \<and> mc ! 0 = int a
     \<and> (\<exists>z. mc ! 1 = int z \<and> acc e (start (code e)) a z)"

text \<open>The queue of a turn, after its seeding: starts of at most \<open>b\<close>, in order.\<close>

definition front :: "env \<Rightarrow> nat \<Rightarrow> nat \<Rightarrow> queue \<Rightarrow> nat \<Rightarrow> bool" where
  "front e from pos q b \<longleftrightarrow> qinv e modeFind from pos q \<and> sorted (prio (dense q))
     \<and> (\<forall>x \<in> set (prio (dense q)). x \<le> int b)"

lemma lead_upto: "lead e from pos ds b \<Longrightarrow> (\<And>a. bnd (inp e) from a \<Longrightarrow> a < b' \<Longrightarrow> a < b) \<Longrightarrow> lead e from pos ds b'"
  unfolding lead_def by meson

lemma front_mono: "front e from pos q b \<Longrightarrow> b \<le> b' \<Longrightarrow> front e from pos q b'"
  by (auto simp: front_def)

text \<open>Between turns: after a match the bound is its start, before one it is the position.\<close>

definition findInv :: "env \<Rightarrow> nat \<Rightarrow> nat \<Rightarrow> queue \<Rightarrow> bool \<Rightarrow> caps \<Rightarrow> bool" where
  "findInv e from pos q found mc \<longleftrightarrow>
     (if found then \<exists>a. best e from mc a \<and> front e from pos q a \<and> lead e from pos (dense q) a
      else front e from pos q pos \<and> lead e from pos (dense q) pos)"

lemma seeded_front:
  assumes wf: "prog_wf (code e)" and nc: "2 \<le> ncap (code e)" and b: "bnd (inp e) from pos"
    and q: "front e from pos q pos" "lead e from pos (dense q) pos"
  shows "front e from pos (seeded e modeFind from pos False q) pos"
    "lead e from pos (dense (seeded e modeFind from pos False q)) (Suc pos)"
proof -
  let ?cs = "(replicate (ncap (code e)) (- 1))[0 := int pos]"
  let ?q = "seeded e modeFind from pos False q"
  have qi: "qinv e modeFind from pos q" "sorted (prio (dense q))" "\<forall>x \<in> set (prio (dense q)). x \<le> int pos"
    using q(1) by (simp_all add: front_def)
  have lt: "start (code e) < length (insts (code e))" using wf by (simp add: prog_wf_def)
  have e: "?q = addThread e q (start (code e)) pos ?cs"
    using nc by (auto simp: seeded_def seed_def Let_def)
  have c0: "?cs ! 0 = int pos" using nc by simp
  obtain new where n: "dense ?q = dense q @ new" "sorted (prio (dense q @ new))" "\<forall>x \<in> set (prio new). x = int pos"
    using addThread_prio [OF wf qi(1) lt qi(2), of ?cs] qi(3) unfolding e c0 by blast
  note sq = seeded_qinv [OF wf qi(1) b, of False]
  show f: "front e from pos ?q pos" using sq(1) n qi(3) by (auto simp: front_def)
  show "lead e from pos (dense ?q) (Suc pos)"
    unfolding lead_def
  proof (intro allI impI)
    fix a z
    assume a: "bnd (inp e) from a \<and> a < Suc pos \<and> acc e (start (code e)) a z"
    show "\<exists>p c. (p, Some c) \<in> set (dense ?q) \<and> c ! 0 \<le> int a \<and> acc e p pos z"
    proof (cases "a = pos")
      case True
      have "start (code e) \<in> pcs ?q" using sq(3) b by (simp add: starts_def)
      from acc_thread [OF _ this sq(1), of z] a True obtain p c where
        t: "(p, Some c) \<in> set (dense ?q)" "acc e p pos z" by blast
      moreover have "c ! 0 \<le> int a" using f prio_in [OF t(1)] True by (simp add: front_def)
      ultimately show ?thesis by blast
    next
      case False
      then have "a < pos" using a by simp
      then obtain p c where "(p, Some c) \<in> set (dense q)" "c ! 0 \<le> int a" "acc e p pos z"
        using q(2) a unfolding lead_def by blast
      then show ?thesis using n(1) by (metis Un_iff set_append)
    qed
  qed
qed

lemma moved_front:
  assumes wf: "prog_wf (code e)" and q: "front e from pos q b" and nq: "idle e nq"
    and d: "dense q = ds @ ds'" "\<forall>x \<in> set (prio ds). x \<le> int b'"
  shows "front e from (nextPos (inp e) pos) (moved e (nextPos (inp e) pos) (fst (runeOf (inp e) pos)) ds nq) b'"
proof -
  have qi: "qinv e modeFind from pos q" "sorted (prio ds)" "entries e modeFind from pos ds"
    using q by (auto simp: front_def d(1) qinv_def entries_def sorted_append)
  have "dense nq = []" using nq by (simp add: idle_def)
  with moved_prio [OF wf qi(3,2) idle_qinv [OF nq]] obtain new where
    n: "dense (moved e (nextPos (inp e) pos) (fst (runeOf (inp e) pos)) ds nq) = new" "sorted (prio new)"
      "set (prio new) \<subseteq> set (prio ds)" by auto
  have "qinv e modeFind from (nextPos (inp e) pos) (moved e (nextPos (inp e) pos) (fst (runeOf (inp e) pos)) ds nq)"
    by (rule turn_qinv [OF wf qi(1) _ nq]) (simp add: d(1))
  then show ?thesis using n d(2) by (auto simp: front_def)
qed

lemma moved_lead:
  assumes wf: "prog_wf (code e)" and q: "front e from pos q b" and nq: "idle e nq"
    and d: "dense q = ds @ ds'" "\<forall>x \<in> set ds. \<not> isMatch e x"
    and l: "lead e from pos (dense q) b'" and r: "\<forall>y \<in> set (prio ds'). int b' \<le> y"
  shows "lead e from (nextPos (inp e) pos)
    (dense (moved e (nextPos (inp e) pos) (fst (runeOf (inp e) pos)) ds nq)) b'"
  unfolding lead_def
proof (intro allI impI)
  fix a z
  assume a: "bnd (inp e) from a \<and> a < b' \<and> acc e (start (code e)) a z"
  then obtain p c where t: "(p, Some c) \<in> set (dense q)" "c ! 0 \<le> int a" "acc e p pos z" using l unfolding lead_def by blast
  have "(p, Some c) \<notin> set ds'" using r prio_in [of p c ds'] t(2) a by force
  then have in_ds: "(p, Some c) \<in> set ds" using t(1) d(1) by simp
  then have m: "insts (code e) ! p \<noteq> InstMatch" using d(2) by (force simp: isMatch_def)
  have e: "entries e modeFind from pos ds" "sorted (prio ds)"
    using q by (auto simp: front_def d(1) qinv_def entries_def sorted_append)
  from moved_first [OF wf e nq in_ds t(3) m] show "\<exists>p c.
      (p, Some c) \<in> set (dense (moved e (nextPos (inp e) pos) (fst (runeOf (inp e) pos)) ds nq))
      \<and> c ! 0 \<le> int a \<and> acc e p (nextPos (inp e) pos) z" using t(2) by (meson order_trans)
qed

text \<open>After a turn the invariant holds at the next position, or, without a match, up to the start there.\<close>

lemma turn_find:
  assumes wf: "prog_wf (code e)" and nc: "2 \<le> ncap (code e)" and b: "bnd (inp e) from pos"
    and i: "findInv e from pos q found (matchcap o')" and nq: "idle e (nextq o')"
  obtains sp o1 where "turn e modeFind from pos q found o' = (sp, o1)" "idle e sp"
    "hit o1 \<or> found \<Longrightarrow> findInv e from (nextPos (inp e) pos) (nextq o1) True (matchcap o1)"
    "\<not> hit o1 \<Longrightarrow> \<not> found \<Longrightarrow> front e from (nextPos (inp e) pos) (nextq o1) pos
       \<and> lead e from (nextPos (inp e) pos) (dense (nextq o1)) (Suc pos)"
proof -
  let ?q = "seeded e modeFind from pos found q" and ?nx = "nextPos (inp e) pos" and ?c = "fst (runeOf (inp e) pos)"
  define B where "B = (if found then nat (matchcap o' ! 0) else pos)"
  define L where "L = (if found then B else Suc pos)"
  have fr: "front e from pos ?q B" and le: "lead e from pos (dense ?q) L"
    using i seeded_front [OF wf nc b, of q] by (auto simp: B_def L_def findInv_def best_def seeded_def)
  have BL: "B \<le> L" by (simp add: L_def B_def)
  have idle: "idle e (release ?q)" using fr idle_release unfolding front_def by blast
  show ?thesis
  proof (cases "\<exists>x \<in> set (dense ?q). isMatch e x")
    case False
    then have nm: "\<forall>x \<in> set (dense ?q). \<not> isMatch e x" by blast
    obtain o1 where o1: "turn e modeFind from pos q found o' = (release ?q, o1)"
      "nextq o1 = moved e ?nx ?c (dense ?q) (nextq o')" "\<not> hit o1" "matchcap o1 = matchcap o'"
      using turn_moves [OF nm] by metis
    have f: "front e from ?nx (nextq o1) B" unfolding o1(2)
      by (rule moved_front [OF wf fr nq, of _ "[]"]) (use fr in \<open>simp_all add: front_def\<close>)
    have l: "lead e from ?nx (dense (nextq o1)) L" unfolding o1(2)
      by (rule moved_lead [OF wf fr nq, of _ "[]"]) (use nm le in simp_all)
    have g: "findInv e from ?nx (nextq o1) True (matchcap o1)" if found
      using i f l that by (auto simp: findInv_def o1(4) B_def L_def best_def)
    show ?thesis
      by (rule that [OF o1(1) idle]) (use f l g o1(3) in \<open>auto simp: B_def L_def\<close>)
  next
    case True
    then obtain ds1 p c ds2 where d: "dense ?q = ds1 @ (p, Some c) # ds2" "\<forall>x \<in> set ds1. \<not> isMatch e x"
      "insts (code e) ! p = InstMatch" by (rule isMatch_split)
    let ?o1 = "step e modeFind pos ?nx ?c (dense ?q) o'"
    have o1: "nextq ?o1 = moved e ?nx ?c ds1 (nextq o')" "matchcap ?o1 = c[1 := int pos]" "hit ?o1"
      by (simp_all add: d(1) step_hits [OF d(2,3)])
    have qi: "qinv e modeFind from pos ?q" "sorted (prio (dense ?q))" "\<forall>x \<in> set (prio (dense ?q)). x \<le> int B"
      using fr by (simp_all add: front_def)
    have t: "thread_ok e modeFind from pos p c" using qi(1) by (auto simp: qinv_def entries_def d(1))
    from matched_thread [OF qi(1) _ d(3), of c] d(1) nc obtain a where
      a: "starts e modeFind from a" "acc e (start (code e)) a pos" "c ! 0 = int a" by auto
    have be: "best e from (matchcap ?o1) a" using a t nc unfolding best_def
      by (auto simp: o1(2) starts_def thread_ok_def intro!: exI [of _ pos])
    have s: "\<forall>x \<in> set (prio ds1). x \<le> int a" "\<forall>y \<in> set (prio ((p, Some c) # ds2)). int a \<le> y" "a \<le> L"
      using qi(2,3) BL by (auto simp: d(1) a(3) sorted_append)
    have "front e from ?nx (nextq ?o1) a" unfolding o1(1) by (rule moved_front [OF wf fr nq d(1) s(1)])
    moreover have "lead e from ?nx (dense (nextq ?o1)) a" unfolding o1(1)
      by (rule moved_lead [OF wf fr nq d(1,2) lead_mono [OF le s(3)] s(2)])
    ultimately have "findInv e from ?nx (nextq ?o1) True (matchcap ?o1)" using be by (auto simp: findInv_def)
    then show ?thesis by (rule that [OF turn_simp idle]) (use o1(3) in simp_all)
  qed
qed

text \<open>What a finished search says: the leftmost match, or that there is none.\<close>

definition searched :: "env \<Rightarrow> nat \<Rightarrow> bool \<Rightarrow> caps \<Rightarrow> bool" where
  "searched e from found mc \<longleftrightarrow>
     (if found then \<exists>a. best e from mc a \<and> (\<forall>a' z. bnd (inp e) from a' \<longrightarrow> acc e (start (code e)) a' z \<longrightarrow> a \<le> a')
      else \<forall>a z. bnd (inp e) from a \<longrightarrow> \<not> acc e (start (code e)) a z)"

lemma findInv_done: "findInv e from pos q True mc \<Longrightarrow> dense q = [] \<Longrightarrow> searched e from True mc"
  unfolding findInv_def searched_def lead_def by (metis (no_types) empty_iff list.set(1) not_le_imp_less)

lemma moved_at_end: "moved e nx None ds q = q"
  by (induction e nx "None :: rune option" ds q rule: moved.induct) (auto simp: consume_def)

lemma run_find:
  assumes wf: "prog_wf (code e)" and nc: "2 \<le> ncap (code e)"
  shows "bnd (inp e) from pos \<Longrightarrow> from \<le> length (inp e) \<Longrightarrow> findInv e from pos q found (matchcap o') \<Longrightarrow>
    idle e (nextq o') \<Longrightarrow> runFrom e modeFind from pos q found o' = (b, q2, o2) \<Longrightarrow> searched e from b (matchcap o2)"
proof (induction "length (inp e) - pos" arbitrary: pos q o' found rule: less_induct)
  case less
  note bd = less.prems(1) and i = less.prems(3) and nq = less.prems(4)
  let ?nx = "nextPos (inp e) pos"
  obtain sp o1 where t: "turn e modeFind from pos q found o' = (sp, o1)" "idle e sp"
    and f: "hit o1 \<or> found \<Longrightarrow> findInv e from ?nx (nextq o1) True (matchcap o1)"
    and n: "\<not> hit o1 \<Longrightarrow> \<not> found \<Longrightarrow> front e from ?nx (nextq o1) pos \<and> lead e from ?nx (dense (nextq o1)) (Suc pos)"
    using turn_find [OF wf nc bd i nq] by metis
  have len: "pos \<le> length (inp e)" using bnd_len [OF bd less.prems(2)] .
  have last: "dense (nextq o1) = []" if "snd (runeOf (inp e) pos) = 0"
  proof -
    have "fst (runeOf (inp e) pos) = None" using that runeOf_end runeOf_None by blast
    then obtain ds1 where "nextq o1 = moved e ?nx None ds1 (nextq o')"
      using step_prefix [of "dense (seeded e modeFind from pos found q)" e modeFind pos ?nx None o'] t(1) by (auto simp: turn_simp)
    then show ?thesis using nq by (simp add: moved_at_end idle_def)
  qed
  show ?case
  proof (cases "snd (runeOf (inp e) pos) = 0 \<or> (dense (nextq o1) = [] \<and> (hit o1 \<or> found))")
    case True
    then have r: "runFrom e modeFind from pos q found o' = (hit o1 \<or> found, sp, o1)"
      using runFrom_turn [OF t(1)] by auto
    have em: "dense (nextq o1) = []" using True last by blast
    show ?thesis
    proof (cases "hit o1 \<or> found")
      case True
      then show ?thesis using findInv_done [OF f em] r less.prems(5) by auto
    next
      case False
      then have "length (inp e) \<le> pos" using \<open>_ \<or> _ \<and> _\<close> by (simp add: runeOf_end)
      then have "a < Suc pos" if "bnd (inp e) from a" for a using bnd_len [OF that less.prems(2)] by simp
      then have "searched e from False (matchcap o1)" using n False em by (force simp: searched_def lead_def)
      then show ?thesis using r less.prems(5) False by auto
    qed
  next
    case False
    then have r: "runFrom e modeFind from pos q found o' = runFrom e modeFind from ?nx (nextq o1) (hit o1 \<or> found) (o1\<lparr>nextq := sp\<rparr>)"
      using runFrom_turn [OF t(1)] by auto
    have lt: "pos < ?nx" "length (inp e) - ?nx < length (inp e) - pos"
      using False runeOf_end [of "inp e" pos] by (auto simp: nextPos_def intro: diff_less_mono2)
    have "findInv e from ?nx (nextq o1) (hit o1 \<or> found) (matchcap o1)"
    proof (cases "hit o1 \<or> found")
      case True
      then show ?thesis using f by simp
    next
      case False
      have "a < Suc pos" if "bnd (inp e) from a" "a < ?nx" for a using bnd_gap [OF that(1) bd that(2)] by simp
      then have "lead e from ?nx (dense (nextq o1)) ?nx" using n False by (blast intro: lead_upto)
      moreover have "front e from ?nx (nextq o1) ?nx" using n False lt(1) by (blast intro: front_mono less_imp_le)
      ultimately show ?thesis using False by (simp add: findInv_def)
    qed
    from less.hyps [OF lt(2) bnd_next [OF bd] less.prems(2) _ _ less.prems(5) [unfolded r]] this show ?thesis
      using t(2) by simp
  qed
qed

lemma run_Find:
  assumes "prog_wf (code e)" "2 \<le> ncap (code e)" "from \<le> length (inp e)" "run e modeFind from ends0 = (b, q2, o2)"
  shows "searched e from b (matchcap o2)"
proof (rule run_find [OF assms(1,2) bnd_from assms(3) _ _ assms(4) [unfolded run_def]])
  have "dense (newQueue (length (insts (code e)))) = []" by (simp add: newQueue_def)
  moreover have "qinv e modeFind from from (newQueue (length (insts (code e))))" by (rule idle_qinv [OF idle_new])
  moreover have "bnd (inp e) from a \<Longrightarrow> \<not> a < from" for a using bnd_ge by (simp add: not_less)
  ultimately show "findInv e from from (newQueue (length (insts (code e)))) False (matchcap (runInit e ends0))"
    by (auto simp: findInv_def front_def lead_def)
qed (simp add: runInit_def idle_new)

end
