(* ===== verification/NetregexApi.thy ===== *)
theory NetregexApi
  imports NetregexFind
begin

text \<open>
  internal/release/netregex, netregex.go and the entry points of exec.go: a compiled pattern, its lookarounds'
  answers, and the searches over one string. \<^verbatim>\<open>regexp/syntax\<close> gives an instruction list and the capture names
  of a tree, and \<^verbatim>\<open>regexp\<close> the prefilter; both are arguments. The memo of \<open>holds\<close> is \<open>recall\<close>: a table of
  answers read before it is filled.
\<close>

record predicate =
  pprog :: prog
  behind :: bool
  negate :: bool

record Regexp =
  main :: prog
  pre :: "string \<Rightarrow> bool"
  names :: "string list"
  preds :: "predicate list"
  tables :: unicode

subsection \<open>Compilation\<close>

text \<open>The compiler's state: a name's slot, the names by slot, the lookarounds read and the groups read.\<close>

record compiler =
  slots :: "string \<Rightarrow> nat option"
  cnames :: "string list"
  cpreds :: "(string \<times> bool \<times> bool) list"
  cn :: nat

definition newCompiler :: compiler where
  "newCompiler = \<lparr>slots = (\<lambda>x. None), cnames = [''''], cpreds = [], cn = 0\<rparr>"

definition capture :: "string \<Rightarrow> compiler \<Rightarrow> compiler \<times> string" where
  "capture name c =
     (let (slot, c1) = (case slots c name of
          Some slot \<Rightarrow> (slot, c)
        | None \<Rightarrow> (length (cnames c),
            c\<lparr>slots := (slots c)(name \<mapsto> length (cnames c)), cnames := cnames c @ [name]\<rparr>));
        c2 = c1\<lparr>cn := cn c1 + 1\<rparr>
      in (c2, ''g'' @ dec slot @ ''_'' @ dec (cn c2)))"

definition addPredicate :: "string \<Rightarrow> bool \<Rightarrow> bool \<Rightarrow> compiler \<Rightarrow> compiler \<times> nat" where
  "addPredicate t bh neg c =
     (c\<lparr>cpreds := cpreds c @ [(t, bh, neg)]\<rparr>, length (cpreds c @ [(t, bh, neg)]) - 1)"

text \<open>\<^verbatim>\<open>strconv.Atoi\<close> on a name's part, which has no sign; an error leaves the zero or the largest \<^verbatim>\<open>int\<close>.\<close>

definition Atoi :: "string \<Rightarrow> nat" where
  "Atoi s = (if s = [] \<or> \<not> list_all isDigit s then 0 else min (undec s) (2 ^ 63 - 1))"

definition slotOf :: "string \<Rightarrow> string option" where
  "slotOf name =
     (let r = (case cut_prefix ''g'' name of Some r \<Rightarrow> r | None \<Rightarrow> name)
      in if CHR ''_'' \<in> set r then Some (takeWhile (\<lambda>c. c \<noteq> CHR ''_'') r) else None)"

text \<open>What the captures stand for, opening and closing by turns: the scratch slots, the group slots, the
  lookarounds, and the number of capture slots.\<close>

fun placeholders :: "string list \<Rightarrow> nat \<Rightarrow> int list \<times> int list \<times> int list \<times> nat" where
  "placeholders [] nc = ([], [], [], nc)"
| "placeholders (name # ns) nc =
     (case cut_prefix ''p'' name of
        Some k \<Rightarrow> (case placeholders ns nc of (sc, g, pr, m) \<Rightarrow>
          (- 1 # - 1 # sc, - 1 # - 1 # g, int (Atoi k) # - 1 # pr, m))
      | None \<Rightarrow>
          (case slotOf name of
             Some sl \<Rightarrow> (case placeholders ns (nc + 1) of (sc, g, pr, m) \<Rightarrow>
               (int nc # int nc # sc, - 1 # int (2 * Atoi sl) # g, - 1 # - 1 # pr, m))
           | None \<Rightarrow> (case placeholders ns nc of (sc, g, pr, m) \<Rightarrow>
               (- 1 # - 1 # sc, - 1 # - 1 # g, - 1 # - 1 # pr, m))))"

definition compileProg :: "inst list \<Rightarrow> nat \<Rightarrow> string list \<Rightarrow> nat \<Rightarrow> prog" where
  "compileProg is st capNames groups =
     (case placeholders capNames (2 * groups) of (sc, g, pr, m) \<Rightarrow>
        \<lparr>insts = is, scratch = sc, grp = g, predOf = pr, start = st, ncap = m\<rparr>)"

subsection \<open>Lookarounds\<close>

text \<open>\<open>holds\<close>: a body tests only the lookarounds read before it, which the reader numbers first, so the
  recursion is on the number.\<close>

function holds :: "Regexp \<Rightarrow> string \<Rightarrow> nat \<Rightarrow> nat \<Rightarrow> bool" where
  "holds re s k pos =
     (let p = preds re ! k;
          e = \<lparr>code = pprog p, inp = s, look = (\<lambda>j i. if j < k then holds re s j i else False), uni = tables re\<rparr>
      in if behind p then ends (snd (snd (run e modeEnds 0 (replicate (Suc (length s)) False)))) ! pos \<noteq> negate p
         else fst (run e modeAt pos []) \<noteq> negate p)"
  by pat_completeness auto
termination
  by (relation "measure (\<lambda>(re, s, k, pos). k)") auto

declare holds.simps [simp del]

text \<open>The equation that evaluates: the body's lookarounds are not unfolded before one is asked for.\<close>

definition holdsBelow :: "Regexp \<Rightarrow> string \<Rightarrow> nat \<Rightarrow> nat \<Rightarrow> nat \<Rightarrow> bool" where
  "holdsBelow re s k j i = (if j < k then holds re s j i else False)"

lemma holds_code [code]:
  "holds re s k pos =
     (let p = preds re ! k;
          e = \<lparr>code = pprog p, inp = s, look = holdsBelow re s k, uni = tables re\<rparr>
      in if behind p then ends (snd (snd (run e modeEnds 0 (replicate (Suc (length s)) False)))) ! pos \<noteq> negate p
         else fst (run e modeAt pos []) \<noteq> negate p)"
  unfolding holdsBelow_def [abs_def] by (rule holds.simps)

definition mainEnv :: "Regexp \<Rightarrow> string \<Rightarrow> env" where
  "mainEnv re s = \<lparr>code = main re, inp = s, look = holds re s, uni = tables re\<rparr>"

definition predEnv :: "Regexp \<Rightarrow> string \<Rightarrow> nat \<Rightarrow> env" where
  "predEnv re s k = \<lparr>code = pprog (preds re ! k), inp = s, look = holds re s, uni = tables re\<rparr>"

text \<open>A lookahead's memo: 0 unknown, 1 holds, 2 fails. \<open>ask\<close> is the answer before \<^verbatim>\<open>negate\<close>.\<close>

definition recall :: "(nat \<Rightarrow> bool) \<Rightarrow> nat list \<Rightarrow> nat \<Rightarrow> nat list \<times> bool" where
  "recall ask memo pos =
     (let memo1 = (if memo ! pos = 0 then memo[pos := (if ask pos then 1 else 2)] else memo)
      in (memo1, memo1 ! pos = 1))"

subsection \<open>Searches\<close>

definition findFrom :: "Regexp \<Rightarrow> string \<Rightarrow> nat \<Rightarrow> int list option" where
  "findFrom re s from =
     (case run (mainEnv re s) modeFind from [] of (b, q, o') \<Rightarrow>
        if b then Some (take (2 * length (names re)) (matchcap o')) else None)"

text \<open>\<open>findAll\<close>'s loop; every search starts later than the last, so a length's worth of turns and two is enough.\<close>

fun findAllFrom :: "nat \<Rightarrow> Regexp \<Rightarrow> string \<Rightarrow> nat \<Rightarrow> int list list" where
  "findAllFrom 0 re s pos = []"
| "findAllFrom (Suc n) re s pos =
     (if length s < pos then []
      else case findFrom re s pos of
        None \<Rightarrow> []
      | Some m \<Rightarrow>
          (let pos1 = nat (m ! 1) in
             if m ! 1 = m ! 0 then
               if pos1 = length s then [m]
               else m # findAllFrom n re s (pos1 + snd (DecodeRune (drop pos1 s)))
             else m # findAllFrom n re s pos1))"

declare findAllFrom.simps(2) [simp del]

definition findAll :: "Regexp \<Rightarrow> string \<Rightarrow> int list list" where
  "findAll re s = findAllFrom (length s + 2) re s 0"

definition SubexpNames :: "Regexp \<Rightarrow> string list" where
  "SubexpNames re = names re"

fun sliceIndex :: "string list \<Rightarrow> string \<Rightarrow> int" where
  "sliceIndex [] x = - 1"
| "sliceIndex (y # ys) x = (if y = x then 0 else let i = sliceIndex ys x in if i < 0 then - 1 else i + 1)"

definition SubexpIndex :: "Regexp \<Rightarrow> string \<Rightarrow> int" where
  "SubexpIndex re name = (if name = '''' then - 1 else sliceIndex (names re) name)"

definition MatchString :: "Regexp \<Rightarrow> string \<Rightarrow> bool" where
  "MatchString re s = (if \<not> pre re s then False else fst (run (mainEnv re s) modeAny 0 []))"

definition Find :: "Regexp \<Rightarrow> string \<Rightarrow> nat \<Rightarrow> int list option" where
  "Find re s from = (if \<not> pre re s then None else findFrom re s from)"

definition FindAll :: "Regexp \<Rightarrow> string \<Rightarrow> int list list" where
  "FindAll re s = (if \<not> pre re s then [] else findAll re s)"

fun splice :: "string \<Rightarrow> string \<Rightarrow> nat \<Rightarrow> int list list \<Rightarrow> string" where
  "splice s repl upTo [] = drop upTo s"
| "splice s repl upTo (m # ms) = drop upTo (take (nat (m ! 0)) s) @ repl @ splice s repl (nat (m ! 1)) ms"

definition Replace :: "Regexp \<Rightarrow> string \<Rightarrow> string \<Rightarrow> string" where
  "Replace re s repl =
     (if \<not> pre re s then s else let all = findAll re s in if all = [] then s else splice s repl 0 all)"

subsection \<open>Compiled patterns\<close>

definition tests_below :: "nat \<Rightarrow> prog \<Rightarrow> bool" where
  "tests_below k p \<longleftrightarrow> list_all (\<lambda>i. case i of InstCapture a _ \<Rightarrow> predOf p ! a < int k | _ \<Rightarrow> True) (insts p)"

definition regexp_wf :: "Regexp \<Rightarrow> bool" where
  "regexp_wf re \<longleftrightarrow> prog_wf (main re) \<and> tests_below (length (preds re)) (main re)
     \<and> names re \<noteq> [] \<and> 2 * length (names re) \<le> ncap (main re)
     \<and> (\<forall>k < length (preds re). prog_wf (pprog (preds re ! k)) \<and> tests_below k (pprog (preds re ! k)))"

end
