(* ===== verification/NetregexSpec.thy ===== *)
theory NetregexSpec
  imports NetregexApi
begin

text \<open>
  What netregex's operations return, over the automaton \<open>acc\<close> of a program whose lookarounds are answered by
  \<open>holds\<close>: IsMatch, Match, Matches and Replace, the lookarounds themselves, and the compiler's slots.
\<close>

subsection \<open>Lookarounds\<close>

lemma tests_below_lt: "tests_below k p \<Longrightarrow> pc < length (insts p) \<Longrightarrow> insts p ! pc = InstCapture a out \<Longrightarrow> predOf p ! a < int k"
  unfolding tests_below_def list_all_length by (drule spec [of _ pc]) simp

lemma acc_look:
  assumes "prog_wf (code e)" "tests_below k (code e)" "\<And>j i. j < k \<Longrightarrow> look e j i = look e' j i"
    and "code e' = code e" "inp e' = inp e" "uni e' = uni e"
  shows "acc e pc pos z \<Longrightarrow> pc < length (insts (code e)) \<Longrightarrow> acc e' pc pos z"
proof (induction rule: acc.induct)
  case (acc_match pc pos)
  then show ?case by (simp add: acc.acc_match assms(4))
next
  case (acc_eps s pos pc z)
  have "succs e' pos pc = succs e pos pc"
  proof (cases "insts (code e) ! pc")
    case (InstCapture a out)
    have "predOf (code e) ! a < int k" by (rule tests_below_lt [OF assms(2) acc_eps.prems InstCapture])
    then show ?thesis using assms(3) [of "nat (predOf (code e) ! a)" pos]
      by (auto simp: succs_def assms(4) InstCapture)
  qed (simp_all add: succs_def assms(4-6))
  moreover have "s < length (insts (code e))" by (rule succs_in [OF assms(1) acc_eps.prems acc_eps.hyps(1)])
  ultimately show ?case using acc_eps.IH acc_eps.hyps(1) acc.acc_eps [of s e' pos pc z] by simp
next
  case (acc_rune pc pos out z)
  have "out < length (insts (code e))"
    by (rule targets_in [OF assms(1) acc_rune.prems consume_target [OF acc_rune.hyps(1)]])
  then have "acc e' out (nextPos (inp e') pos) z" using acc_rune.IH by (simp only: assms(5))
  moreover have "consume (uni e') (insts (code e') ! pc) (fst (runeOf (inp e') pos)) = Some out"
    using acc_rune.hyps(1) by (simp only: assms(4-6))
  ultimately show ?case by (rule acc.acc_rune [rotated])
qed

lemma wf_pred:
  assumes "regexp_wf re" "k < length (preds re)"
  shows "prog_wf (pprog (preds re ! k))" "tests_below k (pprog (preds re ! k))"
  using assms by (simp_all add: regexp_wf_def)

lemma holds_acc:
  assumes "regexp_wf re" "k < length (preds re)" "pos \<le> length s"
  shows "holds re s k pos \<longleftrightarrow>
    (if behind (preds re ! k) then \<exists>a. bnd s 0 a \<and> acc (predEnv re s k) (start (pprog (preds re ! k))) a pos
     else \<exists>z. acc (predEnv re s k) (start (pprog (preds re ! k))) pos z) \<noteq> negate (preds re ! k)"
proof -
  let ?p = "preds re ! k"
  define e where "e = \<lparr>code = pprog ?p, inp = s,
    look = (\<lambda>j i. if j < k then holds re s j i else False), uni = tables re\<rparr>"
  have e: "code e = pprog ?p" "inp e = s" "uni e = tables re" "\<And>j i. j < k \<Longrightarrow> look e j i = holds re s j i"
    by (simp_all add: e_def)
  have pe: "code (predEnv re s k) = pprog ?p" "inp (predEnv re s k) = s" "uni (predEnv re s k) = tables re"
    "look (predEnv re s k) = holds re s" by (simp_all add: predEnv_def)
  note wf = wf_pred [OF assms(1,2)]
  have st: "start (pprog ?p) < length (insts (pprog ?p))" using wf(1) by (simp add: prog_wf_def)
  have ac: "acc e (start (pprog ?p)) a z \<longleftrightarrow> acc (predEnv re s k) (start (pprog ?p)) a z" for a z
    proof
    assume "acc e (start (pprog ?p)) a z"
    then show "acc (predEnv re s k) (start (pprog ?p)) a z"
      by (rule acc_look [of e k, rotated 6]) (use wf st e(4) in \<open>simp_all add: e(1-3) pe\<close>)
  next
    assume "acc (predEnv re s k) (start (pprog ?p)) a z"
    then show "acc e (start (pprog ?p)) a z"
      by (rule acc_look [of "predEnv re s k" k, rotated 6]) (use wf st e(4) in \<open>simp_all add: e(1-3) pe\<close>)
  qed
  have en: "ends (snd (snd (run e modeEnds 0 (replicate (Suc (length s)) False)))) ! pos \<longleftrightarrow>
      (\<exists>a. bnd s 0 a \<and> acc (predEnv re s k) (start (pprog ?p)) a pos)"
    using run_Ends [of e 0 pos] wf(1) assms(3) by (simp add: e(1,2) ac del: replicate_Suc)
  have at: "fst (run e modeAt pos []) \<longleftrightarrow> (\<exists>z. acc (predEnv re s k) (start (pprog ?p)) pos z)"
    using run_At [of e pos "[]"] wf(1) assms(3) by (simp add: e(1,2) ac)
  show ?thesis unfolding holds.simps [of re s k pos] Let_def e_def [symmetric] en at by (cases "behind ?p") simp_all
qed

subsection \<open>Match\<close>

definition matches :: "Regexp \<Rightarrow> string \<Rightarrow> nat \<Rightarrow> nat \<Rightarrow> bool" where
  "matches re s a z \<longleftrightarrow> acc (mainEnv re s) (start (main re)) a z"

lemma matches_bnd: "matches re s a z \<Longrightarrow> bnd s p a \<Longrightarrow> bnd s p z \<and> a \<le> z"
  using acc_bnd [of "mainEnv re s"] by (simp add: matches_def mainEnv_def)

lemma any_matches:
  assumes "regexp_wf re"
  shows "fst (run (mainEnv re s) modeAny 0 []) \<longleftrightarrow> (\<exists>a z. bnd s 0 a \<and> matches re s a z)"
  using run_Any [of "mainEnv re s" 0 "[]"] assms by (simp add: matches_def mainEnv_def regexp_wf_def)

lemma find_matches:
  assumes "regexp_wf re" "p \<le> length s"
  shows "case findFrom re s p of
      None \<Rightarrow> \<forall>a z. bnd s p a \<longrightarrow> \<not> matches re s a z
    | Some m \<Rightarrow> length m = 2 * length (names re) \<and> (\<exists>a z. m ! 0 = int a \<and> m ! 1 = int z \<and> bnd s p a
        \<and> matches re s a z \<and> (\<forall>a' z'. bnd s p a' \<longrightarrow> matches re s a' z' \<longrightarrow> a \<le> a'))"
proof -
  let ?e = "mainEnv re s"
  have c: "code ?e = main re" "inp ?e = s" by (simp_all add: mainEnv_def)
  have n: "names re \<noteq> []" "2 * length (names re) \<le> ncap (main re)" "prog_wf (main re)"
    using assms(1) by (simp_all add: regexp_wf_def)
  obtain b q o' where r: "run ?e modeFind p [] = (b, q, o')" by (metis surj_pair)
  have "2 \<le> ncap (main re)" using n by (cases "names re") auto
  with run_Find [OF _ _ _ r] n(3) assms(2) have s: "searched ?e p b (matchcap o')" by (simp add: c)
  show ?thesis
  proof (cases b)
    case True
    have i: "0 < 2 * length (names re)" "1 < 2 * length (names re)" using n(1) by (cases "names re"; simp)+
    from s True n(2) i show ?thesis
      by (fastforce simp: findFrom_def r searched_def best_def c matches_def)
  next
    case False
    then show ?thesis using s by (simp add: findFrom_def r searched_def c matches_def)
  qed
qed

lemma find_None: "regexp_wf re \<Longrightarrow> p \<le> length s \<Longrightarrow> findFrom re s p = None \<Longrightarrow> bnd s p a \<Longrightarrow> \<not> matches re s a z"
  using find_matches [of re p s] by simp

lemma find_Some:
  assumes "regexp_wf re" "p \<le> length s" "findFrom re s p = Some m"
  obtains a z where "m ! 0 = int a" "m ! 1 = int z" "bnd s p a" "bnd s p z" "a \<le> z" "matches re s a z"
    "\<forall>a' z'. bnd s p a' \<longrightarrow> matches re s a' z' \<longrightarrow> a \<le> a'"
  using find_matches [OF assms(1,2)] assms(3) matches_bnd by (simp) blast

subsection \<open>Matches\<close>

lemma bnd_trans: "bnd s p q \<Longrightarrow> bnd s q a \<Longrightarrow> bnd s p a"
  unfolding bnd_def by (metis funpow_add o_apply)

lemma bnd_after: "bnd s p q \<Longrightarrow> bnd s p a \<Longrightarrow> q \<le> a \<Longrightarrow> bnd s q a"
proof -
  assume "bnd s p q" "bnd s p a" and le: "q \<le> a"
  then obtain m n where q: "q = (nextPos s ^^ m) p" and a: "a = (nextPos s ^^ n) p" by (auto simp: bnd_def)
  show "bnd s q a"
  proof (cases "m \<le> n")
    case True
    then have "a = (nextPos s ^^ (n - m)) q" unfolding a q by (simp flip: funpow_add o_apply [of "nextPos s ^^ (n - m)"])
    then show ?thesis by (auto simp: bnd_def)
  next
    case False
    then have "a \<le> q" unfolding a q by (intro nextPos_mono) simp
    then show ?thesis using le by simp
  qed
qed

text \<open>The position the next search starts from.\<close>

definition resume :: "string \<Rightarrow> int list \<Rightarrow> nat" where
  "resume s m = (if m ! 1 = m ! 0 then nextPos s (nat (m ! 1)) else nat (m ! 1))"

lemma nextPos_step: "p < length s \<Longrightarrow> nextPos s p = p + snd (DecodeRune (drop p s)) \<and> p < nextPos s p"
  using runeOf_end [of s p] by (auto simp: nextPos_def runeOf_def)

lemma findAllFrom_step:
  assumes "regexp_wf re" "p \<le> length s" "findFrom re s p = Some m"
  shows "findAllFrom (Suc n) re s p =
      (if m ! 1 = m ! 0 \<and> nat (m ! 1) = length s then [m] else m # findAllFrom n re s (resume s m))"
    and "\<not> (m ! 1 = m ! 0 \<and> nat (m ! 1) = length s) \<Longrightarrow> p < resume s m \<and> resume s m \<le> length s \<and> bnd s p (resume s m)"
proof -
  obtain a z where az: "m ! 0 = int a" "m ! 1 = int z" "bnd s p a" "bnd s p z" "a \<le> z" "matches re s a z"
    using find_Some [OF assms] by metis
  have z: "z \<le> length s" "p \<le> a" using bnd_len [OF az(4) assms(2)] bnd_ge [OF az(3)] by simp_all
  show "findAllFrom (Suc n) re s p =
      (if m ! 1 = m ! 0 \<and> nat (m ! 1) = length s then [m] else m # findAllFrom n re s (resume s m))"
  proof (cases "a = z")
    case True
    then show ?thesis using assms(2,3) nextPos_step [of z s] z(1) az(1,2)
      by (simp add: findAllFrom.simps(2) resume_def Let_def)
  next
    case False
    then show ?thesis using assms(2,3) az(1,2) by (simp add: findAllFrom.simps(2) resume_def Let_def)
  qed
  assume ne: "\<not> (m ! 1 = m ! 0 \<and> nat (m ! 1) = length s)"
  show "p < resume s m \<and> resume s m \<le> length s \<and> bnd s p (resume s m)"
  proof (cases "a = z")
    case True
    then have "z < length s" using ne z(1) az(1,2) by auto
    then show ?thesis using True nextPos_step [of z s] nextPos_len [of z s] bnd_next [OF az(4)] z
      by (auto simp: resume_def az(1,2) az(2) [unfolded One_nat_def])
  next
    case False
    then show ?thesis using az(4,5) z by (auto simp: resume_def az(1,2) az(2) [unfolded One_nat_def])
  qed
qed

lemma findAllFrom_fuel:
  assumes wf: "regexp_wf re"
  shows "p \<le> length s \<Longrightarrow> length s - p < n \<Longrightarrow> n \<le> n' \<Longrightarrow> findAllFrom n' re s p = findAllFrom n re s p"
proof (induction n arbitrary: n' p)
  case (Suc n)
  then obtain k where k: "n' = Suc k" "n \<le> k" by (cases n') auto
  show ?case
  proof (cases "findFrom re s p")
    case None
    then show ?thesis by (simp add: k findAllFrom.simps(2))
  next
    case (Some m)
    show ?thesis
    proof (cases "m ! 1 = m ! 0 \<and> nat (m ! 1) = length s")
      case True
      show ?thesis unfolding k(1) findAllFrom_step(1) [OF wf Suc.prems(1) Some] if_P [OF True] by (rule refl)
    next
      case False
      from findAllFrom_step(2) [OF wf Suc.prems(1) Some False] Suc.prems(2)
      have "resume s m \<le> length s" "length s - resume s m < n" by auto
      from Suc.IH [OF this k(2)] show ?thesis
        unfolding k(1) findAllFrom_step(1) [OF wf Suc.prems(1) Some] if_not_P [OF False] by simp
    qed
  qed
qed simp
text \<open>The matches from a position on: each is leftmost after the last, and no match starts in between.\<close>

fun inOrder :: "string \<Rightarrow> nat \<Rightarrow> int list list \<Rightarrow> bool" where
  "inOrder s p [] \<longleftrightarrow> True"
| "inOrder s p (m # ms) \<longleftrightarrow> int p \<le> m ! 0 \<and> m ! 0 \<le> m ! 1 \<and> m ! 1 \<le> int (length s)
     \<and> inOrder s (nat (if m ! 1 = m ! 0 then m ! 1 + 1 else m ! 1)) ms"

lemma inOrder_mono: "inOrder s p ms \<Longrightarrow> p' \<le> p \<Longrightarrow> inOrder s p' ms"
  by (cases ms) auto

lemma inOrder_Cons:
  "m ! 0 = int a \<Longrightarrow> m ! 1 = int z \<Longrightarrow>
   inOrder s p (m # ms) \<longleftrightarrow> p \<le> a \<and> a \<le> z \<and> z \<le> length s \<and> inOrder s (if z = a then Suc z else z) ms"
  by (simp add: nat_add_distrib)

lemma findAllFrom_spec:
  assumes wf: "regexp_wf re"
  shows "p \<le> length s \<Longrightarrow> length s - p < n \<Longrightarrow> inOrder s p (findAllFrom n re s p)
    \<and> (\<forall>m \<in> set (findAllFrom n re s p). length m = 2 * length (names re)
         \<and> bnd s p (nat (m ! 0)) \<and> matches re s (nat (m ! 0)) (nat (m ! 1)))
    \<and> (\<forall>a z. bnd s p a \<and> matches re s a z \<longrightarrow>
         (\<exists>m \<in> set (findAllFrom n re s p). m ! 0 \<le> int a \<and> (int a = m ! 0 \<or> int a < m ! 1)))"
proof (induction n arbitrary: p)
  case (Suc n)
  show ?case
  proof (cases "findFrom re s p")
    case None
    then have e: "findAllFrom (Suc n) re s p = []" by (simp add: findAllFrom.simps(2))
    show ?thesis unfolding e using find_None [OF wf Suc.prems(1) None] by auto
  next
    case (Some m)
    from find_Some [OF wf Suc.prems(1) Some] obtain a z where az: "m ! 0 = int a" "m ! 1 = int z" "bnd s p a" "bnd s p z" "a \<le> z" "matches re s a z"
      "\<forall>a' z'. bnd s p a' \<longrightarrow> matches re s a' z' \<longrightarrow> a \<le> a'" .
    have len: "length m = 2 * length (names re)" using find_matches [OF wf Suc.prems(1)] unfolding Some option.simps by (rule conjunct1)
    have b: "p \<le> a" "z \<le> length s" using bnd_ge [OF az(3)] bnd_len [OF az(4) Suc.prems(1)] by simp_all
    note st = findAllFrom_step(1) [OF wf Suc.prems(1) Some, of n]
    show ?thesis
    proof (cases "m ! 1 = m ! 0 \<and> nat (m ! 1) = length s")
      case True
      have e: "findAllFrom (Suc n) re s p = [m]" unfolding st if_P [OF True] by (rule refl)
      have ae: "a = length s" "z = a" using True unfolding az(1,2) by simp_all
      have "a' = a" if "bnd s p a'" "matches re s a' z'" for a' z'
        using az(7) that bnd_len [OF that(1) Suc.prems(1)] ae(1) le_antisym [of a' a] by blast
      then have all: "m ! 0 \<le> int a' \<and> int a' = m ! 0" if "bnd s p a'" "matches re s a' z'" for a' z'
        using that az(1) by simp
      have "inOrder s p [m]" unfolding inOrder_Cons [OF az(1,2)] using az(5) b by simp
      moreover have "length m = 2 * length (names re) \<and> bnd s p (nat (m ! 0)) \<and> matches re s (nat (m ! 0)) (nat (m ! 1))"
        using len az(3,6) unfolding az(1,2) by simp
      moreover have "\<forall>a z. bnd s p a \<and> matches re s a z \<longrightarrow>
          (\<exists>m' \<in> set [m]. m' ! 0 \<le> int a \<and> (int a = m' ! 0 \<or> int a < m' ! 1))"
        by (intro allI impI bexI [of _ m]) (use all in blast, simp)
      ultimately show ?thesis unfolding e by simp
    next
      case False
      note ne = findAllFrom_step(2) [OF wf Suc.prems(1) Some False]
      let ?r = "resume s m"
      have e: "findAllFrom (Suc n) re s p = m # findAllFrom n re s ?r" unfolding st if_not_P [OF False] by (rule refl)
      have r: "?r \<le> length s" "length s - ?r < n" "p < ?r" "bnd s p ?r" using ne Suc.prems by auto
      note ih = Suc.IH [OF r(1,2)]
      have up: "(if z = a then Suc z else z) \<le> ?r"
      proof (cases "z = a")
        case True
        have "z < length s" using False b(2) True unfolding az(1,2) by auto
        then have "z < nextPos s z" using nextPos_step by blast
        then show ?thesis using True by (simp add: resume_def az(1) az(2) [unfolded One_nat_def])
      next
        case False
        then show ?thesis by (simp add: resume_def az(1) az(2) [unfolded One_nat_def])
      qed
      have c: "inOrder s p (m # findAllFrom n re s ?r)"
        unfolding inOrder_Cons [OF az(1,2)] using az(5) b inOrder_mono [OF conjunct1 [OF ih] up] by blast
      have gap: "a' = a \<or> a' < z \<or> ?r \<le> a'" if "bnd s p a'" "a \<le> a'" for a'
      proof (cases "z = a")
        case True
        have "?r = nextPos s a" using True by (simp add: resume_def az(1) az(2) [unfolded One_nat_def])
        then have "?r \<le> a' \<or> a' \<le> a" using bnd_gap [OF that(1) az(3)] by (metis not_le_imp_less)
        then show ?thesis using that(2) by auto
      next
        case False
        then have "?r = z" by (simp add: resume_def az(1) az(2) [unfolded One_nat_def])
        then show ?thesis by auto
      qed
      have all: "\<exists>m' \<in> set (m # findAllFrom n re s ?r). m' ! 0 \<le> int a' \<and> (int a' = m' ! 0 \<or> int a' < m' ! 1)"
        if t: "bnd s p a'" "matches re s a' z'" for a' z'
      proof (cases "?r \<le> a'")
        case True
        then have "bnd s ?r a'" by (rule bnd_after [OF r(4) t(1)])
        then obtain m' where "m' \<in> set (findAllFrom n re s ?r)" "m' ! 0 \<le> int a'" "int a' = m' ! 0 \<or> int a' < m' ! 1"
          using ih t(2) by blast
        then show ?thesis by (meson list.set_intros(2))
      next
        case False
        have le: "a \<le> a'" using az(7) t by blast
        have "m ! 0 \<le> int a'" "int a' = m ! 0 \<or> int a' < m ! 1"
          using gap [OF t(1)] False le by (auto simp: az(1) az(2) [unfolded One_nat_def])
        then show ?thesis by (meson list.set_intros(1))
      qed
      have here: "length m = 2 * length (names re) \<and> bnd s p (nat (m ! 0)) \<and> matches re s (nat (m ! 0)) (nat (m ! 1))"
        using len az by simp
      show ?thesis unfolding e
      proof (intro conjI allI impI ballI)
        show "inOrder s p (m # findAllFrom n re s ?r)" by (rule c)
      next
        fix m' assume "m' \<in> set (m # findAllFrom n re s ?r)"
        then show "length m' = 2 * length (names re)" "bnd s p (nat (m' ! 0))" "matches re s (nat (m' ! 0)) (nat (m' ! 1))"
          using here ih bnd_trans [OF r(4)] by auto
      qed (use all in blast)
    qed
  qed
qed simp

subsection \<open>Replace\<close>

lemma cut_twice: "p \<le> a \<Longrightarrow> a \<le> z \<Longrightarrow> z \<le> length s \<Longrightarrow> drop p s = drop p (take a s) @ drop a (take z s) @ drop z s"
proof -
  assume le: "p \<le> a" "a \<le> z" "z \<le> length s"
  have "drop x s = drop x (take y s) @ drop y s" if "x \<le> y" "y \<le> length s" for x y
    using that append_take_drop_id [of y s] drop_append [of x "take y s" "drop y s"] by simp
  then show ?thesis using le by (metis order_trans)
qed

text \<open>Where the gaps before the matches start, the text after the last one included.\<close>

definition gapStarts :: "nat \<Rightarrow> int list list \<Rightarrow> nat list" where
  "gapStarts p ms = p # map (\<lambda>m. nat (m ! 1)) ms"

lemma splice_inOrder:
  "inOrder s p ms \<Longrightarrow> p \<le> length s \<Longrightarrow>
     drop p s = concat (map2 (\<lambda>g m. drop g (take (nat (m ! 0)) s) @ drop (nat (m ! 0)) (take (nat (m ! 1)) s)) (gapStarts p ms) ms)
        @ drop (last (gapStarts p ms)) s
     \<and> splice s repl p ms = concat (map2 (\<lambda>g m. drop g (take (nat (m ! 0)) s) @ repl) (gapStarts p ms) ms)
        @ drop (last (gapStarts p ms)) s
     \<and> list_all2 (\<lambda>g m. int g \<le> m ! 0 \<and> m ! 0 \<le> m ! 1 \<and> m ! 1 \<le> int (length s)) (butlast (gapStarts p ms)) ms"
proof (induction ms arbitrary: p)
  case (Cons m ms)
  obtain a z where m: "m ! 0 = int a" "m ! 1 = int z"
    using Cons.prems(1) nonneg_int_cases [of "m ! 0"] nonneg_int_cases [of "m ! 1"] by (metis inOrder.simps(2) of_nat_0_le_iff order_trans)
  have az: "m ! 0 = int a" "m ! 1 = int z" "p \<le> a" "a \<le> z" "z \<le> length s" "inOrder s (if z = a then Suc z else z) ms"
    using Cons.prems(1) m unfolding inOrder_Cons [OF m] by auto
  have "inOrder s z ms" using az(6) by (cases "z = a") (auto intro: inOrder_mono)
  note ih = Cons.IH [OF this az(5)]
  have g: "gapStarts p (m # ms) = p # gapStarts z ms" by (simp add: gapStarts_def az(2) del: One_nat_def)
  have ne: "gapStarts z ms \<noteq> []" by (simp add: gapStarts_def)
  have "drop p s = drop p (take a s) @ drop a (take z s) @ drop z s"
    using az(3-5) cut_twice [of p a z s] by simp
  then show ?case unfolding g using az ih ne by simp
qed (simp add: gapStarts_def)

end
