(* ===== verification/NetregexProps.thy ===== *)
theory NetregexProps
  imports NetregexSpec "HOL-Library.Code_Target_Nat"
begin

text \<open>
  netregex's properties, and a pattern they are applied to: the program of \<^verbatim>\<open>(?<g>[ab])(?!c)\<close> as
  \<^verbatim>\<open>syntax.Compile\<close> gives it, with the group's and the lookahead's placeholders.
\<close>

subsection \<open>Compiled programs\<close>

definition placed :: "nat \<Rightarrow> string \<Rightarrow> bool" where
  "placed groups name \<longleftrightarrow> cut_prefix ''p'' name \<noteq> None
     \<or> (case slotOf name of None \<Rightarrow> True | Some sl \<Rightarrow> 0 < groups \<and> Atoi sl \<noteq> 0)"

lemma placeholders_wf:
  "list_all (placed groups) ns \<Longrightarrow> placeholders ns nc = (sc, g, pr, m) \<Longrightarrow> groups \<le> nc \<Longrightarrow>
   list_all (\<lambda>x. x \<noteq> 0) sc \<and> list_all (\<lambda>x. x \<noteq> 0) g
     \<and> length sc = 2 * length ns \<and> length g = 2 * length ns \<and> nc \<le> m"
proof (induction ns arbitrary: nc sc g pr m)
  case (Cons name ns)
  obtain sc1 g1 pr1 m1 where r1: "placeholders ns nc = (sc1, g1, pr1, m1)" by (metis surj_pair)
  obtain sc2 g2 pr2 m2 where r2: "placeholders ns (nc + 1) = (sc2, g2, pr2, m2)" by (metis surj_pair)
  have p: "placed groups name" "list_all (placed groups) ns" using Cons.prems(1) by simp_all
  note ih1 = Cons.IH [OF p(2) r1 Cons.prems(3)] and ih2 = Cons.IH [OF p(2) r2]
  show ?case
  proof (cases "cut_prefix ''p'' name")
    case (Some k)
    then show ?thesis using Cons.prems(2) ih1 by (auto simp: r1)
  next
    case None
    show ?thesis
    proof (cases "slotOf name")
      case n: None
      then show ?thesis using Cons.prems(2) ih1 None by (auto simp: r1)
    next
      case (Some sl)
      then have "0 < groups" "Atoi sl \<noteq> 0" using p(1) None by (simp_all add: placed_def)
      then show ?thesis using Cons.prems(2,3) ih2 Some None r2 by auto
    qed
  qed
qed simp

lemma compileProg_prog:
  assumes "st < length is" "list_all (\<lambda>i. list_all (\<lambda>t. t < length is) (targets i)) is"
    and "list_all (\<lambda>i. case i of InstCapture a _ \<Rightarrow> a < 2 * length ns | _ \<Rightarrow> True) is" "list_all (placed groups) ns"
  shows "prog_wf (compileProg is st ns groups) \<and> 2 * groups \<le> ncap (compileProg is st ns groups)"
proof -
  obtain sc g pr m where r: "placeholders ns (2 * groups) = (sc, g, pr, m)" by (metis surj_pair)
  have sel: "insts (compileProg is st ns groups) = is" "start (compileProg is st ns groups) = st"
    "grp (compileProg is st ns groups) = g" "scratch (compileProg is st ns groups) = sc"
    "ncap (compileProg is st ns groups) = m" by (simp_all add: compileProg_def r)
  have "list_all (\<lambda>x. x \<noteq> 0) sc" "list_all (\<lambda>x. x \<noteq> 0) g" "length sc = 2 * length ns" "length g = 2 * length ns"
    "2 * groups \<le> m" using placeholders_wf [OF assms(4) r] by simp_all
  then show ?thesis using assms(1-3) unfolding prog_wf_def sel by simp
qed

definition compiler_ok :: "compiler \<Rightarrow> bool" where
  "compiler_ok c \<longleftrightarrow> cnames c \<noteq> [] \<and> cnames c ! 0 = '''' \<and> distinct (cnames c)
     \<and> (\<forall>x i. slots c x = Some i \<longleftrightarrow> 0 < i \<and> i < length (cnames c) \<and> cnames c ! i = x)"

lemma newCompiler_ok: "compiler_ok newCompiler"
  by (auto simp: compiler_ok_def newCompiler_def)

lemma capture_ok: "compiler_ok c \<Longrightarrow> name \<noteq> '''' \<Longrightarrow> compiler_ok (fst (capture name c))
  \<and> (\<exists>rest. cnames (fst (capture name c)) = cnames c @ rest)"
proof -
  assume c: "compiler_ok c" and n: "name \<noteq> ''''"
  show ?thesis
  proof (cases "slots c name")
    case (Some i)
    then have "fst (capture name c) = c\<lparr>cn := cn c + 1\<rparr>" by (simp add: capture_def Let_def)
    then show ?thesis using c by (simp add: compiler_ok_def)
  next
    case None
    then have fresh: "\<not> (0 < i \<and> i < length (cnames c) \<and> cnames c ! i = name)" for i
      using c unfolding compiler_ok_def by (metis option.distinct(1))
    have "name \<notin> set (cnames c)"
    proof
      assume "name \<in> set (cnames c)"
      then obtain i where i: "i < length (cnames c)" "cnames c ! i = name" by (auto simp: in_set_conv_nth)
      then have "i \<noteq> 0" using c n by (auto simp: compiler_ok_def)
      then show False using fresh i by blast
    qed
    moreover have "fst (capture name c) = c\<lparr>slots := (slots c)(name \<mapsto> length (cnames c)),
        cnames := cnames c @ [name], cn := cn c + 1\<rparr>" by (simp add: capture_def Let_def None)
    ultimately show ?thesis using c fresh by (auto simp: compiler_ok_def nth_append less_Suc_eq)
  qed
qed

lemma takeWhile_to: "x \<notin> set w \<Longrightarrow> takeWhile (\<lambda>c. c \<noteq> x) (w @ x # r) = w"
  by (induction w) auto

lemma slotOf_capture: "slotOf (''g'' @ dec i @ ''_'' @ dec n) = Some (dec i)"
proof -
  have "CHR ''_'' \<notin> set (dec i)" using dec_all_digits [of "CHR ''_''" i] by (auto simp: isDigit_of_char)
  from takeWhile_to [OF this] show ?thesis by (simp add: slotOf_def)
qed

lemma Atoi_dec: "i < 2 ^ 63 \<Longrightarrow> Atoi (dec i) = i"
  by (simp add: Atoi_def min_def)

lemma sliceIndex_nth: "distinct xs \<Longrightarrow> i < length xs \<Longrightarrow> sliceIndex xs (xs ! i) = int i"
proof (induction xs arbitrary: i)
  case (Cons y ys)
  then show ?case by (cases i) (auto simp: Let_def)
qed simp
subsection \<open>The memo\<close>

fun recalls :: "(nat \<Rightarrow> bool) \<Rightarrow> nat list \<Rightarrow> nat list \<Rightarrow> bool list" where
  "recalls ask memo [] = []"
| "recalls ask memo (p # ps) = (case recall ask memo p of (memo1, b) \<Rightarrow> b # recalls ask memo1 ps)"

definition memo_ok :: "(nat \<Rightarrow> bool) \<Rightarrow> nat list \<Rightarrow> bool" where
  "memo_ok ask memo \<longleftrightarrow> (\<forall>p < length memo. memo ! p = 0 \<or> memo ! p = (if ask p then 1 else 2))"

lemma recall_ok: "memo_ok ask memo \<Longrightarrow> p < length memo \<Longrightarrow> recall ask memo p = (m, b) \<Longrightarrow>
  memo_ok ask m \<and> length m = length memo \<and> b = ask p"
  by (auto simp: memo_ok_def recall_def Let_def nth_list_update split: if_splits)

lemma recalls_ok: "memo_ok ask memo \<Longrightarrow> list_all (\<lambda>p. p < length memo) ps \<Longrightarrow> recalls ask memo ps = map ask ps"
proof (induction ps arbitrary: memo)
  case (Cons p ps)
  obtain m b where r: "recall ask memo p = (m, b)" by (metis surj_pair)
  then show ?case using recall_ok [OF Cons.prems(1) _ r] Cons by simp
qed simp

subsection \<open>A pattern\<close>

definition plainTables :: unicode where
  "plainTables = \<lparr>uLetter = (\<lambda>r. (65 \<le> r \<and> r \<le> 90) \<or> (97 \<le> r \<and> r \<le> 122)), uMn = (\<lambda>r. False),
     uNd = (\<lambda>r. 48 \<le> r \<and> r \<le> 57), uPc = (\<lambda>r. r = 95), uFold = (\<lambda>r. [])\<rparr>"

definition groupNotC :: Regexp where
  "groupNotC = \<lparr>main = compileProg [InstFail, InstCapture 2 2, InstRune [97, 97, 98, 98] False 3, InstCapture 3 4,
       InstCapture 4 5, InstCapture 5 6, InstMatch] 1 ['''', ''g1_1'', ''p0''] 2,
     pre = (\<lambda>s. True), names = ['''', ''g''],
     preds = [\<lparr>pprog = compileProg [InstFail, InstRune1 99 2, InstMatch] 1 [''''] 0, behind = False, negate = True\<rparr>],
     tables = plainTables\<rparr>"

lemma groupNotC_wf: "regexp_wf groupNotC"
  by (simp add: regexp_wf_def groupNotC_def prog_wf_def compileProg_def tests_below_def slotOf_def Atoi_def isDigit_of_char
      undec_def digit_val_def)

lemma groupNotC_pre: "pre groupNotC s"
  by (simp add: groupNotC_def)

subsection \<open>Properties\<close>

text \<open>A program that \<open>compileProg\<close> builds from an instruction list whose jumps and captures stay inside
  is well formed: its placeholders never write slot 0, the match's start, and it has two slots per group.
  The reader's names are a lookaround's, or a group's with its slot of at least 1.\<close>

lemma compileProg_wf:
  assumes "st < length is" "list_all (\<lambda>i. list_all (\<lambda>t. t < length is) (targets i)) is"
    and "list_all (\<lambda>i. case i of InstCapture a _ \<Rightarrow> a < 2 * length ns | _ \<Rightarrow> True) is" "list_all (placed groups) ns"
  shows "prog_wf (compileProg is st ns groups) \<and> 2 * groups \<le> ncap (compileProg is st ns groups)"
  by (rule compileProg_prog [OF assms])

lemma compileProg_wf_witness:
  "prog_wf (compileProg [InstFail, InstCapture 2 2, InstMatch] 1 ['''', ''g1_1''] 2)"
  by (rule conjunct1 [OF compileProg_wf])
    (simp_all add: placed_def slotOf_def Atoi_def isDigit_of_char undec_def digit_val_def)

text \<open>Every occurrence of a group's name commits to the slot \<open>SubexpIndex\<close> finds for it: the placeholder
  \<open>capture\<close> writes is read back by \<open>compileProg\<close> as that slot of the names, which keep their invariant.\<close>

lemma capture_slot:
  assumes "compiler_ok c" "name \<noteq> ''''" "capture name c = (c', ph)" "length (cnames c') < 2 ^ 63" "names re = cnames c'"
  shows "compiler_ok c' \<and> (\<exists>i. 0 < i \<and> i < length (cnames c') \<and> SubexpIndex re name = int i
    \<and> placeholders [ph] nc = ([int nc, int nc], [- 1, int (2 * i)], [- 1, - 1], nc + 1))"
proof -
  have ok: "compiler_ok c'" using capture_ok [OF assms(1,2)] by (simp add: assms(3))
  obtain i where i: "slots c' name = Some i" "ph = ''g'' @ dec i @ ''_'' @ dec (cn c')"
    using assms(3) by (cases "slots c name") (auto simp: capture_def Let_def)
  then have ix: "0 < i" "i < length (cnames c')" "cnames c' ! i = name" using ok by (auto simp: compiler_ok_def)
  have "Atoi (dec i) = i" using Atoi_dec ix(2) assms(4) by simp
  then have "placeholders [ph] nc = ([int nc, int nc], [- 1, int (2 * i)], [- 1, - 1], nc + 1)"
    using slotOf_capture [of i "cn c'"] i(2) by simp
  moreover have "SubexpIndex re name = int i"
    using sliceIndex_nth [of "cnames c'" i] ok ix assms(2,5) by (simp add: SubexpIndex_def compiler_ok_def)
  ultimately show ?thesis using ok ix by blast
qed

lemma capture_slot_witness:
  "\<exists>i. 0 < i \<and> SubexpIndex (groupNotC\<lparr>names := ['''', ''g'']\<rparr>) ''g'' = int i"
  using capture_slot [OF newCompiler_ok, of "''g''" "fst (capture ''g'' newCompiler)" "snd (capture ''g'' newCompiler)"
      "groupNotC\<lparr>names := ['''', ''g'']\<rparr>"]
  by (simp add: capture_def newCompiler_def) blast

text \<open>C14. A lookaround's answer at a position: a lookahead holds when a match of its body starts there, a
  lookbehind when one that starts anywhere in the text ends there, a negated one when not. The body's
  own lookarounds are answered the same way.\<close>

lemma holds_spec:
  assumes "regexp_wf re" "k < length (preds re)" "pos \<le> length s"
  shows "holds re s k pos \<longleftrightarrow>
    (if behind (preds re ! k) then \<exists>a. bnd s 0 a \<and> acc (predEnv re s k) (start (pprog (preds re ! k))) a pos
     else \<exists>z. acc (predEnv re s k) (start (pprog (preds re ! k))) pos z) \<noteq> negate (preds re ! k)"
  by (rule holds_acc [OF assms])

lemma holds_spec_witness:
  "\<not> holds groupNotC ''ac'' 0 1 \<and> (\<exists>z. acc (predEnv groupNotC ''ac'' 0) (start (pprog (preds groupNotC ! 0))) 1 z)"
proof -
  have "\<not> holds groupNotC ''ac'' 0 1" by code_simp
  then show ?thesis using holds_spec [OF groupNotC_wf, of 0 1 "''ac''"] by (simp add: groupNotC_def)
qed

text \<open>C15. \<open>MatchString\<close> is true exactly when the pattern matches somewhere in the text, the prefilter
  admitting every text the pattern matches in.\<close>

lemma MatchString_spec:
  assumes "regexp_wf re" "\<And>a z. bnd s 0 a \<Longrightarrow> matches re s a z \<Longrightarrow> pre re s"
  shows "MatchString re s \<longleftrightarrow> (\<exists>a z. bnd s 0 a \<and> matches re s a z)"
  using any_matches [OF assms(1)] assms(2) by (auto simp: MatchString_def)

lemma MatchString_spec_witness:
  "(\<exists>a z. bnd ''cb'' 0 a \<and> matches groupNotC ''cb'' a z) \<and> \<not> (\<exists>a z. bnd ''bc'' 0 a \<and> matches groupNotC ''bc'' a z)"
proof -
  have "MatchString groupNotC ''cb''" "\<not> MatchString groupNotC ''bc''" by code_simp+
  then show ?thesis using MatchString_spec [OF groupNotC_wf groupNotC_pre] by simp
qed

text \<open>C1. \<open>Find\<close> returns the leftmost match at or after a position: its first two offsets are the start and the
  end of a match, no match starts before it, and there is a result whenever there is a match.\<close>

lemma Find_leftmost:
  assumes "regexp_wf re" "p \<le> length s" "\<And>a z. bnd s p a \<Longrightarrow> matches re s a z \<Longrightarrow> pre re s"
  shows "case Find re s p of
      None \<Rightarrow> \<forall>a z. bnd s p a \<longrightarrow> \<not> matches re s a z
    | Some m \<Rightarrow> length m = 2 * length (names re) \<and> (\<exists>a z. m ! 0 = int a \<and> m ! 1 = int z \<and> bnd s p a
        \<and> matches re s a z \<and> (\<forall>a' z'. bnd s p a' \<longrightarrow> matches re s a' z' \<longrightarrow> a \<le> a'))"
  using find_matches [OF assms(1,2)] assms(3) by (auto simp: Find_def)

lemma Find_leftmost_witness:
  "Find groupNotC ''acbb'' 0 = Some [2, 3, 2, 3] \<and> \<not> (\<exists>a z. bnd ''acbb'' 0 a \<and> matches groupNotC ''acbb'' a z \<and> a < 2)"
proof -
  have f: "Find groupNotC ''acbb'' 0 = Some [2, 3, 2, 3]" by code_simp
  then show ?thesis using Find_leftmost [OF groupNotC_wf _ groupNotC_pre, of 0 "''acbb''"] by auto
qed

text \<open>C31. A run of a program of n instructions from a position inserts into its queues at most n times per
  remaining byte and two more positions, the unit of the package's O(n) per pass.\<close>

lemma run_insertions:
  assumes "prog_wf (code e)" "from \<le> length (inp e)" "run e md from ends0 = (b, q2, o2)"
  shows "qsteps q2 + qsteps (nextq o2) \<le> length (insts (code e)) * (length (inp e) - from + 2)"
  by (rule run_Steps [OF assms])

lemma run_insertions_witness:
  "case run (mainEnv groupNotC ''acb'') modeFind 0 [] of (b, q2, o2) \<Rightarrow> qsteps q2 + qsteps (nextq o2) \<le> 35"
proof -
  obtain b q2 o2 where r: "run (mainEnv groupNotC ''acb'') modeFind 0 [] = (b, q2, o2)" by (metis surj_pair)
  have "prog_wf (main groupNotC)" using groupNotC_wf by (simp add: regexp_wf_def)
  moreover have "length (insts (main groupNotC)) = 7" by (simp add: groupNotC_def compileProg_def slotOf_def)
  ultimately show ?thesis unfolding r using run_insertions [OF _ _ r] by (simp add: mainEnv_def)
qed

text \<open>C33. \<open>FindAll\<close>'s search ends: past the text's length and two turns more fuel changes nothing, since
  each search starts later than the last.\<close>

lemma FindAll_terminates:
  assumes "regexp_wf re"
  shows "findAllFrom (length s + 2 + k) re s 0 = findAll re s"
  unfolding findAll_def by (rule findAllFrom_fuel [OF assms]) simp_all

lemma FindAll_terminates_witness: "findAllFrom 9 groupNotC ''acb'' 0 = [[2, 3, 2, 3]]"
proof -
  have "findAll groupNotC ''acb'' = [[2, 3, 2, 3]]" by code_simp
  then show ?thesis using FindAll_terminates [OF groupNotC_wf, of "''acb''" 4] by simp
qed

text \<open>C8. \<open>FindAll\<close> returns matches of the pattern in order, none starting before the last one's end and no
  two at one empty place, and every match of the pattern starts inside one of them.\<close>

lemma FindAll_spec:
  assumes "regexp_wf re" "\<And>a z. bnd s 0 a \<Longrightarrow> matches re s a z \<Longrightarrow> pre re s"
  shows "inOrder s 0 (FindAll re s)
    \<and> (\<forall>m \<in> set (FindAll re s). length m = 2 * length (names re)
         \<and> bnd s 0 (nat (m ! 0)) \<and> matches re s (nat (m ! 0)) (nat (m ! 1)))
    \<and> (\<forall>a z. bnd s 0 a \<and> matches re s a z \<longrightarrow>
         (\<exists>m \<in> set (FindAll re s). m ! 0 \<le> int a \<and> (int a = m ! 0 \<or> int a < m ! 1)))"
  using findAllFrom_spec [OF assms(1), of 0 s "length s + 2"] assms(2) by (auto simp: FindAll_def findAll_def)

lemma FindAll_spec_witness:
  "FindAll groupNotC ''acbb'' = [[2, 3, 2, 3], [3, 4, 3, 4]] \<and> matches groupNotC ''acbb'' 3 4"
proof -
  have f: "FindAll groupNotC ''acbb'' = [[2, 3, 2, 3], [3, 4, 3, 4]]" by code_simp
  then show ?thesis using FindAll_spec [OF groupNotC_wf groupNotC_pre, of "''acbb''"] by simp
qed

text \<open>C32. \<open>Replace\<close> puts the replacement for each match, where it stands, and leaves everything else: each gap runs from
  the end of the match before, or the start of the text, to the start of its own match; the text is the gaps
  with the matches after them and the rest, the result the gaps with the replacement and the same rest.\<close>

lemma Replace_spec:
  assumes "regexp_wf re"
  shows "s = concat (map2 (\<lambda>g m. drop g (take (nat (m ! 0)) s) @ drop (nat (m ! 0)) (take (nat (m ! 1)) s))
              (gapStarts 0 (FindAll re s)) (FindAll re s)) @ drop (last (gapStarts 0 (FindAll re s))) s
    \<and> Replace re s repl = concat (map2 (\<lambda>g m. drop g (take (nat (m ! 0)) s) @ repl)
              (gapStarts 0 (FindAll re s)) (FindAll re s)) @ drop (last (gapStarts 0 (FindAll re s))) s
    \<and> list_all2 (\<lambda>g m. int g \<le> m ! 0 \<and> m ! 0 \<le> m ! 1 \<and> m ! 1 \<le> int (length s))
         (butlast (gapStarts 0 (FindAll re s))) (FindAll re s)"
proof -
  have "Replace re s repl = splice s repl 0 (FindAll re s)"
    by (auto simp: Replace_def FindAll_def Let_def)
  moreover have "inOrder s 0 (FindAll re s)"
    using findAllFrom_spec [OF assms, of 0 s "length s + 2"] by (auto simp: FindAll_def findAll_def)
  ultimately show ?thesis using splice_inOrder [of s 0 "FindAll re s" repl] by simp
qed

lemma Replace_spec_witness:
  "Replace groupNotC ''acbd'' ''-'' = ''ac-d'' \<and> list_all2 (\<lambda>g m. int g \<le> m ! 0) (butlast (gapStarts 0 (FindAll groupNotC ''acbd''))) (FindAll groupNotC ''acbd'')"
proof -
  have "FindAll groupNotC ''acbd'' = [[2, 3, 2, 3]]" by code_simp
  then show ?thesis using Replace_spec [OF groupNotC_wf, of "''acbd''" "''-''"] by (simp add: gapStarts_def)
qed

text \<open>A lookahead's memo changes no answer: whatever positions are asked, in whatever order and however
  often, the table that starts cleared gives at each the answer of the run there.\<close>

lemma recalls_spec:
  assumes "list_all (\<lambda>p. p \<le> length s) ps"
  shows "recalls ask (replicate (length s + 1) 0) ps = map ask ps"
  by (rule recalls_ok) (use assms in \<open>simp_all add: memo_ok_def less_Suc_eq_le del: replicate.simps\<close>)

lemma recalls_spec_witness: "recalls (\<lambda>p. p = 1) (replicate 3 0) [1, 0, 1, 2, 0] = [True, False, True, False, False]"
  using recalls_spec [of "''ab''" "[1, 0, 1, 2, 0]" "\<lambda>p. p = 1"] by (simp add: numeral_3_eq_3)

end
