(* ===== verification/StatusAlerts.thy ===== *)
theory StatusAlerts
  imports Prelude "HOL-Library.AList" "HOL-Library.List_Lexorder"
begin

text \<open>
  internal/status, sources.go and alerts.go: the sources an alert is filed under, and alerts as levels. A Go
  map is an association list with one entry per key. SHA-256, Go's printable runes and the line cutting of
  the textsafe module are the argument \<open>alertEnv\<close>; the time is an argument of the operations that read it.
\<close>

type_synonym time = int
type_synonym AlertSource = string

record alertEnv =
  sha256 :: "string \<Rightarrow> string"
  printableLine :: "string \<Rightarrow> bool"
  cutText :: "string \<Rightarrow> string"

subsection \<open>Sources\<close>

definition MaxAlertSource :: nat where "MaxAlertSource = 512"

definition fixedKinds :: "AlertSource list" where
  "fixedKinds = [''config'', ''store'', ''job_records'', ''backup'', ''auth_disabled'', ''admin_socket'',
     ''restart_pending'', ''pending_writes'']"

definition AlertJobRecords :: AlertSource where "AlertJobRecords = ''job_records''"

definition entityKinds :: "string list" where
  "entityKinds = [''provider'', ''source'', ''source_overlap'', ''media_server'', ''media_root'']"

definition hexDigit :: "nat \<Rightarrow> char" where
  "hexDigit d = (if d < 10 then char_of (48 + d) else char_of (87 + d))"

definition hexEncode :: "string \<Rightarrow> string" where
  "hexEncode b = concat (map (\<lambda>c. [hexDigit (of_char c div 16), hexDigit (of_char c mod 16)]) b)"

definition entitySource :: "alertEnv \<Rightarrow> string \<Rightarrow> string \<Rightarrow> AlertSource" where
  "entitySource e kind v =
     (let s = kind @ '':'' @ v
      in if length s \<le> MaxAlertSource \<and> printableLine e v then s
         else kind @ ''#'' @ hexEncode (sha256 e v))"

definition ProviderAlert :: "alertEnv \<Rightarrow> string \<Rightarrow> AlertSource" where "ProviderAlert e i = entitySource e ''provider'' i"
definition SourceAlert :: "alertEnv \<Rightarrow> string \<Rightarrow> AlertSource" where "SourceAlert e i = entitySource e ''source'' i"
definition SourceOverlapAlert :: "alertEnv \<Rightarrow> string \<Rightarrow> AlertSource" where
  "SourceOverlapAlert e i = entitySource e ''source_overlap'' i"
definition MediaServerAlert :: "alertEnv \<Rightarrow> string \<Rightarrow> AlertSource" where
  "MediaServerAlert e i = entitySource e ''media_server'' i"
definition MediaRootAlert :: "alertEnv \<Rightarrow> string \<Rightarrow> AlertSource" where
  "MediaRootAlert e p = entitySource e ''media_root'' p"

definition isHexLower :: "char \<Rightarrow> bool" where
  "isHexLower c \<longleftrightarrow> (CHR ''0'' \<le> c \<and> c \<le> CHR ''9'') \<or> (CHR ''a'' \<le> c \<and> c \<le> CHR ''f'')"

definition isDigest :: "string \<Rightarrow> bool" where
  "isDigest h \<longleftrightarrow> length h = 2 * 32 \<and> list_all isHexLower h"

fun alertKindIn :: "alertEnv \<Rightarrow> AlertSource \<Rightarrow> string list \<Rightarrow> string option" where
  "alertKindIn e s [] = None"
| "alertKindIn e s (k # ks) =
     (if (case cut_prefix (k @ '':'') s of Some v \<Rightarrow> entitySource e k v = s | None \<Rightarrow> False) then Some k
      else if (case cut_prefix (k @ ''#'') s of Some h \<Rightarrow> isDigest h | None \<Rightarrow> False) then Some k
      else alertKindIn e s ks)"

definition AlertKind :: "alertEnv \<Rightarrow> AlertSource \<Rightarrow> string option" where
  "AlertKind e s = (if s \<in> set fixedKinds then Some s else alertKindIn e s entityKinds)"

subsection \<open>The alerts\<close>

record Alert =
  since :: time
  asource :: AlertSource
  atext :: string

record alertState =
  alerts :: "(AlertSource \<times> Alert) list"
  retained :: "(string \<times> AlertSource list) list"
  seqno :: nat

definition Reconcile :: "alertEnv \<Rightarrow> time \<Rightarrow> AlertSource \<Rightarrow> bool \<Rightarrow> string \<Rightarrow> 'a alertState_scheme \<Rightarrow> 'a alertState_scheme" where
  "Reconcile e now src active txt0 s =
     (case AlertKind e src of
        None \<Rightarrow> s
      | Some kind \<Rightarrow>
          (let cur = map_of (alerts s) src
           in if \<not> active then
                (if cur \<noteq> None then s\<lparr>alerts := AList.delete src (alerts s), seqno := seqno s + 1\<rparr> else s)
              else if (case map_of (retained s) kind of Some lv \<Rightarrow> src \<notin> set lv | None \<Rightarrow> False) then s
              else
                (let t = cutText e txt0
                 in if (case cur of Some a \<Rightarrow> atext a = t | None \<Rightarrow> False) then s
                    else s\<lparr>alerts := AList.update src
                             \<lparr>since = (case cur of Some a \<Rightarrow> since a | None \<Rightarrow> now), asource = src, atext = t\<rparr> (alerts s),
                           seqno := seqno s + 1\<rparr>)))"

definition RetainAlerts :: "alertEnv \<Rightarrow> string \<Rightarrow> AlertSource list \<Rightarrow> 'a alertState_scheme \<Rightarrow> 'a alertState_scheme" where
  "RetainAlerts e kind lv s =
     (if kind \<notin> set entityKinds then s
      else if \<not> list_all (\<lambda>src. AlertKind e src = Some kind) lv then s
      else
        (let gone = filter (\<lambda>src. AlertKind e src = Some kind \<and> src \<notin> set lv) (map fst (alerts s));
             s1 = s\<lparr>retained := AList.update kind lv (retained s),
                    alerts := AList.restrict (- set gone) (alerts s)\<rparr>
         in if gone = [] then s1 else s1\<lparr>seqno := seqno s + 1\<rparr>))"

subsection \<open>Kinds of sources\<close>

lemma hexDigit_hex: "d < 16 \<Longrightarrow> isHexLower (hexDigit d)"
proof -
  assume "d < 16"
  then have "d \<in> set [0..<16]" by simp
  moreover have "list_all (\<lambda>d. isHexLower (hexDigit d)) [0..<16]" by code_simp
  ultimately show ?thesis by (simp add: list_all_iff)
qed

lemma hexDigit_inj: "c < 16 \<Longrightarrow> d < 16 \<Longrightarrow> hexDigit c = hexDigit d \<Longrightarrow> c = d"
proof -
  assume "c < 16" "d < 16" and e: "hexDigit c = hexDigit d"
  moreover have "distinct (map hexDigit [0..<16])" by code_simp
  ultimately show "c = d" by (auto simp: distinct_map dest: inj_onD)
qed

lemma of_char_div: "(of_char c :: nat) div 16 < 16"
  by (rule less_mult_imp_div_less) simp

lemma mod16: "(m :: nat) mod 16 < 16"
  by simp

lemma hexEncode_Cons: "hexEncode (c # b) = hexDigit (of_char c div 16) # hexDigit (of_char c mod 16) # hexEncode b"
  by (simp add: hexEncode_def)

lemma hexEncode_hex: "list_all isHexLower (hexEncode b) \<and> length (hexEncode b) = 2 * length b"
proof (induction b)
  case (Cons c b)
  then show ?case using hexDigit_hex of_char_div by (simp add: hexEncode_Cons)
qed (simp add: hexEncode_def)

lemma hexEncode_inj: "hexEncode a = hexEncode b \<Longrightarrow> a = b"
proof (induction a arbitrary: b)
  case Nil
  then show ?case by (cases b) (simp_all add: hexEncode_def)
next
  case (Cons c a)
  then obtain d b' where b: "b = d # b'" by (cases b) (auto simp: hexEncode_def)
  with Cons.prems of_char_div have "(of_char c :: nat) div 16 = of_char d div 16" "(of_char c :: nat) mod 16 = of_char d mod 16"
    by (auto simp: b hexEncode_Cons dest: hexDigit_inj [OF of_char_div of_char_div] hexDigit_inj [OF mod16 mod16])
  then have "(of_char c :: nat) = of_char d" by (metis div_mult_mod_eq)
  then show ?case using Cons by (simp add: b hexEncode_Cons)
qed

text \<open>A source's kind is what comes before its first separator.\<close>

definition kindPart :: "string \<Rightarrow> string" where
  "kindPart s = takeWhile (\<lambda>c. c \<noteq> CHR '':'' \<and> c \<noteq> CHR ''#'') s"

lemma kindPart_append: "CHR '':'' \<notin> set k \<Longrightarrow> CHR ''#'' \<notin> set k \<Longrightarrow> c = CHR '':'' \<or> c = CHR ''#'' \<Longrightarrow>
  kindPart (k @ c # r) = k"
  unfolding kindPart_def by (induction k) auto

lemma entity_plain: "k \<in> set entityKinds \<Longrightarrow> CHR '':'' \<notin> set k \<and> CHR ''#'' \<notin> set k"
  by (auto simp: entityKinds_def)

lemma entitySource_cases:
  obtains "length (k @ '':'' @ v) \<le> MaxAlertSource" "printableLine e v" "entitySource e k v = k @ '':'' @ v"
  | "entitySource e k v = k @ ''#'' @ hexEncode (sha256 e v)"
  by (cases "length (k @ '':'' @ v) \<le> MaxAlertSource \<and> printableLine e v")
    (simp_all only: entitySource_def Let_def if_True if_False simp_thms)

lemma kindPart_entity: "k \<in> set entityKinds \<Longrightarrow> kindPart (entitySource e k v) = k"
  using entity_plain [of k] by (cases rule: entitySource_cases [of k v e]) (simp_all add: kindPart_append)

lemma kindPart_cut:
  "cut_prefix (k @ [c]) s = Some r \<Longrightarrow> k \<in> set entityKinds \<Longrightarrow> c = CHR '':'' \<or> c = CHR ''#'' \<Longrightarrow> kindPart s = k"
  using entity_plain [of k] by (auto simp: cut_prefix_Some kindPart_append)

lemma fixed_plain: "s \<in> set fixedKinds \<Longrightarrow> kindPart s = s \<and> s \<notin> set entityKinds"
  by (auto simp: fixedKinds_def entityKinds_def kindPart_def)

lemma alertKindIn_kind: "set ks \<subseteq> set entityKinds \<Longrightarrow> alertKindIn e s ks = Some k \<Longrightarrow> k \<in> set ks \<and> kindPart s = k"
proof (induction e s ks rule: alertKindIn.induct)
  case (2 e s k' ks)
  then show ?case using kindPart_cut [of k' "CHR '':''" s] kindPart_cut [of k' "CHR ''#''" s]
    by (auto split: if_splits option.splits)
qed simp

lemma AlertKind_kind: "AlertKind e s = Some k \<Longrightarrow> kindPart s = k"
  using fixed_plain alertKindIn_kind [OF subset_refl] by (auto simp: AlertKind_def split: if_splits)

lemma isDigest_hex: "length b = 32 \<Longrightarrow> isDigest (hexEncode b)"
  using hexEncode_hex [of b] by (simp add: isDigest_def)

lemma alertKindIn_entity:
  assumes "k \<in> set entityKinds" "length (sha256 e v) = 32" "set ks \<subseteq> set entityKinds" "k \<in> set ks"
  shows "alertKindIn e (entitySource e k v) ks = Some k"
  using assms(3,4)
proof (induction ks)
  case (Cons k' ks)
  let ?s = "entitySource e k v"
  show ?case
  proof (cases "k' = k")
    case True
    show ?thesis
    proof (cases rule: entitySource_cases [of k v e])
      case 1
      then show ?thesis using cut_prefix_append [of "k @ '':''" v] by (simp add: True)
    next
      case 2
      have "cut_prefix (k @ '':'') (k @ ''#'' @ hexEncode (sha256 e v)) = None" by (simp add: cut_prefix_None_iff)
      moreover have "cut_prefix (k @ ''#'') (k @ ''#'' @ hexEncode (sha256 e v)) = Some (hexEncode (sha256 e v))"
        by (simp add: cut_prefix_Some)
      ultimately show ?thesis using isDigest_hex [OF assms(2)] by (simp add: True 2)
    qed
  next
    case False
    then have "cut_prefix (k' @ [c]) ?s = None" if "c = CHR '':'' \<or> c = CHR ''#''" for c
      using kindPart_cut [of k' c ?s] kindPart_entity [OF assms(1), of e v] that Cons.prems(1)
      by (cases "cut_prefix (k' @ [c]) ?s") auto
    then show ?thesis using Cons False by simp
  qed
qed simp

lemma AlertKind_entity:
  "k \<in> set entityKinds \<Longrightarrow> length (sha256 e v) = 32 \<Longrightarrow> AlertKind e (entitySource e k v) = Some k"
  using fixed_plain [of "entitySource e k v"] kindPart_entity [of k e v] alertKindIn_entity [of k e v entityKinds]
  by (auto simp: AlertKind_def)

lemma entitySource_inj:
  assumes "k \<in> set entityKinds" "k' \<in> set entityKinds" "sha256 e v = sha256 e v' \<Longrightarrow> v = v'"
  shows "entitySource e k v = entitySource e k' v' \<longleftrightarrow> k = k' \<and> v = v'"
proof
  assume eq: "entitySource e k v = entitySource e k' v'"
  then have k: "k = k'" using kindPart_entity assms(1,2) by metis
  have "v = v'"
  proof (cases rule: entitySource_cases [of k v e]; cases rule: entitySource_cases [of k' v' e])
    assume "entitySource e k v = k @ ''#'' @ hexEncode (sha256 e v)" "entitySource e k' v' = k' @ ''#'' @ hexEncode (sha256 e v')"
    then show ?thesis using eq assms(3) hexEncode_inj [of "sha256 e v" "sha256 e v'"] by (simp add: k)
  qed (use eq in \<open>simp_all add: k\<close>)
  then show "k = k' \<and> v = v'" using k by simp
qed simp

subsection \<open>The levels\<close>

definition alert_inv :: "alertEnv \<Rightarrow> 'a alertState_scheme \<Rightarrow> bool" where
  "alert_inv e s \<longleftrightarrow> (\<forall>src a. map_of (alerts s) src = Some a \<longrightarrow> asource a = src
     \<and> AlertKind e src \<noteq> None \<and> (\<forall>k lv. AlertKind e src = Some k \<longrightarrow> map_of (retained s) k = Some lv \<longrightarrow> src \<in> set lv))"

lemma Reconcile_unknown: "AlertKind e src = None \<Longrightarrow> Reconcile e now src active t s = s"
  by (simp add: Reconcile_def)

text \<open>What an alert's slot holds after a report on its source.\<close>

definition level :: "alertEnv \<Rightarrow> time \<Rightarrow> AlertSource \<Rightarrow> string \<Rightarrow> bool \<Rightarrow> string \<Rightarrow> 'a alertState_scheme \<Rightarrow> Alert option" where
  "level e now src kind active t s =
     (let cur = map_of (alerts s) src
      in if \<not> active then None
         else if \<exists>lv. map_of (retained s) kind = Some lv \<and> src \<notin> set lv then cur
         else Some \<lparr>since = (case cur of Some a \<Rightarrow> since a | None \<Rightarrow> now), asource = src, atext = cutText e t\<rparr>)"

lemma Reconcile_alerts:
  assumes "alert_inv e s" "AlertKind e src = Some kind"
  shows "map_of (alerts (Reconcile e now src active t s)) = (map_of (alerts s))(src := level e now src kind active t s)"
    "retained (Reconcile e now src active t s) = retained s"
proof -
  show "retained (Reconcile e now src active t s) = retained s"
    by (auto simp: Reconcile_def Let_def split: option.split)
  show "map_of (alerts (Reconcile e now src active t s)) = (map_of (alerts s))(src := level e now src kind active t s)"
  proof (cases "map_of (alerts s) src")
    case None
    then show ?thesis using assms(2)
      by (auto simp: Reconcile_def level_def Let_def AList.update_conv' split: option.split)
  next
    case (Some a)
    have "asource a = src" using assms(1) Some by (simp add: alert_inv_def)
    then have "\<lparr>since = since a, asource = src, atext = atext a\<rparr> = a" by simp
    then show ?thesis using assms(2) Some
      by (auto simp: Reconcile_def level_def Let_def AList.update_conv' AList.delete_conv' split: option.split)
  qed
qed

lemma Reconcile_inv [preserved]:
  assumes "alert_inv e s" shows "alert_inv e (Reconcile e now src active t s)"
proof (cases "AlertKind e src")
  case None
  then show ?thesis using assms by (simp add: Reconcile_unknown)
next
  case (Some k)
  show ?thesis using assms Some
    unfolding alert_inv_def Reconcile_alerts [OF assms Some]
    by (auto simp: level_def Let_def split: if_splits)
qed

lemma RetainAlerts_fields:
  "\<not> kind \<notin> set entityKinds \<Longrightarrow> \<not> \<not> list_all (\<lambda>src. AlertKind e src = Some kind) lv \<Longrightarrow>
   alerts (RetainAlerts e kind lv s) =
     AList.restrict (- set (filter (\<lambda>src. AlertKind e src = Some kind \<and> src \<notin> set lv) (map fst (alerts s)))) (alerts s)
   \<and> retained (RetainAlerts e kind lv s) = AList.update kind lv (retained s)"
  unfolding RetainAlerts_def Let_def if_not_P by (intro conjI; rule trans [OF if_distrib]; simp del: set_filter set_map)

lemma RetainAlerts_alerts:
  assumes "kind \<in> set entityKinds" "list_all (\<lambda>src. AlertKind e src = Some kind) lv"
  shows "map_of (alerts (RetainAlerts e kind lv s)) src =
      (if AlertKind e src = Some kind \<and> src \<notin> set lv then None else map_of (alerts s) src)"
    "map_of (retained (RetainAlerts e kind lv s)) = (map_of (retained s))(kind \<mapsto> lv)"
proof -
  let ?gone = "filter (\<lambda>src. AlertKind e src = Some kind \<and> src \<notin> set lv) (map fst (alerts s))"
  note f = RetainAlerts_fields [of kind e lv s, unfolded not_not, OF assms]
  note r = conjunct1 [OF f] conjunct2 [OF f]
  show "map_of (retained (RetainAlerts e kind lv s)) = (map_of (retained s))(kind \<mapsto> lv)"
    by (simp add: r AList.update_conv')
  have "map_of (AList.restrict (- set ?gone) (alerts s)) src = (if src \<in> set ?gone then None else map_of (alerts s) src)"
    unfolding AList.restr_conv' restrict_map_def by simp
  moreover have "map_of (alerts s) src = None \<longleftrightarrow> src \<notin> fst ` set (alerts s)" by (rule map_of_eq_None_iff)
  ultimately show "map_of (alerts (RetainAlerts e kind lv s)) src =
      (if AlertKind e src = Some kind \<and> src \<notin> set lv then None else map_of (alerts s) src)"
    unfolding r by simp
qed

lemma RetainAlerts_refused:
  "\<not> (kind \<in> set entityKinds \<and> list_all (\<lambda>src. AlertKind e src = Some kind) lv) \<Longrightarrow> RetainAlerts e kind lv s = s"
  by (simp add: RetainAlerts_def)

lemma RetainAlerts_inv [preserved]:
  assumes "alert_inv e s" shows "alert_inv e (RetainAlerts e kind lv s)"
proof (cases "kind \<in> set entityKinds \<and> list_all (\<lambda>src. AlertKind e src = Some kind) lv")
  case True
  note r = RetainAlerts_alerts [OF conjunct1 [OF True] conjunct2 [OF True]]
  show ?thesis using assms unfolding alert_inv_def r by (auto split: if_splits)
next
  case False
  then show ?thesis using assms RetainAlerts_refused by metis
qed

datatype alertOp = ReconcileOp time AlertSource bool string | RetainOp string "AlertSource list"

fun alertStep :: "alertEnv \<Rightarrow> alertOp \<Rightarrow> alertState \<Rightarrow> alertState" where
  "alertStep e (ReconcileOp now src active t) s = Reconcile e now src active t s"
| "alertStep e (RetainOp kind lv) s = RetainAlerts e kind lv s"

definition noAlerts :: alertState where "noAlerts = \<lparr>alerts = [], retained = [], seqno = 0\<rparr>"

lemma alerts_reached: "alert_inv e (fold (alertStep e) ops noAlerts)"
proof -
  have "alert_inv e s \<Longrightarrow> alert_inv e (fold (alertStep e) ops s)" for s
  proof (induction ops arbitrary: s)
    case (Cons x ops)
    have "alert_inv e (alertStep e x s)" using Cons.prems Reconcile_inv RetainAlerts_inv by (cases x) simp_all
    from Cons.IH [OF this] show ?case by simp
  qed simp
  moreover have "alert_inv e noAlerts" by (simp add: alert_inv_def noAlerts_def)
  ultimately show ?thesis by blast
qed

subsection \<open>Properties\<close>

text \<open>The alert sources are a naming: under a digest of 32 bytes without collisions, the source of an entity
  determines its kind and its value, whether the value is readable or hashed, and \<open>AlertKind\<close>
  reads the kind back.\<close>

theorem alert_sources:
  assumes "k \<in> set entityKinds" "k' \<in> set entityKinds" "length (sha256 e v) = 32"
    and "sha256 e v = sha256 e v' \<Longrightarrow> v = v'"
  shows "(entitySource e k v = entitySource e k' v' \<longleftrightarrow> k = k' \<and> v = v') \<and> AlertKind e (entitySource e k v) = Some k"
  using entitySource_inj [OF assms(1,2)] AlertKind_entity [OF assms(1,3)] assms(4) by simp

definition demoEnv :: alertEnv where
  "demoEnv = \<lparr>sha256 = (\<lambda>v. take 32 (v @ replicate 32 (CHR ''0''))), printableLine = (\<lambda>v. CHR 0x0A \<notin> set v), cutText = (\<lambda>t. t)\<rparr>"

theorem alert_sources_witness:
  "entitySource demoEnv ''source'' ''a'' \<noteq> entitySource demoEnv ''provider'' [CHR 0x0A]
    \<and> AlertKind demoEnv (entitySource demoEnv ''provider'' [CHR 0x0A]) = Some ''provider''"
  using alert_sources [of "''provider''" "''source''" demoEnv "[CHR 0x0A]" "''a''"]
  by (simp add: entityKinds_def demoEnv_def) fastforce

text \<open>What the reports and retentions of one source, newest first, make of it: \<open>admits\<close> whether its kind's last valid
  retention, if any, lets it be raised, and \<open>standing\<close> the alert it has.\<close>

definition validRetain :: "alertEnv \<Rightarrow> string \<Rightarrow> AlertSource list \<Rightarrow> bool" where
  "validRetain e kind lv \<longleftrightarrow> kind \<in> set entityKinds \<and> list_all (\<lambda>src. AlertKind e src = Some kind) lv"

fun admits :: "alertEnv \<Rightarrow> string \<Rightarrow> AlertSource \<Rightarrow> alertOp list \<Rightarrow> bool" where
  "admits e kind src [] = True"
| "admits e kind src (ReconcileOp now s active t # older) = admits e kind src older"
| "admits e kind src (RetainOp k lv # older) = (if k = kind \<and> validRetain e k lv then src \<in> set lv else admits e kind src older)"

fun standing :: "alertEnv \<Rightarrow> string \<Rightarrow> AlertSource \<Rightarrow> alertOp list \<Rightarrow> Alert option" where
  "standing e kind src [] = None"
| "standing e kind src (ReconcileOp now s active t # older) =
     (if s \<noteq> src then standing e kind src older
      else if \<not> active \<or> \<not> admits e kind src older then None
      else Some \<lparr>since = (case standing e kind src older of Some a \<Rightarrow> since a | None \<Rightarrow> now), asource = src, atext = cutText e t\<rparr>)"
| "standing e kind src (RetainOp k lv # older) =
     (if k = kind \<and> validRetain e k lv \<and> src \<notin> set lv then None else standing e kind src older)"

lemma RetainAlerts_valid:
  assumes "validRetain e k lv"
  shows "map_of (retained (RetainAlerts e k lv s)) = (map_of (retained s))(k \<mapsto> lv)"
    "map_of (alerts (RetainAlerts e k lv s)) src = (if AlertKind e src = Some k \<and> src \<notin> set lv then None else map_of (alerts s) src)"
  using assms unfolding validRetain_def by (simp_all only: RetainAlerts_alerts)

lemma RetainAlerts_invalid: "\<not> validRetain e k lv \<Longrightarrow> RetainAlerts e k lv s = s"
  unfolding validRetain_def by (rule RetainAlerts_refused)

lemma retained_reached:
  "admits e kind src (rev ops) \<longleftrightarrow> \<not> (\<exists>lv. map_of (retained (fold (alertStep e) ops noAlerts)) kind = Some lv \<and> src \<notin> set lv)"
proof (induction ops rule: rev_induct)
  case Nil
  show ?case by (simp add: noAlerts_def)
next
  case (snoc x ops)
  let ?s = "fold (alertStep e) ops noAlerts"
  show ?case
  proof (cases x)
    case (ReconcileOp now s active t)
    have "retained (Reconcile e now s active t ?s) = retained ?s" by (auto simp: Reconcile_def Let_def split: option.split)
    then show ?thesis using snoc by (simp add: ReconcileOp)
  next
    case (RetainOp k lv)
    then show ?thesis using snoc RetainAlerts_valid(1) [of e k lv ?s] RetainAlerts_invalid [of e k lv ?s]
      by (cases "validRetain e k lv") simp_all
  qed
qed

lemma standing_reached:
  "AlertKind e src = Some kind \<Longrightarrow> map_of (alerts (fold (alertStep e) ops noAlerts)) src = standing e kind src (rev ops)"
proof (induction ops rule: rev_induct)
  case Nil
  show ?case by (simp add: noAlerts_def)
next
  case (snoc x ops)
  let ?s = "fold (alertStep e) ops noAlerts"
  note i = alerts_reached [of e ops]
  show ?case
  proof (cases x)
    case (ReconcileOp now s active t)
    show ?thesis
    proof (cases "AlertKind e s")
      case None
      then show ?thesis using snoc by (auto simp: ReconcileOp Reconcile_unknown)
    next
      case (Some k)
      have out: "standing e kind src (rev ops) = None" if "\<exists>lv. map_of (retained ?s) kind = Some lv \<and> src \<notin> set lv"
      proof (cases "map_of (alerts ?s) src")
        case None
        then show ?thesis using snoc by simp
      next
        case (Some a)
        then show ?thesis using i that snoc.prems unfolding alert_inv_def by blast
      qed
      show ?thesis using snoc out Reconcile_alerts(1) [OF i Some, of now active t] Some
        by (auto simp: ReconcileOp level_def Let_def retained_reached)
    qed
  next
    case (RetainOp k lv)
    then show ?thesis using snoc RetainAlerts_valid(2) [of e k lv ?s src] RetainAlerts_invalid [of e k lv ?s]
      by (cases "validRetain e k lv") auto
  qed
qed

text \<open>C34. Alerts are levels. After any sequence of reports and retentions a source's alert is what its own history makes of
  it, \<open>standing\<close>: the text of its last report if that was active and admitted, since the first of the unbroken
  reports, and nothing after an inactive report or a retention of its kind without it; other sources'
  reports and other kinds' retentions, refused calls included, change nothing of it. A source no constructor
  yields never has one.\<close>

theorem alerts_levels:
  "map_of (alerts (fold (alertStep e) ops noAlerts)) src =
     (case AlertKind e src of None \<Rightarrow> None | Some kind \<Rightarrow> standing e kind src (rev ops))"
proof (cases "AlertKind e src")
  case None
  then show ?thesis using alerts_reached [of e ops] unfolding alert_inv_def
    by (cases "map_of (alerts (fold (alertStep e) ops noAlerts)) src") auto
next
  case (Some kind)
  then show ?thesis using standing_reached [OF Some] by simp
qed

theorem alerts_levels_witness:
  "map_of (alerts (fold (alertStep demoEnv)
      [ReconcileOp 3 ''store'' True ''slow'', RetainOp ''provider'' [], ReconcileOp 7 ''store'' True ''full''] noAlerts)) ''store''
     = Some \<lparr>since = 3, asource = ''store'', atext = ''full''\<rparr>"
  unfolding alerts_levels by (simp add: AlertKind_def fixedKinds_def demoEnv_def)

end
