(* ===== verification/StatusStore.thy ===== *)
theory StatusStore
  imports StatusAlerts Names "HOL-Library.Word" "HOL-Library.Product_Lexorder"
begin

text \<open>
  internal/status, jobs.go, retention.go, persist.go and snapshot.go: the store of jobs. A job is live from
  \<open>Begin\<close> until retention evicts it after its end; its terminal record is stored by attempts, each of
  which holds the lock twice with the write between (\<open>persistTake\<close>, the persister's \<open>putJob\<close>,
  \<open>persistDone\<close>). The persister's operations are the argument \<open>ops\<close>; the theory JobTable has
  the ones of statedb. Times are nanoseconds, a stop handle is whether there is one, and the generation
  channel that wakes observers is the sequence number it announces.
\<close>

type_synonym JobID = string

record JobKey =
  kKey :: string
  kFingerprint :: string

record Job =
  jStarted :: time
  jEnded :: time
  jKey :: "JobKey option"
  jID :: JobID
  jScope :: string
  jPhase :: string
  jCause :: string
  jOwner :: int
  jDone :: int
  jTotal :: int
  jRev :: nat
  jKind :: byte
  jState :: byte
  jOutcome :: byte
  jCancellable :: bool

definition Scan :: byte where "Scan = 1"
definition Backup :: byte where "Backup = 6"
definition Queued :: byte where "Queued = 1"
definition Running :: byte where "Running = 2"
definition Done :: byte where "Done = 3"
definition NoOutcome :: byte where "NoOutcome = 0"
definition Failed :: byte where "Failed = 2"
definition Interrupted :: byte where "Interrupted = 5"

definition validKind :: "byte \<Rightarrow> bool" where "validKind k \<longleftrightarrow> Scan \<le> k \<and> k \<le> Backup"
definition validState :: "byte \<Rightarrow> bool" where "validState st \<longleftrightarrow> Queued \<le> st \<and> st \<le> Done"

text \<open>Go's zero time, as nanoseconds since 1970.\<close>

definition zeroTime :: time where "zeroTime = - 62135596800000000000"

definition SystemOwner :: int where "SystemOwner = 0"
definition BypassOwner :: int where "BypassOwner = - 1"

definition OwnerOf :: "int \<Rightarrow> bool \<Rightarrow> int" where
  "OwnerOf userID bypass = (if bypass then BypassOwner else userID)"

subsection \<open>Texts\<close>

definition jobKindNames :: "string list" where
  "jobKindNames = ['''', ''scan'', ''import'', ''item_scan'', ''download'', ''sync'', ''backup'']"
definition stateNames :: "string list" where "stateNames = ['''', ''queued'', ''running'', ''done'']"
definition outcomeNames :: "string list" where
  "outcomeNames = [''none'', ''succeeded'', ''failed'', ''cancelled'', ''partial'', ''interrupted'']"
definition healthNames :: "string list" where "healthNames = ['''', ''ok'', ''degraded'', ''disabled'']"

lemmas status_names = jobKindNames_def stateNames_def outcomeNames_def healthNames_def

interpretation job_kind_text: name_table jobKindNames by unfold_locales (simp add: status_names)
interpretation state_text: name_table stateNames by unfold_locales (simp add: status_names)
interpretation outcome_text: name_table outcomeNames by unfold_locales (simp add: status_names)
interpretation health_text: name_table healthNames by unfold_locales (simp add: status_names)

definition nameOf :: "string list \<Rightarrow> nat \<Rightarrow> string \<Rightarrow> string" where
  "nameOf names v what =
     (case marshalName names v of Some t \<Rightarrow> t | None \<Rightarrow> what @ ''('' @ dec v @ '')'')"

definition validJobID :: "string \<Rightarrow> bool" where
  "validJobID s \<longleftrightarrow> length s = 32 \<and> list_all isHexLower s"

definition JobIDMarshalText :: "JobID \<Rightarrow> string option" where
  "JobIDMarshalText i = (if \<not> validJobID i then None else Some i)"

definition JobIDUnmarshalText :: "JobID \<Rightarrow> string \<Rightarrow> JobID \<times> bool" where
  "JobIDUnmarshalText i b = (if \<not> validJobID b then (i, False) else (b, True))"

text \<open>\<open>newJobID\<close> for the 16 random bytes read.\<close>

definition newJobID :: "string \<Rightarrow> JobID" where
  "newJobID rnd16 = hexEncode rnd16"

subsection \<open>The store\<close>

record liveJob =
  hasStop :: bool
  job :: Job
  durable :: bool
  saving :: bool
  attempts :: nat

record ProviderState =
  pUntil :: time
  pID :: string
  pReason :: string
  pHealth :: byte

record Store = alertState +
  live :: "(JobID \<times> liveJob) list"
  unsaved :: "JobID set"
  retryWake :: bool
  providers :: "(string \<times> ProviderState) list"

definition newStore :: Store where
  "newStore = \<lparr>alerts = [], retained = [], seqno = 0, live = [], unsaved = {}, retryWake = False, providers = []\<rparr>"

definition bump :: "Store \<Rightarrow> Store" where
  "bump s = s\<lparr>seqno := seqno s + 1\<rparr>"

record JobLimits =
  perOwner :: nat
  total :: nat

definition DefaultLimits :: JobLimits where
  "DefaultLimits = \<lparr>perOwner = 1000, total = 10000\<rparr>"

datatype job_error = ErrJobUnrecorded | ErrKeyReused | ErrJobCapacity | ErrNotCancellable | ErrUnknownJob | ErrOther

text \<open>The \<^verbatim>\<open>Persister\<close> interface.\<close>

record 'p persister =
  insertJob :: "'p \<Rightarrow> Job \<Rightarrow> JobLimits \<Rightarrow> 'p \<times> (job_error + Job \<times> bool)"
  putJob :: "'p \<Rightarrow> Job \<Rightarrow> 'p \<times> bool"
  getJob :: "'p \<Rightarrow> JobID \<Rightarrow> Job option"
  keyedJob :: "'p \<Rightarrow> int \<Rightarrow> string \<Rightarrow> job_error + Job option"
  unfinished :: "'p \<Rightarrow> Job list option"
  deleteEnded :: "'p \<Rightarrow> time \<Rightarrow> 'p"

subsection \<open>Retention\<close>

definition liveMaxDone :: nat where "liveMaxDone = 50"
definition liveMaxAge :: time where "liveMaxAge = 15 * 60 * 1000000000"

fun evictLoop :: "time \<Rightarrow> liveJob list \<Rightarrow> JobID list" where
  "evictLoop now [] = []"
| "evictLoop now (l # ls) =
     (if length (l # ls) \<le> liveMaxDone \<and> now - jEnded (job l) < liveMaxAge then []
      else jID (job l) # evictLoop now ls)"

definition evictLocked :: "time \<Rightarrow> Store \<Rightarrow> Store \<times> bool" where
  "evictLocked now s =
     (let ended = sort_key (\<lambda>l. (jEnded (job l), jID (job l)))
                    (filter (\<lambda>l. jState (job l) = Done \<and> durable l) (map snd (live s)));
          gone = evictLoop now ended
      in (s\<lparr>live := fold AList.delete gone (live s)\<rparr>, gone \<noteq> []))"

definition evictExpired :: "time \<Rightarrow> Store \<Rightarrow> Store" where
  "evictExpired now s = (case evictLocked now s of (s1, dropped) \<Rightarrow> if dropped then bump s1 else s1)"

subsection \<open>Jobs\<close>

definition newJob :: "time \<Rightarrow> JobID \<Rightarrow> bool \<Rightarrow> Job \<Rightarrow> Job" where
  "newJob now i stop j =
     j\<lparr>jID := i, jRev := 1, jState := Queued, jOutcome := NoOutcome, jDone := 0, jPhase := '''', jCause := '''',
       jStarted := now, jEnded := zeroTime, jCancellable := stop\<rparr>"

definition beginRefused :: "Job \<Rightarrow> bool" where
  "beginRefused j \<longleftrightarrow> \<not> validKind (jKind j) \<or>
     (case jKey j of Some k \<Rightarrow> jOwner j = SystemOwner \<or> kKey k = '''' | None \<Rightarrow> False)"

definition goLive :: "bool \<Rightarrow> Job \<Rightarrow> Store \<Rightarrow> Store" where
  "goLive stop j s =
     bump (s\<lparr>live := AList.update (jID j)
        \<lparr>hasStop = stop, job = j, durable = True, saving = False, attempts = 0\<rparr> (live s)\<rparr>)"

definition Begin ::
  "'p persister \<Rightarrow> time \<Rightarrow> JobID \<Rightarrow> bool \<Rightarrow> Job \<Rightarrow> 'p \<Rightarrow> Store \<Rightarrow> 'p \<times> Store \<times> (job_error + Job \<times> bool)" where
  "Begin ops now i stop j p s =
     (if beginRefused j then (p, s, Inl ErrJobUnrecorded)
      else
        let j1 = newJob now i stop j
        in case insertJob ops p j1 DefaultLimits of
             (p1, Inl err) \<Rightarrow> (p1, s, Inl (if err = ErrKeyReused \<or> err = ErrJobCapacity then err else ErrJobUnrecorded))
           | (p1, Inr (stored, replay)) \<Rightarrow>
               if replay then
                 (p1, s, Inr (case map_of (live s) (jID stored) of Some l \<Rightarrow> (job l, True) | None \<Rightarrow> (stored, True)))
               else (p1, goLive stop j1 s, Inr (j1, False)))"

definition Keyed :: "'p persister \<Rightarrow> int \<Rightarrow> JobKey \<Rightarrow> 'p \<Rightarrow> Store \<Rightarrow> job_error + Job option" where
  "Keyed ops owner k p s =
     (case keyedJob ops p owner (kKey k) of Inl _ \<Rightarrow> Inl ErrJobUnrecorded
      | Inr None \<Rightarrow> Inr None
      | Inr (Some j) \<Rightarrow>
          if (case jKey j of None \<Rightarrow> True | Some k' \<Rightarrow> kFingerprint k' \<noteq> kFingerprint k) then Inl ErrKeyReused
          else case map_of (live s) (jID j) of Some l \<Rightarrow> Inr (Some (job l)) | None \<Rightarrow> Inr (Some j))"

definition Get :: "'p persister \<Rightarrow> JobID \<Rightarrow> 'p \<Rightarrow> Store \<Rightarrow> Job option" where
  "Get ops i p s = (case map_of (live s) i of Some l \<Rightarrow> Some (job l) | None \<Rightarrow> getJob ops p i)"

text \<open>\<open>Update\<close> up to its call of \<open>persist\<close>; the second component is whether it makes it.\<close>

definition Update :: "time \<Rightarrow> JobID \<Rightarrow> (Job \<Rightarrow> Job) \<Rightarrow> Store \<Rightarrow> Store \<times> bool" where
  "Update now i f s =
     (case map_of (live s) i of None \<Rightarrow> (s, False)
      | Some l \<Rightarrow>
          if jState (job l) = Done then (s, False)
          else
            let prev = job l;
                n1 = (f prev)\<lparr>jID := jID prev, jKind := jKind prev, jScope := jScope prev, jOwner := jOwner prev,
                              jKey := jKey prev, jStarted := jStarted prev, jRev := jRev prev + 1\<rparr>;
                n2 = (if \<not> validState (jState n1) then n1\<lparr>jState := jState prev\<rparr> else n1);
                terminal = (jState n2 = Done);
                n3 = (if terminal
                      then n2\<lparr>jOutcome := (if jOutcome n2 = NoOutcome \<or> Interrupted < jOutcome n2 then Failed else jOutcome n2),
                              jEnded := now\<rparr>
                      else n2\<lparr>jOutcome := NoOutcome, jEnded := zeroTime\<rparr>);
                l1 = (if terminal then l\<lparr>hasStop := False, durable := False, attempts := 0\<rparr> else l);
                n4 = n3\<lparr>jCancellable := (hasStop l1 \<and> \<not> terminal)\<rparr>
            in (bump (s\<lparr>live := AList.update i (l1\<lparr>job := n4\<rparr>) (live s),
                        unsaved := (if terminal then insert i (unsaved s) else unsaved s)\<rparr>), terminal))"

text \<open>\<open>Cancel\<close>: \<open>Inr ()\<close> is a call of the stop handle.\<close>

definition Cancel :: "JobID \<Rightarrow> Store \<Rightarrow> job_error + unit" where
  "Cancel i s =
     (case map_of (live s) i of None \<Rightarrow> Inl ErrUnknownJob
      | Some l \<Rightarrow> if \<not> jCancellable (job l) \<or> \<not> hasStop l then Inl ErrNotCancellable else Inr ())"

definition liveJobs :: "Store \<Rightarrow> Job list" where
  "liveJobs s = sort_key (\<lambda>j. (- jStarted j, jID j)) (map (\<lambda>(i, l). job l) (live s))"

subsection \<open>Storing the end of a job\<close>

definition setLive :: "JobID \<Rightarrow> liveJob \<Rightarrow> Store \<Rightarrow> Store" where
  "setLive i l s = s\<lparr>live := AList.update i l (live s)\<rparr>"

definition persistTake :: "JobID \<Rightarrow> Store \<Rightarrow> Store \<times> Job option" where
  "persistTake i s =
     (case map_of (live s) i of None \<Rightarrow> (s, None)
      | Some l \<Rightarrow>
          if durable l \<or> saving l then (s, None)
          else
            let j = (if 0 < attempts l then (job l)\<lparr>jRev := jRev (job l) + 1\<rparr> else job l);
                s1 = (if 0 < attempts l then bump s else s)
            in (setLive i (l\<lparr>job := j, attempts := attempts l + 1, saving := True\<rparr>) s1, Some j))"

definition unstoredText :: string where
  "unstoredText = ''finished jobs are not yet stored''"

text \<open>After the write the store is locked once to settle the attempt; the alert is reported after the lock
  is released, so other calls come between.\<close>

definition persistSettle :: "time \<Rightarrow> JobID \<Rightarrow> bool \<Rightarrow> Store \<Rightarrow> Store \<times> bool option" where
  "persistSettle now i ok s =
     (case map_of (live s) i of None \<Rightarrow> (s, None)
      | Some l \<Rightarrow>
          if \<not> ok then (setLive i (l\<lparr>saving := False\<rparr>) s, Some True)
          else
            let s1 = (setLive i (l\<lparr>saving := False, durable := True\<rparr>) s)\<lparr>unsaved := unsaved s - {i}\<rparr>
            in (evictExpired now s1, if unsaved s1 = {} then Some False else None))"

definition persistReport :: "alertEnv \<Rightarrow> time \<Rightarrow> bool option \<Rightarrow> Store \<Rightarrow> Store" where
  "persistReport e now r s =
     (case r of None \<Rightarrow> s
      | Some True \<Rightarrow> (Reconcile e now AlertJobRecords True unstoredText s)\<lparr>retryWake := True\<rparr>
      | Some False \<Rightarrow> Reconcile e now AlertJobRecords False '''' s)"

definition persistDone :: "alertEnv \<Rightarrow> time \<Rightarrow> JobID \<Rightarrow> bool \<Rightarrow> Store \<Rightarrow> Store" where
  "persistDone e now i ok s = (case persistSettle now i ok s of (s1, r) \<Rightarrow> persistReport e now r s1)"

definition persist :: "'p persister \<Rightarrow> alertEnv \<Rightarrow> time \<Rightarrow> JobID \<Rightarrow> 'p \<times> Store \<Rightarrow> 'p \<times> Store" where
  "persist ops e now i ps =
     (case persistTake i (snd ps) of
        (s1, None) \<Rightarrow> (fst ps, s1)
      | (s1, Some j) \<Rightarrow> (case putJob ops (fst ps) j of (p1, ok) \<Rightarrow> (p1, persistDone e now i ok s1)))"

text \<open>\<open>saveUnsaved\<close>, in the order the map's iteration gives; whether none is left.\<close>

definition saveUnsaved :: "'p persister \<Rightarrow> alertEnv \<Rightarrow> time \<Rightarrow> JobID list \<Rightarrow> 'p \<times> Store \<Rightarrow> ('p \<times> Store) \<times> bool" where
  "saveUnsaved ops e now ids ps = (let ps1 = fold (persist ops e now) ids ps in (ps1, unsaved (snd ps1) = {}))"

subsection \<open>Opening and the background loop\<close>

definition interrupt :: "time \<Rightarrow> Job \<Rightarrow> Job" where
  "interrupt now j = j\<lparr>jState := Done, jOutcome := Interrupted, jCancellable := False, jEnded := now, jRev := jRev j + 1\<rparr>"

fun interruptAll :: "'p persister \<Rightarrow> time \<Rightarrow> Job list \<Rightarrow> 'p \<Rightarrow> Store \<Rightarrow> 'p \<times> Store option" where
  "interruptAll ops now [] p s = (p, Some s)"
| "interruptAll ops now (j # js) p s =
     (case putJob ops p (interrupt now j) of
        (p1, False) \<Rightarrow> (p1, None)
      | (p1, True) \<Rightarrow> interruptAll ops now js p1
          (setLive (jID j) \<lparr>hasStop = False, job = interrupt now j, durable = True, saving = False, attempts = 0\<rparr> s))"

definition New :: "'p persister \<Rightarrow> time \<Rightarrow> 'p \<Rightarrow> 'p \<times> Store option" where
  "New ops now p =
     (case unfinished ops p of None \<Rightarrow> (p, None)
      | Some recs \<Rightarrow> (case interruptAll ops now recs p newStore of
          (p1, None) \<Rightarrow> (p1, None) | (p1, Some s) \<Rightarrow> (p1, Some (fst (evictLocked now s)))))"

definition retryMin :: time where "retryMin = 1000000000"
definition retryMax :: time where "retryMax = 60000000000"
definition recordMaxAge :: time where "recordMaxAge = 24 * 3600 * 1000000000"

record runner =
  backoff :: time
  armed :: bool

datatype wake = CtxDone "JobID list" | RetryWoken | RetryDue "JobID list" | SweepDue | ExpireDue

definition sweepRecords :: "'p persister \<Rightarrow> time \<Rightarrow> 'p \<Rightarrow> 'p" where
  "sweepRecords ops now p = deleteEnded ops p (now - recordMaxAge)"

text \<open>One turn of \<open>Run\<close>'s loop: the retry timer is armed while a record is unstored, then one case runs.\<close>

definition runStart :: "'p persister \<Rightarrow> time \<Rightarrow> 'p \<Rightarrow> runner \<times> 'p" where
  "runStart ops now p = (\<lparr>backoff = retryMin, armed = False\<rparr>, sweepRecords ops now p)"

definition arm :: "Store \<Rightarrow> runner \<Rightarrow> runner" where
  "arm s r = (if \<not> armed r \<and> unsaved s \<noteq> {} then r\<lparr>armed := True\<rparr> else r)"

definition runTurn ::
  "'p persister \<Rightarrow> alertEnv \<Rightarrow> time \<Rightarrow> wake \<Rightarrow> runner \<Rightarrow> 'p \<times> Store \<Rightarrow> runner \<times> ('p \<times> Store)" where
  "runTurn ops e now w r ps =
     (let r1 = arm (snd ps) r
      in case w of
           CtxDone ids \<Rightarrow> (r1, fst (saveUnsaved ops e now ids ps))
         | RetryWoken \<Rightarrow> (r1, (fst ps, (snd ps)\<lparr>retryWake := False\<rparr>))
         | RetryDue ids \<Rightarrow>
             (case saveUnsaved ops e now ids ps of (ps1, none) \<Rightarrow>
                (\<lparr>backoff = (if none then retryMin else min (2 * backoff r1) retryMax), armed = False\<rparr>, ps1))
         | SweepDue \<Rightarrow> (r1, (sweepRecords ops now (fst ps), snd ps))
         | ExpireDue \<Rightarrow> (r1, (fst ps, evictExpired now (snd ps))))"

subsection \<open>Providers and snapshots\<close>

definition SetProvider :: "alertEnv \<Rightarrow> ProviderState \<Rightarrow> Store \<Rightarrow> Store" where
  "SetProvider e pr s =
     (let pr1 = pr\<lparr>pReason := cutText e (pReason pr)\<rparr>
      in if (case map_of (providers s) (pID pr) of
               Some cur \<Rightarrow> pHealth cur = pHealth pr1 \<and> pReason cur = pReason pr1 \<and> pUntil cur = pUntil pr1 | None \<Rightarrow> False)
         then s
         else bump (s\<lparr>providers := AList.update (pID pr1) pr1 (providers s)\<rparr>))"

record Snap =
  snapJobs :: "Job list"
  snapAlerts :: "Alert list"
  snapProviders :: "ProviderState list"

definition Snapshot :: "Store \<Rightarrow> Snap \<times> nat" where
  "Snapshot s = (\<lparr>snapJobs = liveJobs s, snapAlerts = sort_key asource (map snd (alerts s)),
     snapProviders = sort_key pID (map snd (providers s))\<rparr>, seqno s)"

end
