(* ===== verification/StateKeys.thy ===== *)
theory StateKeys
  imports MediaKey Texts TimingCodec "HOL-Library.List_Lexorder"
begin

text \<open>
  internal/statedb, keys.go and codecs.go: the bytes the store keys its tables by. A key is a sequence of
  components, each of a fixed width or with its length before it. \<^verbatim>\<open>keyReader\<close>, whose first failure
  sticks, is a reader returning None. A language tag is its canonical text; \<^verbatim>\<open>language.Parse\<close>
  followed by \<^verbatim>\<open>String\<close> is the argument \<open>canon\<close>.
\<close>

unbundle bit_operations_syntax

type_synonym 'a keyReader = "bytes \<Rightarrow> ('a \<times> bytes) option"

definition read_then :: "'a keyReader \<Rightarrow> ('a \<Rightarrow> 'b keyReader) \<Rightarrow> 'b keyReader" where
  "read_then m f b = (case m b of None \<Rightarrow> None | Some (v, b') \<Rightarrow> f v b')"

subsection \<open>Writing components\<close>

definition signFlip :: "64 word" where "signFlip = push_bit 63 1"

definition appendUint64 :: "bytes \<Rightarrow> 64 word \<Rightarrow> bytes" where
  "appendUint64 dst v = dst @ be 8 (unat v)"

definition ownerBytes :: "int \<Rightarrow> bytes" where
  "ownerBytes owner = appendUint64 [] (word_of_int owner XOR signFlip)"

definition appendTime :: "bytes \<Rightarrow> int \<Rightarrow> bytes" where
  "appendTime dst t = appendUint64 dst (word_of_int t XOR signFlip)"

definition appendText :: "bytes \<Rightarrow> string \<Rightarrow> bytes" where
  "appendText dst s = dst @ appendUvarint (length s) @ toBytes s"

definition appendTag :: "bytes \<Rightarrow> string \<Rightarrow> bytes" where
  "appendTag dst t = appendText dst t"

record NativeRef =
  refKind :: Kind
  refID :: string

definition appendNativeRef :: "bytes \<Rightarrow> NativeRef \<Rightarrow> bytes" where
  "appendNativeRef dst r = appendText (dst @ [refKind r]) (refID r)"

record Flags =
  fHI :: bool
  fForced :: bool

definition flagsByte :: "Flags \<Rightarrow> byte" where
  "flagsByte f = (if fHI f then 1 else 0) OR (if fForced f then 2 else 0)"

definition flagsOf :: "byte \<Rightarrow> Flags" where
  "flagsOf b = \<lparr>fHI = (b AND 1 \<noteq> 0), fForced = (b AND 2 \<noteq> 0)\<rparr>"

definition appendFlags :: "bytes \<Rightarrow> Flags \<Rightarrow> bytes" where
  "appendFlags dst f = dst @ [flagsByte f]"

subsection \<open>Reading components\<close>

definition r_fixed :: "nat \<Rightarrow> bytes keyReader" where
  "r_fixed n b = (if length b < n then None else Some (take n b, drop n b))"

definition r_uint64 :: "64 word keyReader" where
  "r_uint64 = read_then (r_fixed 8) (\<lambda>v b. Some (word_of_nat (unbe v), b))"

definition r_owner :: "int keyReader" where
  "r_owner = read_then r_uint64 (\<lambda>v b. Some (sint (v XOR signFlip), b))"

definition r_time :: "int keyReader" where
  "r_time = read_then r_uint64 (\<lambda>v b. Some (sint (v XOR signFlip), b))"

definition r_text :: "string keyReader" where
  "r_text b =
     (case d_uvarint b of Inl _ \<Rightarrow> None
      | Inr (n, b') \<Rightarrow> if length b' < n then None else read_then (r_fixed n) (\<lambda>v r. Some (ofBytes v, r)) b')"

definition r_tag :: "(string \<Rightarrow> string option) \<Rightarrow> string keyReader" where
  "r_tag canon = read_then r_text (\<lambda>t b. if canon t = Some t then Some (t, b) else None)"

definition r_source :: "string keyReader" where
  "r_source = read_then r_text (\<lambda>t b. if snd (SourceIDUnmarshalText [] t) then Some (t, b) else None)"

definition r_key :: "Key keyReader" where
  "r_key = read_then (r_fixed (length (Key_Bytes zeroKey)))
     (\<lambda>v b. case KeyFromBytes v of None \<Rightarrow> None | Some k \<Rightarrow> Some (k, b))"

definition r_nativeRef :: "NativeRef keyReader" where
  "r_nativeRef = read_then (r_fixed 1) (\<lambda>v. read_then r_text
     (\<lambda>t b. if v ! 0 = Episode \<or> v ! 0 = Movie then Some (\<lparr>refKind = v ! 0, refID = t\<rparr>, b) else None))"

type_synonym InstanceID = "64 word"

definition r_inst :: "InstanceID keyReader" where
  "r_inst = read_then r_uint64 (\<lambda>i b. if i = 0 then None else Some (i, b))"

definition r_variant :: "byte keyReader" where
  "r_variant = read_then (r_fixed 1) (\<lambda>v b. if v ! 0 \<in> {1, 2, 3} then Some (v ! 0, b) else None)"

definition r_flags :: "Flags keyReader" where
  "r_flags = read_then (r_fixed 1) (\<lambda>v b. if v ! 0 AND NOT (1 OR 2) \<noteq> 0 then None else Some (flagsOf (v ! 0), b))"

text \<open>\<open>ParseKey\<close> of a \<^verbatim>\<open>keyCodec\<close>: the components, then \<open>end\<close>, which refuses trailing bytes.\<close>

definition parseWhole :: "'a keyReader \<Rightarrow> bytes \<Rightarrow> 'a option" where
  "parseWhole r b = (case r b of Some (k, []) \<Rightarrow> Some k | _ \<Rightarrow> None)"

subsection \<open>The keys\<close>

record rootRef =
  refSource :: string
  refRoot :: NativeRef

definition appendRootRef :: "bytes \<Rightarrow> rootRef \<Rightarrow> bytes" where
  "appendRootRef dst k = appendNativeRef (appendText dst (refSource k)) (refRoot k)"

definition readRootRef :: "rootRef keyReader" where
  "readRootRef = read_then r_source (\<lambda>s. read_then r_nativeRef (\<lambda>r b. Some (\<lparr>refSource = s, refRoot = r\<rparr>, b)))"

record itemRef =
  itemRoot :: rootRef
  itemID :: string

definition appendItemRef :: "bytes \<Rightarrow> itemRef \<Rightarrow> bytes" where
  "appendItemRef dst k = appendText (appendRootRef dst (itemRoot k)) (itemID k)"

definition readItemRef :: "itemRef keyReader" where
  "readItemRef = read_then readRootRef (\<lambda>r. read_then r_text (\<lambda>t b. Some (\<lparr>itemRoot = r, itemID = t\<rparr>, b)))"

record fileKey =
  fileInst :: InstanceID
  fileName :: string

definition appendFileKey :: "bytes \<Rightarrow> fileKey \<Rightarrow> bytes" where
  "appendFileKey dst k = appendText (appendUint64 dst (fileInst k)) (fileName k)"

definition readFileKey :: "fileKey keyReader" where
  "readFileKey = read_then r_inst (\<lambda>i. read_then r_text (\<lambda>t b. Some (\<lparr>fileInst = i, fileName = t\<rparr>, b)))"

record lockKey =
  lockItem :: Key
  lockTag :: string
  lockVariant :: byte

definition appendLockKey :: "bytes \<Rightarrow> lockKey \<Rightarrow> bytes" where
  "appendLockKey dst k = appendTag (dst @ Key_Bytes (lockItem k)) (lockTag k) @ [lockVariant k]"

definition readLockKey :: "(string \<Rightarrow> string option) \<Rightarrow> lockKey keyReader" where
  "readLockKey canon = read_then r_key (\<lambda>k. read_then (r_tag canon) (\<lambda>t. read_then r_variant
     (\<lambda>v b. Some (\<lparr>lockItem = k, lockTag = t, lockVariant = v\<rparr>, b))))"

record OrdinalKey =
  ordInst :: InstanceID
  ordTag :: string
  ordFlags :: Flags

definition appendOrdinalKey :: "bytes \<Rightarrow> OrdinalKey \<Rightarrow> bytes" where
  "appendOrdinalKey dst k = appendFlags (appendTag (appendUint64 dst (ordInst k)) (ordTag k)) (ordFlags k)"

definition readOrdinalKey :: "(string \<Rightarrow> string option) \<Rightarrow> OrdinalKey keyReader" where
  "readOrdinalKey canon = read_then r_inst (\<lambda>i. read_then (r_tag canon) (\<lambda>t. read_then r_flags
     (\<lambda>f b. Some (\<lparr>ordInst = i, ordTag = t, ordFlags = f\<rparr>, b))))"

record noResultKey =
  nrItem :: Key
  nrTag :: string
  nrProvider :: string

definition appendNoResultKey :: "bytes \<Rightarrow> noResultKey \<Rightarrow> bytes" where
  "appendNoResultKey dst k = appendText (appendTag (dst @ Key_Bytes (nrItem k)) (nrTag k)) (nrProvider k)"

definition readNoResultKey :: "(string \<Rightarrow> string option) \<Rightarrow> noResultKey keyReader" where
  "readNoResultKey canon = read_then r_key (\<lambda>k. read_then (r_tag canon) (\<lambda>t. read_then r_text
     (\<lambda>p b. Some (\<lparr>nrItem = k, nrTag = t, nrProvider = p\<rparr>, b))))"

subsection \<open>Components read back\<close>

text \<open>A component that is read back whatever follows it: no component's bytes begin another's.\<close>

locale component =
  fixes put :: "'a \<Rightarrow> bytes" and parse :: "'a keyReader" and ok :: "'a \<Rightarrow> bool"
  assumes parse_put: "ok k \<Longrightarrow> parse (put k @ rest) = Some (k, rest)"
begin

lemma put_inj: "ok k \<Longrightarrow> ok k' \<Longrightarrow> put k @ r = put k' @ r' \<Longrightarrow> k = k' \<and> r = r'"
  using parse_put by (metis option.inject prod.inject)

lemma put_scan: "ok k \<Longrightarrow> ok k' \<Longrightarrow> (\<exists>rest. put k' @ x = put k @ rest) \<longleftrightarrow> k' = k"
  using put_inj by blast

lemma parse_whole: "ok k \<Longrightarrow> parseWhole parse (put k) = Some k"
  using parse_put [of k "[]"] by (simp add: parseWhole_def)

end

lemma xor_signFlip: "(v XOR signFlip) XOR signFlip = v"
  by (simp add: xor.assoc)

definition textOk :: "string \<Rightarrow> bool" where "textOk s \<longleftrightarrow> length s < 2 ^ 64"
definition tagOk :: "(string \<Rightarrow> string option) \<Rightarrow> string \<Rightarrow> bool" where
  "tagOk canon t \<longleftrightarrow> textOk t \<and> canon t = Some t"
definition refOk :: "NativeRef \<Rightarrow> bool" where
  "refOk r \<longleftrightarrow> (refKind r = Episode \<or> refKind r = Movie) \<and> textOk (refID r)"
definition variantOk :: "byte \<Rightarrow> bool" where "variantOk v \<longleftrightarrow> v = 1 \<or> v = 2 \<or> v = 3"

lemma r_fixed_append: "length v = n \<Longrightarrow> r_fixed n (v @ rest) = Some (v, rest)"
  by (simp add: r_fixed_def)

interpretation k_uint64: component "appendUint64 []" r_uint64 "\<lambda>_. True"
  by unfold_locales (simp add: appendUint64_def r_uint64_def read_then_def r_fixed_append unbe_be64)

lemma sint_int64: "int64 x \<Longrightarrow> sint (word_of_int x :: 64 word) = x"
  by (simp add: int64_def signed_of_int signed_take_bit_int_eq_self)

interpretation k_owner: component ownerBytes r_owner int64
  using k_uint64.parse_put
  by unfold_locales (simp add: ownerBytes_def r_owner_def read_then_def xor_signFlip sint_int64)

interpretation k_time: component "appendTime []" r_time int64
  using k_uint64.parse_put
  by unfold_locales (simp add: appendTime_def r_time_def read_then_def xor_signFlip sint_int64)


interpretation k_text: component "appendText []" r_text textOk
proof
  fix s rest assume "textOk s"
  then have "d_uvarint (appendUvarint (length s) @ toBytes s @ rest) = Inr (length s, toBytes s @ rest)"
    unfolding textOk_def by (rule d_uvarint_append)
  then show "r_text (appendText [] s @ rest) = Some (s, rest)"
    by (simp add: appendText_def r_text_def read_then_def r_fixed_append)
qed

interpretation k_tag: component "appendTag []" "r_tag canon" "tagOk canon" for canon
  using k_text.parse_put by unfold_locales (simp add: appendTag_def r_tag_def read_then_def tagOk_def)

interpretation k_source: component "appendText []" r_source "\<lambda>s. validSourceID s"
proof
  fix s rest assume v: "validSourceID s"
  then have "textOk s" by (auto simp: validSourceID_def maxSourceID_def textOk_def)
  from k_text.parse_put [OF this, of rest] v
  show "r_source (appendText [] s @ rest) = Some (s, rest)" by (simp add: r_source_def read_then_def SourceIDUnmarshalText_def)
qed

lemma length_Key_Bytes: "length (Key_Bytes k) = 14"
  by (simp add: Key_Bytes_def)

interpretation k_key: component Key_Bytes r_key validKey
  by unfold_locales (simp add: r_key_def read_then_def r_fixed_append length_Key_Bytes KeyFromBytes_Key_Bytes)

lemma append_any: "appendText dst s = dst @ appendText [] s" "appendUint64 dst v = dst @ appendUint64 [] v"
  "appendTag dst s = dst @ appendTag [] s" "appendFlags dst f = dst @ appendFlags [] f"
  by (simp_all add: appendText_def appendUint64_def appendTag_def appendFlags_def)

lemma r_fixed_one: "r_fixed 1 (v # rest) = Some ([v], rest)"
  by (simp add: r_fixed_def)

interpretation k_ref: component "appendNativeRef []" r_nativeRef refOk
proof
  fix r rest assume r: "refOk r"
  have "appendNativeRef [] r @ rest = refKind r # appendText [] (refID r) @ rest"
    by (simp add: appendNativeRef_def append_any(1) [of "[refKind r]"])
  then show "r_nativeRef (appendNativeRef [] r @ rest) = Some (r, rest)"
    using r k_text.parse_put [of "refID r" rest] by (simp add: r_nativeRef_def read_then_def r_fixed_one [unfolded One_nat_def] refOk_def)
qed

interpretation k_inst: component "appendUint64 []" r_inst "\<lambda>i. i \<noteq> 0"
  using k_uint64.parse_put by unfold_locales (simp add: r_inst_def read_then_def)

interpretation k_variant: component "\<lambda>v. [v]" r_variant variantOk
  by unfold_locales (auto simp: r_variant_def read_then_def r_fixed_one [unfolded One_nat_def] variantOk_def)

lemma flagsByte_cases:
  "flagsByte f \<in> {0, 1, 2, 3} \<and> flagsByte f AND NOT (1 OR 2) = 0 \<and> flagsOf (flagsByte f) = f"
  by (cases f; cases "fHI f"; cases "fForced f") (simp_all add: flagsByte_def flagsOf_def)

interpretation k_flags: component "appendFlags []" r_flags "\<lambda>_. True"
  using flagsByte_cases
  by unfold_locales (simp add: appendFlags_def r_flags_def read_then_def r_fixed_one [unfolded One_nat_def])

subsection \<open>Whole keys\<close>

definition rootRefOk :: "rootRef \<Rightarrow> bool" where
  "rootRefOk k \<longleftrightarrow> validSourceID (refSource k) \<and> refOk (refRoot k)"
definition itemRefOk :: "itemRef \<Rightarrow> bool" where "itemRefOk k \<longleftrightarrow> rootRefOk (itemRoot k) \<and> textOk (itemID k)"
definition fileKeyOk :: "fileKey \<Rightarrow> bool" where "fileKeyOk k \<longleftrightarrow> fileInst k \<noteq> 0 \<and> textOk (fileName k)"
definition lockKeyOk :: "(string \<Rightarrow> string option) \<Rightarrow> lockKey \<Rightarrow> bool" where
  "lockKeyOk canon k \<longleftrightarrow> validKey (lockItem k) \<and> tagOk canon (lockTag k) \<and> variantOk (lockVariant k)"
definition ordinalKeyOk :: "(string \<Rightarrow> string option) \<Rightarrow> OrdinalKey \<Rightarrow> bool" where
  "ordinalKeyOk canon k \<longleftrightarrow> ordInst k \<noteq> 0 \<and> tagOk canon (ordTag k)"
definition noResultKeyOk :: "(string \<Rightarrow> string option) \<Rightarrow> noResultKey \<Rightarrow> bool" where
  "noResultKeyOk canon k \<longleftrightarrow> validKey (nrItem k) \<and> tagOk canon (nrTag k) \<and> textOk (nrProvider k)"

lemma append_ref: "appendNativeRef dst r = dst @ appendNativeRef [] r"
  by (simp add: appendNativeRef_def appendText_def)

lemma append_root: "appendRootRef dst k = dst @ appendText [] (refSource k) @ appendNativeRef [] (refRoot k)"
  by (simp add: appendRootRef_def appendNativeRef_def appendText_def)

lemmas key_reads = read_then_def k_text.parse_put k_tag.parse_put k_source.parse_put k_key.parse_put
  k_ref.parse_put k_inst.parse_put k_flags.parse_put k_variant.parse_put

interpretation k_rootRef: component "appendRootRef []" readRootRef rootRefOk
  by unfold_locales (simp add: append_root readRootRef_def rootRefOk_def key_reads)

lemma append_item: "appendItemRef dst k = dst @ appendRootRef [] (itemRoot k) @ appendText [] (itemID k)"
  by (simp add: appendItemRef_def append_root appendText_def)

interpretation k_itemRef: component "appendItemRef []" readItemRef itemRefOk
  by unfold_locales (simp add: append_item readItemRef_def itemRefOk_def key_reads k_rootRef.parse_put)

lemma append_file: "appendFileKey dst k = dst @ appendUint64 [] (fileInst k) @ appendText [] (fileName k)"
  by (simp add: appendFileKey_def appendText_def appendUint64_def)

interpretation k_fileKey: component "appendFileKey []" readFileKey fileKeyOk
  by unfold_locales (simp add: append_file readFileKey_def fileKeyOk_def key_reads)

lemma append_lock: "appendLockKey dst k = dst @ Key_Bytes (lockItem k) @ appendTag [] (lockTag k) @ [lockVariant k]"
  by (simp add: appendLockKey_def appendTag_def appendText_def)

interpretation k_lockKey: component "appendLockKey []" "readLockKey canon" "lockKeyOk canon" for canon
  using k_variant.parse_put
  by unfold_locales (simp add: append_lock readLockKey_def lockKeyOk_def key_reads)

lemma append_ordinal:
  "appendOrdinalKey dst k = dst @ appendUint64 [] (ordInst k) @ appendTag [] (ordTag k) @ appendFlags [] (ordFlags k)"
  by (simp add: appendOrdinalKey_def appendFlags_def appendTag_def appendText_def appendUint64_def)

interpretation k_ordinal: component "appendOrdinalKey []" "readOrdinalKey canon" "ordinalKeyOk canon" for canon
  by unfold_locales (simp add: append_ordinal readOrdinalKey_def ordinalKeyOk_def key_reads)

lemma append_noResult:
  "appendNoResultKey dst k = dst @ Key_Bytes (nrItem k) @ appendTag [] (nrTag k) @ appendText [] (nrProvider k)"
  by (simp add: appendNoResultKey_def appendTag_def appendText_def)

interpretation k_noResult: component "appendNoResultKey []" "readNoResultKey canon" "noResultKeyOk canon" for canon
  by unfold_locales (simp add: append_noResult readNoResultKey_def noResultKeyOk_def key_reads)

subsection \<open>Order\<close>

lemma snoc_less:
  "length xs = length ys \<Longrightarrow> xs @ [a] < ys @ [b] \<longleftrightarrow> xs < ys \<or> xs = ys \<and> a < (b :: byte)"
  by (induction xs ys rule: list_induct2) auto

lemma prefix_le: "p @ a \<le> p @ b \<longleftrightarrow> a \<le> (b :: bytes)"
  by (induction p) simp_all

lemma div_mod_less: "m < n \<longleftrightarrow> m div 256 < n div 256 \<or> m div 256 = n div 256 \<and> m mod 256 < n mod (256 :: nat)"
proof -
  have "m = m div 256 * 256 + m mod 256" "n = n div 256 * 256 + n mod 256" by simp_all
  moreover have "m mod 256 < 256" "n mod 256 < 256" by simp_all
  ultimately show ?thesis by linarith
qed

lemma be_less: "m < 256 ^ k \<Longrightarrow> n < 256 ^ k \<Longrightarrow> be k m < be k n \<longleftrightarrow> m < n"
proof (induction k arbitrary: m n)
  case (Suc k)
  have "m div 256 < 256 ^ k" "n div 256 < 256 ^ k" using Suc.prems by (simp_all add: less_mult_imp_div_less mult.commute)
  moreover from this have "be k (m div 256) = be k (n div 256) \<longleftrightarrow> m div 256 = n div 256" by (rule be_inj)
  moreover have "(word_of_nat (m mod 256) :: byte) < word_of_nat (n mod 256) \<longleftrightarrow> m mod 256 < n mod 256"
    by (simp add: word_less_nat_alt unat_of_nat)
  ultimately show ?case using Suc.IH div_mod_less [of m n] by (simp add: snoc_less)
qed simp

lemma bit_signFlip: "bit signFlip n \<longleftrightarrow> n = 63"
  unfolding signFlip_def push_bit_eq_mult mult_1 bit_exp_iff by (auto simp: possible_bit_def)

lemma signFlip_add: "v XOR signFlip = v + signFlip"
proof (cases "bit v 63")
  case False
  then have "v AND signFlip = 0" by (intro bit_word_eqI) (auto simp: bit_simps bit_signFlip)
  then show ?thesis by (simp add: disjunctive_add_eq_xor)
next
  case True
  then have "(v XOR signFlip) AND signFlip = 0" by (intro bit_word_eqI) (auto simp: bit_simps bit_signFlip)
  then have e: "(v XOR signFlip) + signFlip = v" by (simp add: disjunctive_add_eq_xor xor_signFlip)
  have s: "signFlip + signFlip = 0" by (simp add: signFlip_def)
  have "v + signFlip = (v XOR signFlip) + signFlip + signFlip" by (simp only: e)
  also have "\<dots> = v XOR signFlip" by (simp only: add.assoc s add_0_right)
  finally show ?thesis by simp
qed

lemma flip_unat: "int64 t \<Longrightarrow> unat (word_of_int t XOR signFlip) = nat (t + 2 ^ 63)"
proof -
  assume t: "int64 t"
  have "word_of_int t XOR signFlip = word_of_int (t + 2 ^ 63)"
    unfolding signFlip_add by (simp add: signFlip_def)
  then show ?thesis using t
    by (simp only: unsigned_of_int) (simp add: int64_def take_bit_int_eq_self)
qed

lemma time_less: "int64 t \<Longrightarrow> int64 u \<Longrightarrow> appendTime [] t < appendTime [] u \<longleftrightarrow> t < u"
  using be_less [of "nat (t + 2 ^ 63)" 8 "nat (u + 2 ^ 63)"]
  by (simp add: appendTime_def appendUint64_def flip_unat) (auto simp: int64_def)

subsection \<open>Instance ids\<close>

definition InstanceID_String :: "InstanceID \<Rightarrow> string" where
  "InstanceID_String i = dec (unat i)"

definition ParseInstanceID :: "string \<Rightarrow> InstanceID option" where
  "ParseInstanceID s =
     (if s = [] \<or> hd s < CHR ''1'' \<or> CHR ''9'' < hd s then None
      else if \<not> list_all (\<lambda>c. \<not> (c < CHR ''0'' \<or> CHR ''9'' < c)) (tl s) then None
      else case parse_uint 64 s of None \<Rightarrow> None | Some v \<Rightarrow> Some (word_of_nat v))"

definition InstanceIDMarshalText :: "InstanceID \<Rightarrow> string option" where
  "InstanceIDMarshalText i = (if i = 0 then None else Some (InstanceID_String i))"

definition InstanceIDUnmarshalText :: "InstanceID \<Rightarrow> string \<Rightarrow> InstanceID \<times> bool" where
  "InstanceIDUnmarshalText i b = (case ParseInstanceID b of None \<Rightarrow> (i, False) | Some v \<Rightarrow> (v, True))"

lemma digits19: "CHR ''1'' \<le> c \<and> c \<le> CHR ''9'' \<longleftrightarrow> isDigit c \<and> c \<noteq> CHR ''0''"
proof -
  have "c = CHR ''0'' \<longleftrightarrow> of_char c = (of_char (CHR ''0'') :: nat)" by (simp only: of_char_eq_iff)
  then show ?thesis by (auto simp: isDigit_of_char less_eq_char_def)
qed

lemma dec_cons: "n = undec s \<Longrightarrow> list_all isDigit s \<Longrightarrow> s \<noteq> [] \<Longrightarrow> hd s \<noteq> CHR ''0'' \<Longrightarrow> dec n = s"
proof (induction s arbitrary: n rule: rev_induct)
  case (snoc c s)
  have c: "isDigit c" using snoc.prems by simp
  show ?case
  proof (cases "s = []")
    case True
    then show ?thesis using snoc.prems c digit_val_less [OF c]
      by (simp add: dec.simps [of n] dec.simps [of "digit_val c"] undec_snoc [of "[]", simplified] digit_char_digit_val)
  next
    case False
    then have d: "dec (undec s) = s" using snoc by simp
    have n: "n = undec s * 10 + digit_val c" using snoc.prems(1) by (simp add: undec_snoc)
    have "undec s \<noteq> 0"
    proof
      assume "undec s = 0"
      then have "s = [CHR ''0'']" using d by (simp add: dec.simps [of 0])
      then show False using snoc.prems(4) by simp
    qed
    then show ?thesis using d n digit_val_less [OF c] by (simp add: dec.simps [of "undec s * 10 + digit_val c"] digit_char_digit_val [OF c])
  qed
qed simp

lemma ParseInstanceID_iff: "ParseInstanceID s = Some i \<longleftrightarrow> i \<noteq> 0 \<and> s = InstanceID_String i"
proof
  assume p: "ParseInstanceID s = Some i"
  then obtain v where s: "s \<noteq> []" "CHR ''1'' \<le> hd s \<and> hd s \<le> CHR ''9''" "list_all isDigit (tl s)"
    and v: "parse_uint 64 s = Some v" "i = word_of_nat v"
    unfolding ParseInstanceID_def by (cases "parse_uint 64 s") (simp_all add: isDigit_def [abs_def] not_less split: if_splits)
  then have d: "list_all isDigit s" "hd s \<noteq> CHR ''0''" using digits19 [of "hd s"] by (cases s; simp)+
  have u: "v = undec s" "v < 2 ^ 64" using v(1) by (auto simp: parse_uint_def split: if_splits)
  have e: "dec v = s" using dec_cons [OF u(1) d(1) s(1) d(2)] .
  have "v \<noteq> 0" using e d(2) by (cases "v = 0") (auto simp: dec.simps [of 0])
  then show "i \<noteq> 0 \<and> s = InstanceID_String i" using u(2) e v(2)
    by (simp add: InstanceID_String_def unat_of_nat word_of_nat_eq_0_iff nat_dvd_not_less)
next
  assume r: "i \<noteq> 0 \<and> s = InstanceID_String i"
  then have h: "hd s \<noteq> CHR ''0''" using dec_hd_nonzero [of "unat i"] by (simp add: InstanceID_String_def unat_gt_0)
  have l: "list_all isDigit s" "s \<noteq> []" using r by (simp_all add: InstanceID_String_def)
  then have "CHR ''1'' \<le> hd s \<and> hd s \<le> CHR ''9''" "list_all isDigit (tl s)" using h digits19 [of "hd s"] by (cases s; simp)+
  moreover have "unat i < 2 ^ 64" using unsigned_less [of i] by simp
  then have "parse_uint 64 s = Some (unat i)" using r parse_uint_dec by (simp add: InstanceID_String_def)
  ultimately show "ParseInstanceID s = Some i" using l by (simp add: ParseInstanceID_def isDigit_def [abs_def] not_less)
qed

subsection \<open>Properties\<close>

text \<open>C35. The store's keys are decoded from their bytes alone: every composite key is read back, and a scan by the
  bytes of a root, an instance or a season meets the keys of that root, instance or season and no others.\<close>

theorem key_codecs:
  assumes "itemRefOk k" "rootRefOk r" "fileKeyOk f" "lockKeyOk canon l" "ordinalKeyOk canon n" "noResultKeyOk canon m"
  shows "parseWhole readRootRef (appendRootRef [] r) = Some r
     \<and> parseWhole readItemRef (appendItemRef [] k) = Some k
     \<and> parseWhole readFileKey (appendFileKey [] f) = Some f
     \<and> parseWhole (readLockKey canon) (appendLockKey [] l) = Some l
     \<and> parseWhole (readOrdinalKey canon) (appendOrdinalKey [] n) = Some n
     \<and> parseWhole (readNoResultKey canon) (appendNoResultKey [] m) = Some m
     \<and> ((\<exists>rest. appendItemRef [] k = appendRootRef [] r @ rest) \<longleftrightarrow> itemRoot k = r)
     \<and> ((\<exists>rest. appendFileKey [] f = appendUint64 [] i @ rest) \<longleftrightarrow> fileInst f = i)
     \<and> ((\<exists>rest. appendNoResultKey [] m = RootKey_Bytes q @ be 2 (unat s) @ rest) \<longleftrightarrow>
          Key.root (nrItem m) = q \<and> season (nrItem m) = s)"
proof (intro conjI)
  have "rootRefOk (itemRoot k)" using assms(1) by (simp add: itemRefOk_def)
  from k_rootRef.put_scan [OF assms(2) this] show "(\<exists>rest. appendItemRef [] k = appendRootRef [] r @ rest) \<longleftrightarrow> itemRoot k = r"
    by (simp add: append_item)
  show "(\<exists>rest. appendFileKey [] f = appendUint64 [] i @ rest) \<longleftrightarrow> fileInst f = i"
    using k_uint64.put_scan [of "fileInst f" "appendText [] (fileName f)" i] by (simp add: append_file)
  show "(\<exists>rest. appendNoResultKey [] m = RootKey_Bytes q @ be 2 (unat s) @ rest) \<longleftrightarrow> Key.root (nrItem m) = q \<and> season (nrItem m) = s"
    (is "?l \<longleftrightarrow> ?r")
  proof
    assume ?l
    then obtain rest where e: "appendNoResultKey [] m = RootKey_Bytes q @ be 2 (unat s) @ rest" by blast
    then have "RootKey_Bytes (Key.root (nrItem m)) = RootKey_Bytes q" "be 2 (unat (season (nrItem m))) = be 2 (unat s)"
      by (simp_all add: append_noResult Key_Bytes_def)
    then show ?r using root_prefix_scan [of "nrItem m" q] by (simp add: Key_Bytes_def) (metis unbe_be16 word_unat_eq_iff)
  qed (auto simp: append_noResult Key_Bytes_def)
qed (simp_all add: assms k_rootRef.parse_whole k_itemRef.parse_whole k_fileKey.parse_whole k_lockKey.parse_whole
    k_ordinal.parse_whole k_noResult.parse_whole)


definition demoKey :: Key where
  "demoKey = \<lparr>Key.root = \<lparr>kind = Episode, scheme = TVDB, id_of = 81189\<rparr>, season = 1, episode = 2\<rparr>"

definition demoRoot :: rootRef where
  "demoRoot = \<lparr>refSource = ''sonarr'', refRoot = \<lparr>refKind = Episode, refID = ''7''\<rparr>\<rparr>"

theorem key_codecs_witness:
  "parseWhole readItemRef (appendItemRef [] \<lparr>itemRoot = demoRoot, itemID = ''12''\<rparr>) = Some \<lparr>itemRoot = demoRoot, itemID = ''12''\<rparr>
     \<and> parseWhole (readNoResultKey (\<lambda>t. Some t)) (appendNoResultKey [] \<lparr>nrItem = demoKey, nrTag = ''en'', nrProvider = ''p''\<rparr>)
         = Some \<lparr>nrItem = demoKey, nrTag = ''en'', nrProvider = ''p''\<rparr>"
proof -
  have k: "validKey demoKey"
    by (simp add: demoKey_def validKey_def validRoot_def ValidExternalID_nat keyPrefixes_def)
  have r: "rootRefOk demoRoot"
    by (simp add: rootRefOk_def demoRoot_def refOk_def textOk_def validSourceID_def maxSourceID_def sourceChar_def)
  from key_codecs [of "\<lparr>itemRoot = demoRoot, itemID = ''12''\<rparr>" demoRoot "\<lparr>fileInst = 1, fileName = ''a''\<rparr>" "\<lambda>t. Some t"
      "\<lparr>lockItem = demoKey, lockTag = ''en'', lockVariant = 1\<rparr>" "\<lparr>ordInst = 1, ordTag = ''en'', ordFlags = \<lparr>fHI = True, fForced = False\<rparr>\<rparr>"
      "\<lparr>nrItem = demoKey, nrTag = ''en'', nrProvider = ''p''\<rparr>"] k r
  show ?thesis
    by (simp add: itemRefOk_def fileKeyOk_def lockKeyOk_def ordinalKeyOk_def noResultKeyOk_def tagOk_def textOk_def variantOk_def)
qed

text \<open>\<open>ParseInstanceID\<close> accepts exactly the texts of the non-zero ids, each as its own.\<close>

theorem ParseInstanceID_canonical:
  "ParseInstanceID s = Some i \<longleftrightarrow> InstanceIDMarshalText i = Some s"
  using ParseInstanceID_iff [of s i] by (auto simp: InstanceIDMarshalText_def)

end
