(* ===== verification/BoltTable.thy ===== *)
theory BoltTable
  imports StateKeys "HOL-Library.AList" "HOL-Library.Multiset"
begin

text \<open>
  The tables the store keeps its rows in. \<^verbatim>\<open>github.com/cplieger/bolttable\<close> is not part of the repository, so a
  table is the argument \<open>T\<close> of every operation that uses one: reading, writing and deleting a row, the
  rows in key order, the entries of an index in byte order (\<open>tProject\<close> with the value each projects), the key of
  a unique index's entry, and a counter's value. \<open>tableLaws\<close> is its documented behaviour; \<open>listTable\<close> is a table that has it.
\<close>

record ('t, 'k, 'v) table =
  tGet :: "'t \<Rightarrow> 'k \<Rightarrow> 'v option"
  tPut :: "'t \<Rightarrow> 'k \<Rightarrow> 'v \<Rightarrow> 't option"
  tDelete :: "'t \<Rightarrow> 'k \<Rightarrow> 't"
  tScan :: "'t \<Rightarrow> ('k \<times> 'v) list"
  tIndex :: "'t \<Rightarrow> ('k \<Rightarrow> 'v \<Rightarrow> bytes list) \<Rightarrow> (bytes \<times> 'k) list"
  tProject :: "'t \<Rightarrow> ('k \<Rightarrow> 'v \<Rightarrow> (bytes \<times> bytes) list) \<Rightarrow> (bytes \<times> 'k \<times> bytes) list"
  tLookup :: "'t \<Rightarrow> bytes \<Rightarrow> 'k option"
  tCounter :: "'t \<Rightarrow> ('k \<Rightarrow> 'v \<Rightarrow> int) \<Rightarrow> int"

definition entriesOf :: "('k \<Rightarrow> 'v \<Rightarrow> bytes list) \<Rightarrow> ('k \<times> 'v) list \<Rightarrow> (bytes \<times> 'k) list" where
  "entriesOf E rows = concat (map (\<lambda>(k, v). map (\<lambda>b. (b, k)) (E k v)) rows)"

text \<open>A row the unique index \<open>U\<close> would hold one entry twice for is refused.\<close>

definition clashes :: "('k \<Rightarrow> 'v \<Rightarrow> bytes list) \<Rightarrow> ('k \<Rightarrow> 'v option) \<Rightarrow> 'k \<Rightarrow> 'v \<Rightarrow> bool" where
  "clashes U m k v \<longleftrightarrow> (\<exists>k' v'. k' \<noteq> k \<and> m k' = Some v' \<and> set (U k' v') \<inter> set (U k v) \<noteq> {})"

definition tableLaws :: "('k \<Rightarrow> 'v \<Rightarrow> bytes list) \<Rightarrow> ('t, 'k, 'v) table \<Rightarrow> bool" where
  "tableLaws U T \<longleftrightarrow>
     (\<forall>t k v. tPut T t k v = None \<longleftrightarrow> clashes U (tGet T t) k v) \<and>
     (\<forall>t k v t'. tPut T t k v = Some t' \<longrightarrow> tGet T t' = (tGet T t)(k \<mapsto> v)) \<and>
     (\<forall>t k. tGet T (tDelete T t k) = (tGet T t)(k := None)) \<and>
     (\<forall>t. map_of (tScan T t) = tGet T t \<and> distinct (map fst (tScan T t))) \<and>
     (\<forall>t E. sorted (map fst (tIndex T t E)) \<and> mset (tIndex T t E) = mset (entriesOf E (tScan T t))) \<and>
     (\<forall>t E. sorted (map fst (tProject T t E)) \<and>
        mset (tProject T t E) = mset (concat (map (\<lambda>(k, v). map (\<lambda>(b, w). (b, k, w)) (E k v)) (tScan T t)))) \<and>
     (\<forall>t b k. tLookup T t b = Some k \<longrightarrow> (\<exists>v. tGet T t k = Some v \<and> b \<in> set (U k v))) \<and>
     (\<forall>t b k v. tLookup T t b = None \<longrightarrow> tGet T t k = Some v \<longrightarrow> b \<notin> set (U k v)) \<and>
     (\<forall>t W. tCounter T t W = sum_list (map (\<lambda>(k, v). W k v) (tScan T t)))"

text \<open>What becomes of a write: it commits, fails, or lands and reports a failure all the same.\<close>

datatype commit = Commits | Fails | Lands

subsection \<open>Consequences\<close>

lemma table_put: "tableLaws U T \<Longrightarrow> tPut T t k v = Some t' \<Longrightarrow> tGet T t' = (tGet T t)(k \<mapsto> v)"
  by (simp add: tableLaws_def)

lemma table_put_None: "tableLaws U T \<Longrightarrow> tPut T t k v = None \<longleftrightarrow> clashes U (tGet T t) k v"
  by (simp add: tableLaws_def)

lemma table_delete: "tableLaws U T \<Longrightarrow> tGet T (tDelete T t k) = (tGet T t)(k := None)"
  by (simp add: tableLaws_def)

lemma table_scan: "tableLaws U T \<Longrightarrow> map_of (tScan T t) = tGet T t"
  by (simp add: tableLaws_def)

lemma table_scan_distinct: "tableLaws U T \<Longrightarrow> distinct (map fst (tScan T t))"
  by (simp add: tableLaws_def)

lemma table_rows: "tableLaws U T \<Longrightarrow> (k, v) \<in> set (tScan T t) \<longleftrightarrow> tGet T t k = Some v"
  using table_scan [of U T t] table_scan_distinct [of U T t] by (metis map_of_eq_Some_iff)

lemma table_index: "tableLaws U T \<Longrightarrow> mset (tIndex T t E) = mset (entriesOf E (tScan T t))"
  by (simp add: tableLaws_def)

lemma table_index_sorted: "tableLaws U T \<Longrightarrow> sorted (map fst (tIndex T t E))"
  by (simp add: tableLaws_def)

lemma entriesOf_set: "(b, k) \<in> set (entriesOf E rows) \<longleftrightarrow> (\<exists>v. (k, v) \<in> set rows \<and> b \<in> set (E k v))"
  by (induction rows) (auto simp: entriesOf_def)

lemma table_index_set:
  assumes "tableLaws U T"
  shows "(b, k) \<in> set (tIndex T t E) \<longleftrightarrow> (\<exists>v. tGet T t k = Some v \<and> b \<in> set (E k v))"
proof -
  have "set (tIndex T t E) = set (entriesOf E (tScan T t))"
    using table_index [OF assms] by (metis set_mset_mset)
  then show ?thesis by (simp add: entriesOf_set table_rows [OF assms])
qed

lemma table_project:
  assumes "tableLaws U T"
  shows "sorted (map fst (tProject T t E))"
    "mset (tProject T t E) = mset (concat (map (\<lambda>(k, v). map (\<lambda>(b, w). (b, k, w)) (E k v)) (tScan T t)))"
  using assms by (simp_all add: tableLaws_def)

lemma table_lookup: "tableLaws U T \<Longrightarrow> tLookup T t b = Some k \<Longrightarrow> \<exists>v. tGet T t k = Some v \<and> b \<in> set (U k v)"
  by (simp add: tableLaws_def)

lemma table_lookup_None: "tableLaws U T \<Longrightarrow> tLookup T t b = None \<Longrightarrow> tGet T t k = Some v \<Longrightarrow> b \<notin> set (U k v)"
  unfolding tableLaws_def by blast

lemma table_counter: "tableLaws U T \<Longrightarrow> tCounter T t W = sum_list (map (\<lambda>(k, v). W k v) (tScan T t))"
  by (simp add: tableLaws_def)

subsection \<open>Counting rows\<close>

definition countRows :: "('k \<Rightarrow> 'v option) \<Rightarrow> ('v \<Rightarrow> bool) \<Rightarrow> nat" where
  "countRows m P = card {k. \<exists>v. m k = Some v \<and> P v}"

lemma rows_finite: "tableLaws U T \<Longrightarrow> finite {k. \<exists>v. tGet T t k = Some v \<and> P v}"
proof -
  assume "tableLaws U T"
  then have "finite (dom (tGet T t))" using table_scan [of U T t] finite_dom_map_of [of "tScan T t"] by simp
  then show ?thesis by (rule finite_subset [rotated]) auto
qed

lemma count_scan: "tableLaws U T \<Longrightarrow> countRows (tGet T t) P = length (filter (\<lambda>(k, v). P v) (tScan T t))"
proof -
  assume l: "tableLaws U T"
  let ?rows = "filter (\<lambda>(k, v). P v) (tScan T t)"
  have "{k. \<exists>v. tGet T t k = Some v \<and> P v} = set (map fst ?rows)"
    using table_rows [OF l, where t = t] by (force simp: image_iff)
  moreover have "distinct (map fst ?rows)"
    using table_scan_distinct [OF l, of t] by (auto simp: distinct_map intro: inj_on_subset)
  then have "card (set (map fst ?rows)) = length ?rows" using distinct_card by fastforce
  ultimately show ?thesis by (simp only: countRows_def)
qed

lemma count_index:
  assumes l: "tableLaws U T" and one: "\<And>k v. tGet T t k = Some v \<Longrightarrow> length (filter Q (E k v)) = (if P v then 1 else 0)"
  shows "length (filter (\<lambda>(b, k). Q b) (tIndex T t E)) = countRows (tGet T t) P"
proof -
  have "length (filter (\<lambda>(b, k). Q b) (tIndex T t E)) = size (filter_mset (\<lambda>(b, k). Q b) (mset (tIndex T t E)))"
    by (metis mset_filter size_mset)
  also have "\<dots> = length (filter (\<lambda>(b, k). Q b) (entriesOf E (tScan T t)))"
    by (metis table_index [OF l] mset_filter size_mset)
  also have "\<dots> = length (filter (\<lambda>(k, v). P v) (tScan T t))"
  proof -
    have "\<forall>(k, v) \<in> set rows. length (filter Q (E k v)) = (if P v then 1 else 0) \<Longrightarrow>
        length (filter (\<lambda>(b, k). Q b) (entriesOf E rows)) = length (filter (\<lambda>(k, v). P v) rows)" for rows
      by (induction rows) (auto simp: entriesOf_def filter_map comp_def)
    then show ?thesis using one table_rows [OF l] by fastforce
  qed
  also have "\<dots> = countRows (tGet T t) P" using count_scan [OF l] by simp
  finally show ?thesis .
qed

lemma count_counter:
  assumes l: "tableLaws U T" and w: "\<And>k v. W k v = (if P v then 1 else 0)"
  shows "tCounter T t W = int (countRows (tGet T t) P)"
proof -
  have "sum_list (map (\<lambda>(k, v). W k v) rows) = int (length (filter (\<lambda>(k, v). P v) rows))" for rows
    by (induction rows) (auto simp: w)
  then show ?thesis by (simp add: table_counter [OF l] count_scan [OF l])
qed

lemma count_put: "finite {k. \<exists>v. m k = Some v \<and> P v} \<Longrightarrow> countRows (m(k \<mapsto> v)) P \<le> Suc (countRows m P)"
proof -
  assume f: "finite {k. \<exists>v. m k = Some v \<and> P v}"
  have "{x. \<exists>y. (m(k \<mapsto> v)) x = Some y \<and> P y} \<subseteq> insert k {x. \<exists>y. m x = Some y \<and> P y}" by (auto split: if_splits)
  moreover have "finite (insert k {x. \<exists>y. m x = Some y \<and> P y})" using f by simp
  ultimately have "countRows (m(k \<mapsto> v)) P \<le> card (insert k {x. \<exists>y. m x = Some y \<and> P y})"
    unfolding countRows_def by (rule card_mono [rotated])
  also have "\<dots> \<le> Suc (countRows m P)" unfolding countRows_def using f by (simp add: card_insert_if)
  finally show ?thesis .
qed

lemma count_put_same:
  "finite {k. \<exists>v. m k = Some v \<and> P v} \<Longrightarrow> P v \<longrightarrow> (\<exists>u. m k = Some u \<and> P u) \<Longrightarrow> countRows (m(k \<mapsto> v)) P \<le> countRows m P"
  unfolding countRows_def by (rule card_mono) (auto split: if_splits)

lemma count_delete: "finite {k. \<exists>v. m k = Some v \<and> P v} \<Longrightarrow> countRows (m(k := None)) P \<le> countRows m P"
  unfolding countRows_def by (rule card_mono) (auto split: if_splits)

lemma count_delete_one:
  "finite {k. \<exists>v. m k = Some v \<and> P v} \<Longrightarrow> m k = Some v \<Longrightarrow> P v \<Longrightarrow> Suc (countRows (m(k := None)) P) = countRows m P"
proof -
  assume f: "finite {k. \<exists>v. m k = Some v \<and> P v}" and k: "m k = Some v" "P v"
  have "{x. \<exists>y. (m(k := None)) x = Some y \<and> P y} = {x. \<exists>y. m x = Some y \<and> P y} - {k}" by auto
  moreover have "k \<in> {x. \<exists>y. m x = Some y \<and> P y}" using k by simp
  ultimately show ?thesis unfolding countRows_def using card_Suc_Diff1 [OF f, of k] by (simp only:)
qed

subsection \<open>A table that keeps the laws\<close>

definition listRows :: "('k \<times> 'v) list \<Rightarrow> ('k \<times> 'v) list" where
  "listRows t = AList.clearjunk t"

definition listTable :: "('k \<Rightarrow> 'v \<Rightarrow> bytes list) \<Rightarrow> (('k \<times> 'v) list, 'k, 'v) table" where
  "listTable U = \<lparr>
     tGet = map_of,
     tPut = (\<lambda>t k v. if list_ex (\<lambda>(k', v'). k' \<noteq> k \<and> list_ex (\<lambda>b. b \<in> set (U k v)) (U k' v')) (listRows t)
        then None else Some (AList.update k v t)),
     tDelete = (\<lambda>t k. AList.delete k t),
     tScan = listRows,
     tIndex = (\<lambda>t E. sort_key fst (entriesOf E (listRows t))),
     tProject = (\<lambda>t E. sort_key fst (concat (map (\<lambda>(k, v). map (\<lambda>(b, w). (b, k, w)) (E k v)) (listRows t)))),
     tLookup = (\<lambda>t b. map_option fst (find (\<lambda>(k, v). b \<in> set (U k v)) (listRows t))),
     tCounter = (\<lambda>t W. sum_list (map (\<lambda>(k, v). W k v) (listRows t)))\<rparr>"

lemma listRows_iff: "(k, v) \<in> set (listRows t) \<longleftrightarrow> map_of t k = Some v"
proof -
  have "map_of (listRows t) = map_of t" by (simp add: listRows_def map_of_clearjunk)
  moreover have "distinct (map fst (listRows t))" by (simp add: listRows_def)
  ultimately show ?thesis by (metis map_of_eq_Some_iff)
qed

lemma listTable_laws: "tableLaws U (listTable U)"
  unfolding tableLaws_def
proof (intro conjI allI impI)
  show "tPut (listTable U) t k v = None \<longleftrightarrow> clashes U (tGet (listTable U) t) k v" for t k v
    by (simp add: listTable_def clashes_def list_ex_iff split_beta Bex_def disjoint_iff)
      (use listRows_iff [of _ _ t] in fastforce)
  show "tPut (listTable U) t k v = Some t' \<Longrightarrow> tGet (listTable U) t' = (tGet (listTable U) t)(k \<mapsto> v)" for t k v t'
    by (auto simp: listTable_def AList.update_conv' split: if_splits)
  show "tGet (listTable U) (tDelete (listTable U) t k) = (tGet (listTable U) t)(k := None)" for t k
    by (simp add: listTable_def AList.delete_conv')
  show "map_of (tScan (listTable U) t) = tGet (listTable U) t" "distinct (map fst (tScan (listTable U) t))" for t
    by (simp_all add: listTable_def listRows_def map_of_clearjunk)
  show "sorted (map fst (tIndex (listTable U) t E))"
    "mset (tIndex (listTable U) t E) = mset (entriesOf E (tScan (listTable U) t))" for t E
    by (simp_all add: listTable_def)
  show "sorted (map fst (tProject (listTable U) t E))"
    "mset (tProject (listTable U) t E) =
       mset (concat (map (\<lambda>(k, v). map (\<lambda>(b, w). (b, k, w)) (E k v)) (tScan (listTable U) t)))" for t E
    by (simp_all add: listTable_def)
  show "tLookup (listTable U) t b = Some k \<Longrightarrow> \<exists>v. tGet (listTable U) t k = Some v \<and> b \<in> set (U k v)" for t b k
    by (auto simp: listTable_def find_Some_iff listRows_iff [symmetric]) (metis nth_mem)
  show "tLookup (listTable U) t b = None \<Longrightarrow> tGet (listTable U) t k = Some v \<Longrightarrow> b \<notin> set (U k v)" for t b k v
    by (auto simp: listTable_def find_None_iff listRows_iff [symmetric])
  show "tCounter (listTable U) t W = sum_list (map (\<lambda>(k, v). W k v) (tScan (listTable U) t))" for t W
    by (simp add: listTable_def)
qed

end
