(* ===== verification/JobTable.thy ===== *)
theory JobTable
  imports StatusStore BoltTable
begin

text \<open>
  internal/statedb: the job rows of rows.go, their index entries of schema.go and jobs.go, which implements
  the status package's \<^verbatim>\<open>Persister\<close>. A row is a value: the JSON its codec stores it as is the table's. A
  write commits, fails, or lands and reports a failure all the same, as the outcomes left in \<open>faults\<close> say;
  with none left every write commits.
\<close>

record jobRow =
  rStarted :: time
  rEnded :: time
  rKey :: "JobKey option"
  rScope :: string
  rPhase :: string
  rCause :: string
  rOwner :: int
  rDone :: int
  rTotal :: int
  rRev :: nat
  rKind :: byte
  rState :: byte
  rOutcome :: byte
  rCancellable :: bool

definition jobRowOf :: "Job \<Rightarrow> jobRow" where
  "jobRowOf j = \<lparr>rStarted = jStarted j, rEnded = jEnded j, rKey = jKey j, rScope = jScope j, rPhase = jPhase j,
     rCause = jCause j, rOwner = jOwner j, rDone = jDone j, rTotal = jTotal j, rRev = jRev j, rKind = jKind j,
     rState = jState j, rOutcome = jOutcome j, rCancellable = jCancellable j\<rparr>"

definition jobOf :: "JobID \<Rightarrow> jobRow \<Rightarrow> Job" where
  "jobOf i r = \<lparr>jStarted = rStarted r, jEnded = rEnded r, jKey = rKey r, jID = i, jScope = rScope r, jPhase = rPhase r,
     jCause = rCause r, jOwner = rOwner r, jDone = rDone r, jTotal = rTotal r, jRev = rRev r, jKind = rKind r,
     jState = rState r, jOutcome = rOutcome r, jCancellable = rCancellable r\<rparr>"

definition enumIn :: "byte \<Rightarrow> byte \<Rightarrow> byte \<Rightarrow> bool" where
  "enumIn v lo hi \<longleftrightarrow> \<not> (v < lo \<or> hi < v)"

definition jobRowCheck :: "jobRow \<Rightarrow> bool" where
  "jobRowCheck r \<longleftrightarrow> \<not> rOwner r < BypassOwner \<and> \<not> (rState r = Done \<and> rEnded r = zeroTime) \<and>
     enumIn (rKind r) Scan Backup \<and> enumIn (rState r) Queued Done \<and> enumIn (rOutcome r) NoOutcome Interrupted"

definition userOwned :: "int \<Rightarrow> bool" where
  "userOwned owner \<longleftrightarrow> 0 < owner \<or> owner = BypassOwner"

subsection \<open>Index entries\<close>

definition jobKeyEntries :: "JobID \<Rightarrow> jobRow \<Rightarrow> bytes list" where
  "jobKeyEntries i v = (case rKey v of None \<Rightarrow> [] | Some k \<Rightarrow> [appendText (ownerBytes (rOwner v)) (kKey k)])"

definition jobOwnerEntries :: "JobID \<Rightarrow> jobRow \<Rightarrow> bytes list" where
  "jobOwnerEntries i v = [ownerBytes (rOwner v)]"

definition jobEndedEntries :: "JobID \<Rightarrow> jobRow \<Rightarrow> bytes list" where
  "jobEndedEntries i v = (if rState v \<noteq> Done then [] else [appendTime [] (rEnded v)])"

definition ownerEndedEntries :: "JobID \<Rightarrow> jobRow \<Rightarrow> bytes list" where
  "ownerEndedEntries i v = (if rState v \<noteq> Done then [] else [appendTime (ownerBytes (rOwner v)) (rEnded v)])"

definition userEndedEntries :: "JobID \<Rightarrow> jobRow \<Rightarrow> bytes list" where
  "userEndedEntries i v = (if rState v \<noteq> Done \<or> \<not> userOwned (rOwner v) then [] else [appendTime [] (rEnded v)])"

definition ownedWeight :: "JobID \<Rightarrow> jobRow \<Rightarrow> int" where
  "ownedWeight i v = (if userOwned (rOwner v) then 1 else 0)"

lemmas entries_defs = jobKeyEntries_def jobOwnerEntries_def jobEndedEntries_def ownerEndedEntries_def userEndedEntries_def

subsection \<open>Writes\<close>

record 't jobStore =
  tbl :: 't
  faults :: "commit list"

definition writeStore :: "'t jobStore \<Rightarrow> job_error + 't \<times> 'r \<Rightarrow> 't jobStore \<times> (job_error + 'r)" where
  "writeStore d res =
     (case res of Inl e \<Rightarrow> (d, Inl e)
      | Inr (t, r) \<Rightarrow>
          (case faults d of [] \<Rightarrow> (d\<lparr>tbl := t\<rparr>, Inr r)
           | Commits # fs \<Rightarrow> (d\<lparr>tbl := t, faults := fs\<rparr>, Inr r)
           | Fails # fs \<Rightarrow> (d\<lparr>faults := fs\<rparr>, Inl ErrOther)
           | Lands # fs \<Rightarrow> (d\<lparr>tbl := t, faults := fs\<rparr>, Inl ErrOther)))"

type_synonym 't jobsTable = "('t, JobID, jobRow) table"

text \<open>\<open>Put\<close> runs the codec's \<open>Append\<close>, which checks the row.\<close>

definition jobsPut :: "'t jobsTable \<Rightarrow> 't \<Rightarrow> JobID \<Rightarrow> jobRow \<Rightarrow> 't option" where
  "jobsPut T t i row = (if \<not> jobRowCheck row then None else tPut T t i row)"

definition hasPrefix :: "bytes \<Rightarrow> bytes \<Rightarrow> bool" where
  "hasPrefix p b \<longleftrightarrow> cut_prefix p b \<noteq> None"

definition jobByKey :: "'t jobsTable \<Rightarrow> 't \<Rightarrow> int \<Rightarrow> string \<Rightarrow> job_error + Job option" where
  "jobByKey T t owner key =
     (case tLookup T t (appendText (ownerBytes owner) key) of None \<Rightarrow> Inr None
      | Some i \<Rightarrow> (case tGet T t i of None \<Rightarrow> Inl ErrOther | Some row \<Rightarrow> Inr (Some (jobOf i row))))"

definition replayOf :: "'t jobsTable \<Rightarrow> 't \<Rightarrow> Job \<Rightarrow> job_error + Job option" where
  "replayOf T t j =
     (case jKey j of None \<Rightarrow> Inr None
      | Some k \<Rightarrow>
          (case jobByKey T t (jOwner j) (kKey k) of Inl e \<Rightarrow> Inl e | Inr None \<Rightarrow> Inr None
           | Inr (Some prev) \<Rightarrow>
               if map_option kFingerprint (jKey prev) \<noteq> Some (kFingerprint k) then Inl ErrKeyReused else Inr (Some prev)))"

definition evictOldest :: "'t jobsTable \<Rightarrow> (JobID \<Rightarrow> jobRow \<Rightarrow> bytes list) \<Rightarrow> bytes \<Rightarrow> 't \<Rightarrow> job_error + 't" where
  "evictOldest T E prefix t =
     (case filter (\<lambda>(b, _). hasPrefix prefix b) (tIndex T t E) of [] \<Rightarrow> Inl ErrJobCapacity
      | (_, victim) # _ \<Rightarrow> Inr (tDelete T t victim))"

definition makeRoom :: "'t jobsTable \<Rightarrow> int \<Rightarrow> JobLimits \<Rightarrow> 't \<Rightarrow> job_error + 't" where
  "makeRoom T owner lims t =
     (let prefix = ownerBytes owner;
          n = length (take (perOwner lims) (filter (\<lambda>(b, _). hasPrefix prefix b) (tIndex T t jobOwnerEntries)))
      in case (if perOwner lims \<le> n then evictOldest T ownerEndedEntries prefix t else Inr t) of
           Inl e \<Rightarrow> Inl e
         | Inr t1 \<Rightarrow>
             if \<not> userOwned owner then Inr t1
             else if tCounter T t1 ownedWeight < int (total lims) then Inr t1
             else evictOldest T userEndedEntries [] t1)"

definition insertJobTx :: "'t jobsTable \<Rightarrow> 't \<Rightarrow> Job \<Rightarrow> JobLimits \<Rightarrow> job_error + 't \<times> (Job \<times> bool)" where
  "insertJobTx T t j lims =
     (case replayOf T t j of Inl e \<Rightarrow> Inl e
      | Inr (Some prev) \<Rightarrow> Inr (t, (prev, True))
      | Inr None \<Rightarrow>
          if tGet T t (jID j) \<noteq> None then Inl ErrOther
          else case makeRoom T (jOwner j) lims t of Inl e \<Rightarrow> Inl e
             | Inr t1 \<Rightarrow>
                 (case jobsPut T t1 (jID j) (jobRowOf j) of None \<Rightarrow> Inl ErrOther
                  | Some t2 \<Rightarrow> Inr (t2, (jobOf (jID j) (jobRowOf j), False))))"

definition InsertJob :: "'t jobsTable \<Rightarrow> 't jobStore \<Rightarrow> Job \<Rightarrow> JobLimits \<Rightarrow> 't jobStore \<times> (job_error + Job \<times> bool)" where
  "InsertJob T d j lims =
     (if perOwner lims < 1 \<or> total lims < 1 then (d, Inl ErrOther) else writeStore d (insertJobTx T (tbl d) j lims))"

definition putJobTx :: "'t jobsTable \<Rightarrow> 't \<Rightarrow> Job \<Rightarrow> job_error + 't \<times> unit" where
  "putJobTx T t j =
     (case tGet T t (jID j) of None \<Rightarrow> Inl ErrOther
      | Some prev \<Rightarrow>
          if jRev j \<le> rRev prev then Inl ErrOther
          else case jobsPut T t (jID j) (jobRowOf j) of None \<Rightarrow> Inl ErrOther | Some t1 \<Rightarrow> Inr (t1, ()))"

definition PutJob :: "'t jobsTable \<Rightarrow> 't jobStore \<Rightarrow> Job \<Rightarrow> 't jobStore \<times> bool" where
  "PutJob T d j = (case writeStore d (putJobTx T (tbl d) j) of (d1, Inl _) \<Rightarrow> (d1, False) | (d1, Inr _) \<Rightarrow> (d1, True))"

definition GetJob :: "'t jobsTable \<Rightarrow> 't jobStore \<Rightarrow> JobID \<Rightarrow> Job option" where
  "GetJob T d i = map_option (jobOf i) (tGet T (tbl d) i)"

definition JobByKey :: "'t jobsTable \<Rightarrow> 't jobStore \<Rightarrow> int \<Rightarrow> string \<Rightarrow> job_error + Job option" where
  "JobByKey T d owner key = jobByKey T (tbl d) owner key"

definition UnfinishedJobs :: "'t jobsTable \<Rightarrow> 't jobStore \<Rightarrow> Job list option" where
  "UnfinishedJobs T d =
     (let most = total DefaultLimits + perOwner DefaultLimits; rows = tScan T (tbl d)
      in if most < length rows then None
         else Some (map (\<lambda>(i, v). jobOf i v) (filter (\<lambda>(i, v). rState v \<noteq> Done) rows)))"

definition DeleteJobsEndedBefore :: "'t jobsTable \<Rightarrow> 't jobStore \<Rightarrow> time \<Rightarrow> 't jobStore \<times> (job_error + nat)" where
  "DeleteJobsEndedBefore T d t =
     (let ids = map snd (filter (\<lambda>(b, _). b < appendTime [] t) (tIndex T (tbl d) jobEndedEntries))
      in writeStore d (Inr (fold (\<lambda>i x. tDelete T x i) ids (tbl d), length ids)))"

definition jobOps :: "'t jobsTable \<Rightarrow> 't jobStore persister" where
  "jobOps T = \<lparr>insertJob = InsertJob T, putJob = PutJob T, getJob = GetJob T, keyedJob = JobByKey T,
     unfinished = UnfinishedJobs T, deleteEnded = (\<lambda>d t. fst (DeleteJobsEndedBefore T d t))\<rparr>"

subsection \<open>Rows and jobs\<close>

definition rowOk :: "jobRow \<Rightarrow> bool" where
  "rowOk v \<longleftrightarrow> jobRowCheck v \<and> int64 (rOwner v) \<and> (case rKey v of None \<Rightarrow> True | Some k \<Rightarrow> textOk (kKey k))"

definition jobsInv :: "'t jobsTable \<Rightarrow> 't \<Rightarrow> bool" where
  "jobsInv T t \<longleftrightarrow>
     (\<forall>i v. tGet T t i = Some v \<longrightarrow> rowOk v \<and> \<not> clashes jobKeyEntries (tGet T t) i v) \<and>
     (\<forall>owner. countRows (tGet T t) (\<lambda>v. rOwner v = owner) \<le> perOwner DefaultLimits) \<and>
     countRows (tGet T t) (\<lambda>v. userOwned (rOwner v)) \<le> total DefaultLimits"

lemma jobOf_jobRowOf [simp]: "jobOf (jID j) (jobRowOf j) = j"
  by (simp add: jobOf_def jobRowOf_def)

lemma jobRowOf_jobOf [simp]: "jobRowOf (jobOf i r) = r"
  by (simp add: jobOf_def jobRowOf_def)

lemma jobOf_sel [simp]:
  "jID (jobOf i r) = i" "jState (jobOf i r) = rState r" "jRev (jobOf i r) = rRev r" "jOwner (jobOf i r) = rOwner r"
  "jKey (jobOf i r) = rKey r" "jEnded (jobOf i r) = rEnded r"
  by (simp_all add: jobOf_def)

lemma jobRowOf_sel [simp]:
  "rState (jobRowOf j) = jState j" "rRev (jobRowOf j) = jRev j" "rOwner (jobRowOf j) = jOwner j" "rKey (jobRowOf j) = jKey j"
  "rEnded (jobRowOf j) = jEnded j"
  by (simp_all add: jobRowOf_def)

lemma hasPrefix_iff: "hasPrefix p b \<longleftrightarrow> (\<exists>r. b = p @ r)"
  by (auto simp: hasPrefix_def cut_prefix_None_iff cut_prefix_Some)

lemma owner_prefix:
  assumes "int64 a" "int64 b"
  shows "hasPrefix (ownerBytes a) (ownerBytes b) \<longleftrightarrow> b = a" "hasPrefix (ownerBytes a) (appendTime (ownerBytes b) t) \<longleftrightarrow> b = a"
  using k_owner.put_scan [OF assms, of "[]"] k_owner.put_scan [OF assms, of "appendTime [] t"]
  by (simp_all add: hasPrefix_iff appendTime_def append_any(2) [of "ownerBytes b"])

lemma hasPrefix_Nil [simp]: "hasPrefix [] b"
  by (simp add: hasPrefix_def)

lemma clashes_delete: "clashes U (m(k := None)) i v \<Longrightarrow> clashes U m i v"
  by (auto simp: clashes_def split: if_splits)

lemma jobsInv_delete:
  assumes l: "tableLaws jobKeyEntries T" and i: "jobsInv T t" and d: "tGet T t' = (tGet T t)(k := None)"
  shows "jobsInv T t'"
proof -
  have c: "countRows (tGet T t') P \<le> countRows (tGet T t) P" for P unfolding d by (rule count_delete [OF rows_finite [OF l]])
  have "\<forall>i v. tGet T t' i = Some v \<longrightarrow> rowOk v \<and> \<not> clashes jobKeyEntries (tGet T t') i v"
    using i unfolding jobsInv_def d by (auto split: if_splits dest: clashes_delete)
  then show ?thesis using i order_trans [OF c] unfolding jobsInv_def by blast
qed

subsection \<open>Room for a record\<close>

text \<open>The rows an operation drops are ended ones.\<close>

definition dropsEnded :: "(JobID \<Rightarrow> jobRow option) \<Rightarrow> (JobID \<Rightarrow> jobRow option) \<Rightarrow> bool" where
  "dropsEnded m m' \<longleftrightarrow> (\<forall>i. m' i = m i \<or> (m' i = None \<and> (\<exists>v. m i = Some v \<and> rState v = Done)))"

lemma dropsEnded_refl [simp]: "dropsEnded m m"
  by (simp add: dropsEnded_def)

lemma dropsEnded_trans: "dropsEnded m m1 \<Longrightarrow> dropsEnded m1 m2 \<Longrightarrow> dropsEnded m m2"
  unfolding dropsEnded_def by (metis option.distinct(1))

lemma evictOldest_Inr:
  assumes "tableLaws jobKeyEntries T" "evictOldest T E p t = Inr t1"
  obtains victim v b where "tGet T t victim = Some v" "b \<in> set (E victim v)" "hasPrefix p b"
    "tGet T t1 = (tGet T t)(victim := None)"
    "\<forall>k u b'. tGet T t k = Some u \<longrightarrow> b' \<in> set (E k u) \<longrightarrow> hasPrefix p b' \<longrightarrow> b \<le> b'"
proof -
  obtain b victim rest where f: "filter (\<lambda>(b, _). hasPrefix p b) (tIndex T t E) = (b, victim) # rest" "t1 = tDelete T t victim"
    using assms(2) by (auto simp: evictOldest_def split: list.splits)
  then have "(b, victim) \<in> set (filter (\<lambda>(b, _). hasPrefix p b) (tIndex T t E))" by simp
  then have "(b, victim) \<in> set (tIndex T t E)" "hasPrefix p b" by auto
  then obtain v where "tGet T t victim = Some v" "b \<in> set (E victim v)" using table_index_set [OF assms(1)] by metis
  moreover have "\<forall>k u b'. tGet T t k = Some u \<longrightarrow> b' \<in> set (E k u) \<longrightarrow> hasPrefix p b' \<longrightarrow> b \<le> b'"
  proof (intro allI impI)
    fix k u b' assume a: "tGet T t k = Some u" "b' \<in> set (E k u)" "hasPrefix p b'"
    then have "(b', k) \<in> set (filter (\<lambda>(b, _). hasPrefix p b) (tIndex T t E))"
      using table_index_set [OF assms(1), of b' k t E] by auto
    moreover have "sorted (map fst (filter (\<lambda>(b, _). hasPrefix p b) (tIndex T t E)))"
      using table_index_sorted [OF assms(1)] sorted_filter by blast
    ultimately show "b \<le> b'" unfolding f(1) by (cases "(b', k) = (b, victim)") auto
  qed
  ultimately show ?thesis using that f(2) \<open>hasPrefix p b\<close> table_delete [OF assms(1)] by metis
qed

lemma evictOldest_Inl:
  assumes "tableLaws jobKeyEntries T" "evictOldest T E p t = Inl e"
  shows "e = ErrJobCapacity \<and> (\<forall>k u b'. tGet T t k = Some u \<longrightarrow> b' \<in> set (E k u) \<longrightarrow> \<not> hasPrefix p b')"
proof -
  have f: "filter (\<lambda>(b, _). hasPrefix p b) (tIndex T t E) = []" "e = ErrJobCapacity"
    using assms(2) by (auto simp: evictOldest_def split: list.splits)
  then show ?thesis using table_index_set [OF assms(1), of _ _ t E] by (auto simp: filter_empty_conv)
qed

lemma owner_count:
  assumes "tableLaws jobKeyEntries T" "jobsInv T t" "int64 owner"
  shows "length (filter (\<lambda>(b, _). hasPrefix (ownerBytes owner) b) (tIndex T t jobOwnerEntries))
    = countRows (tGet T t) (\<lambda>v. rOwner v = owner)"
  by (rule count_index [OF assms(1)])
    (use assms(2,3) in \<open>auto simp: jobsInv_def rowOk_def jobOwnerEntries_def owner_prefix\<close>)

lemma owned_count: "tableLaws jobKeyEntries T \<Longrightarrow>
  tCounter T t ownedWeight = int (countRows (tGet T t) (\<lambda>v. userOwned (rOwner v)))"
  by (rule count_counter) (simp_all add: ownedWeight_def)

lemma evict_ended:
  assumes l: "tableLaws jobKeyEntries T" and i: "jobsInv T t" and e: "evictOldest T E p t = Inr t1"
    and E: "\<And>k v. rState v \<noteq> Done \<Longrightarrow> E k v = []"
    and P: "\<And>k v b. tGet T t k = Some v \<Longrightarrow> b \<in> set (E k v) \<Longrightarrow> hasPrefix p b \<Longrightarrow> P v"
  shows "jobsInv T t1 \<and> dropsEnded (tGet T t) (tGet T t1) \<and> Suc (countRows (tGet T t1) P) = countRows (tGet T t) P"
proof -
  obtain victim v b where v: "tGet T t victim = Some v" "b \<in> set (E victim v)" "hasPrefix p b"
    and t1: "tGet T t1 = (tGet T t)(victim := None)"
    using evictOldest_Inr [OF l e] by metis
  have "rState v = Done" using v(2) E by (metis empty_iff empty_set)
  then have "dropsEnded (tGet T t) (tGet T t1)" using v(1) by (simp add: dropsEnded_def t1)
  then show ?thesis using jobsInv_delete [OF l i t1] count_delete_one [of "tGet T t" P, OF rows_finite [OF l] v(1) P [OF v]] t1 by simp
qed

lemma userOwned_entries:
  "rState v \<noteq> Done \<Longrightarrow> userEndedEntries k v = []" "rState v \<noteq> Done \<Longrightarrow> ownerEndedEntries k v = []"
  "b \<in> set (userEndedEntries k v) \<Longrightarrow> userOwned (rOwner v)"
  by (auto simp: entries_defs split: if_splits)

lemma ownerEnded_owner: "jobsInv T t \<Longrightarrow> int64 owner \<Longrightarrow> tGet T t k = Some v \<Longrightarrow> b \<in> set (ownerEndedEntries k v) \<Longrightarrow>
  hasPrefix (ownerBytes owner) b \<Longrightarrow> rOwner v = owner"
  using owner_prefix(2) [of owner "rOwner v"] by (auto simp: ownerEndedEntries_def jobsInv_def rowOk_def split: if_splits)

lemma makeRoom_owner:
  assumes l: "tableLaws jobKeyEntries T" and i: "jobsInv T t" and o: "int64 owner"
    and e: "evictOldest T ownerEndedEntries (ownerBytes owner) t = Inr t1" and P: "\<And>v. rOwner v = owner \<Longrightarrow> P v"
  shows "jobsInv T t1 \<and> dropsEnded (tGet T t) (tGet T t1) \<and> Suc (countRows (tGet T t1) P) = countRows (tGet T t) P"
proof (rule evict_ended [OF l i e])
  show "rState v \<noteq> Done \<Longrightarrow> ownerEndedEntries k v = []" for k v by (rule userOwned_entries(2))
  show "tGet T t k = Some v \<Longrightarrow> b \<in> set (ownerEndedEntries k v) \<Longrightarrow> hasPrefix (ownerBytes owner) b \<Longrightarrow> P v" for k v b
    by (rule P) (rule ownerEnded_owner [OF i o])
qed

lemma makeRoom_user:
  assumes l: "tableLaws jobKeyEntries T" and i: "jobsInv T t" and e: "evictOldest T userEndedEntries [] t = Inr t1"
  shows "jobsInv T t1 \<and> dropsEnded (tGet T t) (tGet T t1)
    \<and> Suc (countRows (tGet T t1) (\<lambda>v. userOwned (rOwner v))) = countRows (tGet T t) (\<lambda>v. userOwned (rOwner v))"
proof (rule evict_ended [OF l i e])
  show "rState v \<noteq> Done \<Longrightarrow> userEndedEntries k v = []" for k v by (rule userOwned_entries(1))
  show "b \<in> set (userEndedEntries k v) \<Longrightarrow> userOwned (rOwner v)" for k v b by (rule userOwned_entries(3))
qed

lemma dropsEnded_count: "tableLaws jobKeyEntries T \<Longrightarrow> dropsEnded (tGet T t) (tGet T t1) \<Longrightarrow>
  countRows (tGet T t1) P \<le> countRows (tGet T t) P"
  unfolding countRows_def dropsEnded_def by (rule card_mono [OF rows_finite]) (auto, metis option.distinct(1))

text \<open>The two stages of \<open>makeRoom\<close>.\<close>

definition ownerRoom :: "'t jobsTable \<Rightarrow> int \<Rightarrow> 't \<Rightarrow> job_error + 't" where
  "ownerRoom T owner t =
     (if perOwner DefaultLimits \<le> countRows (tGet T t) (\<lambda>v. rOwner v = owner)
      then evictOldest T ownerEndedEntries (ownerBytes owner) t else Inr t)"

definition userRoom :: "'t jobsTable \<Rightarrow> int \<Rightarrow> 't \<Rightarrow> job_error + 't" where
  "userRoom T owner t =
     (if \<not> userOwned owner \<or> countRows (tGet T t) (\<lambda>v. userOwned (rOwner v)) < total DefaultLimits then Inr t
      else evictOldest T userEndedEntries [] t)"

lemma makeRoom_stages:
  assumes l: "tableLaws jobKeyEntries T" and i: "jobsInv T t" and o: "int64 owner"
  shows "makeRoom T owner DefaultLimits t = (case ownerRoom T owner t of Inl e \<Rightarrow> Inl e | Inr t1 \<Rightarrow> userRoom T owner t1)"
proof -
  have "perOwner DefaultLimits \<le> length (take (perOwner DefaultLimits)
        (filter (\<lambda>(b, _). hasPrefix (ownerBytes owner) b) (tIndex T t jobOwnerEntries)))
    \<longleftrightarrow> perOwner DefaultLimits \<le> countRows (tGet T t) (\<lambda>v. rOwner v = owner)"
    by (simp add: owner_count [OF l i o])
  then show ?thesis
    by (auto simp: makeRoom_def ownerRoom_def userRoom_def Let_def owned_count [OF l] split: sum.split)
qed

lemma makeRoom_Inr:
  assumes l: "tableLaws jobKeyEntries T" and i: "jobsInv T t" and o: "int64 owner"
    and m: "makeRoom T owner DefaultLimits t = Inr t2"
  shows "jobsInv T t2 \<and> dropsEnded (tGet T t) (tGet T t2)
    \<and> countRows (tGet T t2) (\<lambda>v. rOwner v = owner) < perOwner DefaultLimits
    \<and> (userOwned owner \<longrightarrow> countRows (tGet T t2) (\<lambda>v. userOwned (rOwner v)) < total DefaultLimits)"
proof -
  obtain t1 where t1: "ownerRoom T owner t = Inr t1" "userRoom T owner t1 = Inr t2"
    using m unfolding makeRoom_stages [OF l i o] by (auto split: sum.splits)
  have a: "jobsInv T t1 \<and> dropsEnded (tGet T t) (tGet T t1) \<and> countRows (tGet T t1) (\<lambda>v. rOwner v = owner) < perOwner DefaultLimits"
  proof (cases "perOwner DefaultLimits \<le> countRows (tGet T t) (\<lambda>v. rOwner v = owner)")
    case True
    with t1(1) have "evictOldest T ownerEndedEntries (ownerBytes owner) t = Inr t1" by (simp add: ownerRoom_def)
    note makeRoom_owner [OF l i o this, of "\<lambda>v. rOwner v = owner"]
    moreover have "countRows (tGet T t) (\<lambda>v. rOwner v = owner) \<le> perOwner DefaultLimits" using i by (simp add: jobsInv_def)
    ultimately show ?thesis by simp
  next
    case False
    with t1(1) i show ?thesis by (simp add: ownerRoom_def)
  qed
  have b: "jobsInv T t2 \<and> dropsEnded (tGet T t1) (tGet T t2)
    \<and> (userOwned owner \<longrightarrow> countRows (tGet T t2) (\<lambda>v. userOwned (rOwner v)) < total DefaultLimits)"
  proof (cases "\<not> userOwned owner \<or> countRows (tGet T t1) (\<lambda>v. userOwned (rOwner v)) < total DefaultLimits")
    case True
    with t1(2) have "t2 = t1" by (simp add: userRoom_def)
    then show ?thesis using a True by auto
  next
    case False
    with t1(2) have "evictOldest T userEndedEntries [] t1 = Inr t2" by (simp add: userRoom_def)
    note makeRoom_user [OF l conjunct1 [OF a] this]
    moreover have "countRows (tGet T t1) (\<lambda>v. userOwned (rOwner v)) \<le> total DefaultLimits" using a by (simp add: jobsInv_def)
    ultimately show ?thesis by simp
  qed
  have "countRows (tGet T t2) (\<lambda>v. rOwner v = owner) \<le> countRows (tGet T t1) (\<lambda>v. rOwner v = owner)"
    using b by (intro dropsEnded_count [OF l]) simp
  then have "countRows (tGet T t2) (\<lambda>v. rOwner v = owner) < perOwner DefaultLimits" using a by simp
  moreover have "dropsEnded (tGet T t) (tGet T t2)" using a b by (blast intro: dropsEnded_trans)
  ultimately show ?thesis using b by simp
qed

lemma rowOk_sel: "rowOk v \<Longrightarrow> int64 (rOwner v)" "rowOk v \<Longrightarrow> rKey v = Some k \<Longrightarrow> textOk (kKey k)"
  by (simp_all add: rowOk_def)

lemma jobsInv_row: "jobsInv T t \<Longrightarrow> tGet T t i = Some v \<Longrightarrow> rowOk v"
  by (simp add: jobsInv_def)

text \<open>What \<open>makeRoom\<close> gives up: at a full bound the oldest ended record in it, by the \<^verbatim>\<open>UnixNano\<close> of its end, and
  nothing else; first the owner's bound, then the users'.\<close>

definition unixNano :: "time \<Rightarrow> int" where
  "unixNano t = sint (word_of_int t :: 64 word)"

definition oldestEnded :: "(JobID \<Rightarrow> jobRow option) \<Rightarrow> (jobRow \<Rightarrow> bool) \<Rightarrow> JobID \<Rightarrow> bool" where
  "oldestEnded m P i \<longleftrightarrow> (\<exists>v. m i = Some v \<and> P v \<and> rState v = Done
     \<and> \<not> (\<exists>k u. m k = Some u \<and> P u \<and> rState u = Done \<and> unixNano (rEnded u) < unixNano (rEnded v)))"

definition boundMade :: "nat \<Rightarrow> (jobRow \<Rightarrow> bool) \<Rightarrow> (JobID \<Rightarrow> jobRow option) \<Rightarrow> (JobID \<Rightarrow> jobRow option) \<Rightarrow> bool" where
  "boundMade n P m m' \<longleftrightarrow> (if countRows m P < n then m' = m else \<exists>i. oldestEnded m P i \<and> m' = m(i := None))"

definition roomMade :: "int \<Rightarrow> (JobID \<Rightarrow> jobRow option) \<Rightarrow> (JobID \<Rightarrow> jobRow option) \<Rightarrow> bool" where
  "roomMade owner m m' \<longleftrightarrow> (\<exists>m1. boundMade 1000 (\<lambda>v. rOwner v = owner) m m1 \<and>
     (if userOwned owner then boundMade 10000 (\<lambda>v. userOwned (rOwner v)) m1 m' else m' = m1))"

lemma time_nano: "appendTime [] t < appendTime [] u \<longleftrightarrow> unixNano t < unixNano u"
proof -
  have a: "appendTime [] t = appendTime [] (unixNano t)" for t by (simp add: appendTime_def unixNano_def)
  have r: "int64 (unixNano t)" for t
    using sint_greater_eq [of "word_of_int t :: 64 word"] sint_less [of "word_of_int t :: 64 word"] by (simp add: unixNano_def int64_def)
  show ?thesis unfolding a [of t] a [of u] by (rule time_less [OF r r])
qed

lemma evictOldest_made:
  assumes l: "tableLaws jobKeyEntries T" and e: "evictOldest T E p t = Inr t1"
    and E: "\<And>k v b. tGet T t k = Some v \<Longrightarrow> b \<in> set (E k v) \<and> hasPrefix p b \<longleftrightarrow> P v \<and> rState v = Done \<and> b = p @ appendTime [] (rEnded v)"
  shows "\<exists>i. oldestEnded (tGet T t) P i \<and> tGet T t1 = (tGet T t)(i := None)"
proof -
  obtain i v b where v: "tGet T t i = Some v" "b \<in> set (E i v)" "hasPrefix p b" and t1: "tGet T t1 = (tGet T t)(i := None)"
    and least: "\<forall>k u b'. tGet T t k = Some u \<longrightarrow> b' \<in> set (E k u) \<longrightarrow> hasPrefix p b' \<longrightarrow> b \<le> b'"
    using evictOldest_Inr [OF l e] .
  have b: "P v" "rState v = Done" "b = p @ appendTime [] (rEnded v)" using E [OF v(1)] v(2,3) by blast+
  have "\<not> unixNano (rEnded u) < unixNano (rEnded v)" if u: "tGet T t k = Some u" "P u" "rState u = Done" for k u
  proof -
    have "b \<le> p @ appendTime [] (rEnded u)" using least u(1) E [OF u(1), of "p @ appendTime [] (rEnded u)"] u(2,3) by blast
    then have "appendTime [] (rEnded v) \<le> appendTime [] (rEnded u)" unfolding b(3) prefix_le .
    then show ?thesis unfolding time_nano [symmetric] not_less .
  qed
  then show ?thesis using v(1) b t1 unfolding oldestEnded_def by blast
qed

lemma makeRoom_made:
  assumes l: "tableLaws jobKeyEntries T" and i: "jobsInv T t" and o: "int64 owner"
    and m: "makeRoom T owner DefaultLimits t = Inr t2"
  shows "roomMade owner (tGet T t) (tGet T t2)"
proof -
  obtain t1 where t1: "ownerRoom T owner t = Inr t1" "userRoom T owner t1 = Inr t2"
    using m unfolding makeRoom_stages [OF l i o] by (auto split: sum.splits)
  have d: "perOwner DefaultLimits = 1000" "total DefaultLimits = 10000" by (simp_all add: DefaultLimits_def)
  have "boundMade 1000 (\<lambda>v. rOwner v = owner) (tGet T t) (tGet T t1)"
  proof (cases "countRows (tGet T t) (\<lambda>v. rOwner v = owner) < 1000")
    case True
    then show ?thesis using t1(1) by (simp add: boundMade_def ownerRoom_def d)
  next
    case False
    then have e: "evictOldest T ownerEndedEntries (ownerBytes owner) t = Inr t1" using t1(1) by (simp add: ownerRoom_def d)
    have "b \<in> set (ownerEndedEntries k v) \<and> hasPrefix (ownerBytes owner) b \<longleftrightarrow>
        rOwner v = owner \<and> rState v = Done \<and> b = ownerBytes owner @ appendTime [] (rEnded v)" if "tGet T t k = Some v" for k v b
    proof -
      have a: "appendTime (ownerBytes (rOwner v)) (rEnded v) = ownerBytes (rOwner v) @ appendTime [] (rEnded v)"
        by (simp add: appendTime_def append_any(2) [of "ownerBytes (rOwner v)"])
      show ?thesis using owner_prefix(2) [OF o rowOk_sel(1) [OF jobsInv_row [OF i that]], of "rEnded v"]
        by (cases "rState v = Done") (auto simp: ownerEndedEntries_def a)
    qed
    from evictOldest_made [OF l e this] show ?thesis using False by (simp add: boundMade_def)
  qed
  moreover have "if userOwned owner then boundMade 10000 (\<lambda>v. userOwned (rOwner v)) (tGet T t1) (tGet T t2) else tGet T t2 = tGet T t1"
  proof (cases "\<not> userOwned owner \<or> countRows (tGet T t1) (\<lambda>v. userOwned (rOwner v)) < 10000")
    case True
    then show ?thesis using t1(2) by (simp add: boundMade_def userRoom_def d)
  next
    case False
    then have e: "evictOldest T userEndedEntries [] t1 = Inr t2" using t1(2) by (simp add: userRoom_def d)
    have "b \<in> set (userEndedEntries k v) \<and> hasPrefix [] b \<longleftrightarrow> userOwned (rOwner v) \<and> rState v = Done \<and> b = [] @ appendTime [] (rEnded v)" for k v b
      by (auto simp: userEndedEntries_def)
    from evictOldest_made [OF l e this] show ?thesis using False by (simp add: boundMade_def)
  qed
  ultimately show ?thesis unfolding roomMade_def by blast
qed

text \<open>A refusal for capacity: every record in a full bound is unfinished.\<close>

definition fullUnfinished :: "(JobID \<Rightarrow> jobRow option) \<Rightarrow> (jobRow \<Rightarrow> bool) \<Rightarrow> nat \<Rightarrow> bool" where
  "fullUnfinished m P n \<longleftrightarrow> n \<le> countRows m P \<and> (\<forall>i v. m i = Some v \<longrightarrow> P v \<longrightarrow> rState v \<noteq> Done)"

lemma makeRoom_Inl:
  assumes l: "tableLaws jobKeyEntries T" and i: "jobsInv T t" and o: "int64 owner"
    and m: "makeRoom T owner DefaultLimits t = Inl e"
  shows "e = ErrJobCapacity \<and> (fullUnfinished (tGet T t) (\<lambda>v. rOwner v = owner) (perOwner DefaultLimits)
    \<or> (userOwned owner \<and> fullUnfinished (tGet T t) (\<lambda>v. userOwned (rOwner v)) (total DefaultLimits)))"
proof (cases "ownerRoom T owner t")
  case (Inl e')
  then have e: "evictOldest T ownerEndedEntries (ownerBytes owner) t = Inl e'"
    and n: "perOwner DefaultLimits \<le> countRows (tGet T t) (\<lambda>v. rOwner v = owner)"
    by (auto simp: ownerRoom_def split: if_splits)
  have "\<forall>i v. tGet T t i = Some v \<longrightarrow> rOwner v = owner \<longrightarrow> rState v \<noteq> Done"
    using evictOldest_Inl [OF l e] owner_prefix(2) [OF o o] unfolding ownerEndedEntries_def by force
  then show ?thesis using m Inl n evictOldest_Inl [OF l e]
    unfolding makeRoom_stages [OF l i o] by (simp add: fullUnfinished_def)
next
  case (Inr t1)
  then have u: "userRoom T owner t1 = Inl e" using m unfolding makeRoom_stages [OF l i o] by simp
  then have e: "evictOldest T userEndedEntries [] t1 = Inl e" and n: "userOwned owner"
    "total DefaultLimits \<le> countRows (tGet T t1) (\<lambda>v. userOwned (rOwner v))"
    by (auto simp: userRoom_def split: if_splits)
  have un: "\<forall>i v. tGet T t1 i = Some v \<longrightarrow> userOwned (rOwner v) \<longrightarrow> rState v \<noteq> Done"
    using evictOldest_Inl [OF l e] unfolding userEndedEntries_def by force
  have t1: "t1 = t"
  proof (rule ccontr)
    assume "t1 \<noteq> t"
    then have e1: "evictOldest T ownerEndedEntries (ownerBytes owner) t = Inr t1"
      using Inr by (auto simp: ownerRoom_def split: if_splits)
    note makeRoom_owner [OF l i o this, of "\<lambda>v. userOwned (rOwner v)"]
    then have "Suc (countRows (tGet T t1) (\<lambda>v. userOwned (rOwner v))) = countRows (tGet T t) (\<lambda>v. userOwned (rOwner v))" using n(1) by simp
    moreover have "countRows (tGet T t) (\<lambda>v. userOwned (rOwner v)) \<le> total DefaultLimits" using i by (simp add: jobsInv_def)
    ultimately show False using n(2) by simp
  qed
  show ?thesis using e n un evictOldest_Inl [OF l e] by (simp add: fullUnfinished_def t1)
qed

subsection \<open>The transactions\<close>

lemma textKey_inj:
  assumes "int64 a" "int64 b" "textOk s" "textOk t"
  shows "appendText (ownerBytes a) s = appendText (ownerBytes b) t \<longleftrightarrow> a = b \<and> s = t"
proof
  assume "appendText (ownerBytes a) s = appendText (ownerBytes b) t"
  then have e: "ownerBytes a @ appendText [] s = ownerBytes b @ appendText [] t"
    by (simp add: append_any(1) [of "ownerBytes a"] append_any(1) [of "ownerBytes b"])
  then show "a = b \<and> s = t" using k_owner.put_inj [OF assms(1,2) e] k_text.put_inj [OF assms(3,4), of "[]" "[]"] by simp
qed simp

lemma jobByKey_cases:
  assumes l: "tableLaws jobKeyEntries T" and i: "jobsInv T t" and o: "int64 owner" "textOk key"
  shows "(jobByKey T t owner key = Inr None \<and>
      (\<forall>i v k. tGet T t i = Some v \<longrightarrow> rKey v = Some k \<longrightarrow> \<not> (rOwner v = owner \<and> kKey k = key)))
    \<or> (\<exists>i v k. jobByKey T t owner key = Inr (Some (jobOf i v)) \<and> tGet T t i = Some v \<and> rKey v = Some k
        \<and> rOwner v = owner \<and> kKey k = key)"
proof (cases "tLookup T t (appendText (ownerBytes owner) key)")
  case None
  have "\<not> (rOwner v = owner \<and> kKey k = key)" if "tGet T t i = Some v" "rKey v = Some k" for i v k
    using table_lookup_None [OF l None that(1)] that(2) by (auto simp: jobKeyEntries_def)
  then show ?thesis by (simp add: jobByKey_def None)
next
  case (Some i)
  then obtain v where v: "tGet T t i = Some v" "appendText (ownerBytes owner) key \<in> set (jobKeyEntries i v)"
    using table_lookup [OF l] by blast
  then obtain k where k: "rKey v = Some k" "appendText (ownerBytes owner) key = appendText (ownerBytes (rOwner v)) (kKey k)"
    by (cases "rKey v") (simp_all add: jobKeyEntries_def)
  have "int64 (rOwner v)" "textOk (kKey k)" using rowOk_sel [OF jobsInv_row [OF i v(1)]] k(1) by simp_all
  then have e: "rOwner v = owner" "kKey k = key" using k(2) textKey_inj [of owner "rOwner v" key "kKey k"] o by simp_all
  have "jobByKey T t owner key = Inr (Some (jobOf i v))" using v(1) by (simp add: jobByKey_def Some)
  then show ?thesis using v(1) k(1) e by blast
qed

lemma put_count:
  assumes l: "tableLaws jobKeyEntries T" and p: "tPut T t i row = Some t1"
    and c: "countRows (tGet T t) P \<le> n" "P row \<Longrightarrow> (\<exists>u. tGet T t i = Some u \<and> P u) \<or> countRows (tGet T t) P < n"
  shows "countRows (tGet T t1) P \<le> n"
proof (cases "P row \<longrightarrow> (\<exists>u. tGet T t i = Some u \<and> P u)")
  case True
  then show ?thesis using count_put_same [OF rows_finite [OF l] True] c(1) by (simp add: table_put [OF l p])
next
  case False
  then have "countRows (tGet T t) P < n" using c(2) by blast
  then show ?thesis using count_put [of "tGet T t" P, OF rows_finite [OF l], of i row] by (simp add: table_put [OF l p])
qed

lemma clashes_sym: "clashes U m i v \<Longrightarrow> \<exists>k u. k \<noteq> i \<and> m k = Some u \<and> set (U k u) \<inter> set (U i v) \<noteq> {}"
  by (auto simp: clashes_def)

lemma jobsInv_put:
  assumes l: "tableLaws jobKeyEntries T" and i: "jobsInv T t" and p: "tPut T t i row = Some t1" and ok: "rowOk row"
    and o: "(\<exists>u. tGet T t i = Some u \<and> rOwner u = rOwner row) \<or>
      (countRows (tGet T t) (\<lambda>v. rOwner v = rOwner row) < perOwner DefaultLimits \<and>
       (userOwned (rOwner row) \<longrightarrow> countRows (tGet T t) (\<lambda>v. userOwned (rOwner v)) < total DefaultLimits))"
  shows "jobsInv T t1"
  unfolding jobsInv_def
proof (intro conjI allI)
  note t1 = table_put [OF l p]
  have n: "\<not> clashes jobKeyEntries (tGet T t) i row" using table_put_None [OF l, of t i row] p by simp
  show "tGet T t1 k = Some v \<longrightarrow> rowOk v \<and> \<not> clashes jobKeyEntries (tGet T t1) k v" for k v
  proof (cases "k = i")
    case True
    then show ?thesis using n ok by (auto simp: t1 clashes_def split: if_splits)
  next
    case False
    show ?thesis
    proof
      assume "tGet T t1 k = Some v"
      then have k: "tGet T t k = Some v" using False by (simp add: t1)
      then have a: "rowOk v" "\<not> clashes jobKeyEntries (tGet T t) k v" using i by (auto simp: jobsInv_def)
      have "set (jobKeyEntries k v) \<inter> set (jobKeyEntries i row) = {}" using n k False by (auto simp: clashes_def)
      then show "rowOk v \<and> \<not> clashes jobKeyEntries (tGet T t1) k v" using a by (auto simp: t1 clashes_def split: if_splits)
    qed
  qed
  have b: "countRows (tGet T t) (\<lambda>v. rOwner v = owner) \<le> perOwner DefaultLimits"
    "countRows (tGet T t) (\<lambda>v. userOwned (rOwner v)) \<le> total DefaultLimits" for owner using i by (simp_all add: jobsInv_def)
  show "countRows (tGet T t1) (\<lambda>v. rOwner v = owner) \<le> perOwner DefaultLimits" for owner
    by (rule put_count [OF l p b(1)]) (use o in blast)
  show "countRows (tGet T t1) (\<lambda>v. userOwned (rOwner v)) \<le> total DefaultLimits"
    by (rule put_count [OF l p b(2)]) (use o in metis)
qed

lemma jobsPut_Some: "jobsPut T t i row = Some t1 \<Longrightarrow> tPut T t i row = Some t1"
  by (simp add: jobsPut_def split: if_splits)

text \<open>What a record's insertion leaves.\<close>

definition inserted :: "(JobID \<Rightarrow> jobRow option) \<Rightarrow> JobID \<Rightarrow> jobRow \<Rightarrow> (JobID \<Rightarrow> jobRow option) \<Rightarrow> bool" where
  "inserted m i row m' \<longleftrightarrow> m i = None \<and> (\<exists>m1. dropsEnded m m1 \<and> m' = m1(i \<mapsto> row))"

lemma insertJobTx_new:
  assumes l: "tableLaws jobKeyEntries T" and i: "jobsInv T t" and ok: "rowOk (jobRowOf j)"
    and x: "insertJobTx T t j DefaultLimits = Inr (t2, (st, False))"
  shows "jobsInv T t2 \<and> st = j \<and> inserted (tGet T t) (jID j) (jobRowOf j) (tGet T t2)"
proof -
  obtain t1 where t1: "tGet T t (jID j) = None" "makeRoom T (jOwner j) DefaultLimits t = Inr t1"
    "jobsPut T t1 (jID j) (jobRowOf j) = Some t2" "st = j"
    using x unfolding insertJobTx_def
    by (cases "replayOf T t j"; simp split: option.splits if_splits; cases "makeRoom T (jOwner j) DefaultLimits t"; simp split: option.splits)
  have o: "int64 (jOwner j)" using ok by (simp add: rowOk_def)
  note m = makeRoom_Inr [OF l i o t1(2)]
  note p = jobsPut_Some [OF t1(3)]
  have "jobsInv T t2" by (rule jobsInv_put [OF l conjunct1 [OF m] p ok]) (use m in simp)
  then show ?thesis using m t1 table_put [OF l p] by (auto simp: inserted_def)
qed

lemma insertJobTx_replay:
  assumes l: "tableLaws jobKeyEntries T" and i: "jobsInv T t" and ok: "rowOk (jobRowOf j)"
    and x: "insertJobTx T t j DefaultLimits = Inr (t2, (st, True))"
  shows "t2 = t \<and> (\<exists>v. tGet T t (jID st) = Some v \<and> st = jobOf (jID st) v) \<and> jOwner st = jOwner j \<and> jKey st = jKey j"
proof -
  have r: "replayOf T t j = Inr (Some st)" "t2 = t"
    using x unfolding insertJobTx_def
    by (cases "replayOf T t j"; simp split: option.splits if_splits; cases "makeRoom T (jOwner j) DefaultLimits t"; simp)+
  obtain k where k: "jKey j = Some k" "jobByKey T t (jOwner j) (kKey k) = Inr (Some st)"
    "map_option kFingerprint (jKey st) = Some (kFingerprint k)"
    using r(1) by (auto simp: replayOf_def split: sum.splits option.splits if_splits)
  have "int64 (jOwner j)" "textOk (kKey k)" using ok k(1) by (auto simp: rowOk_def)
  from jobByKey_cases [OF l i this] k(2) obtain n v k' where
    n: "st = jobOf n v" "tGet T t n = Some v" "rKey v = Some k'" "rOwner v = jOwner j" "kKey k' = kKey k" by auto
  moreover from n k(3) have "kFingerprint k' = kFingerprint k" by simp
  ultimately show ?thesis using r(2) k(1) by (auto intro: JobKey.equality)
qed

subsection \<open>The operations\<close>

lemma writeStore_cases:
  assumes "writeStore d res = (d', r)"
  shows "(tbl d' = tbl d \<and> (\<exists>e. r = Inl e)) \<or> (\<exists>t x. res = Inr (t, x) \<and> tbl d' = t \<and> (r = Inr x \<or> r = Inl ErrOther))"
  using assms unfolding writeStore_def
  by (cases res; cases "faults d"; simp split: prod.splits commit.splits) auto

lemma writeStore_calm: "faults d = [] \<Longrightarrow> writeStore d (Inr (t, x)) = (d\<lparr>tbl := t\<rparr>, Inr x)"
  by (simp add: writeStore_def)

lemma InsertJob_store:
  assumes l: "tableLaws jobKeyEntries T" and i: "jobsInv T (tbl d)" and ok: "rowOk (jobRowOf j)"
    and x: "InsertJob T d j DefaultLimits = (d', r)"
  shows "jobsInv T (tbl d') \<and>
    (case r of
       Inl _ \<Rightarrow> tGet T (tbl d') = tGet T (tbl d) \<or> inserted (tGet T (tbl d)) (jID j) (jobRowOf j) (tGet T (tbl d'))
     | Inr (st, False) \<Rightarrow> st = j \<and> inserted (tGet T (tbl d)) (jID j) (jobRowOf j) (tGet T (tbl d'))
     | Inr (st, True) \<Rightarrow> tGet T (tbl d') = tGet T (tbl d) \<and> (\<exists>v. tGet T (tbl d) (jID st) = Some v \<and> st = jobOf (jID st) v)
         \<and> jOwner st = jOwner j \<and> jKey st = jKey j)"
proof -
  have w: "writeStore d (insertJobTx T (tbl d) j DefaultLimits) = (d', r)"
    using x by (simp add: InsertJob_def DefaultLimits_def)
  from writeStore_cases [OF w] show ?thesis
  proof (elim disjE exE conjE)
    fix e assume "tbl d' = tbl d" "r = Inl e"
    then show ?thesis using i by simp
  next
    fix t x assume a: "insertJobTx T (tbl d) j DefaultLimits = Inr (t, x)" "tbl d' = t" "r = Inr x"
    then show ?thesis using insertJobTx_new [OF l i ok] insertJobTx_replay [OF l i ok] i by (cases x; cases "snd x") auto
  next
    fix t x assume a: "insertJobTx T (tbl d) j DefaultLimits = Inr (t, x)" "tbl d' = t" "r = Inl ErrOther"
    then show ?thesis using insertJobTx_new [OF l i ok] insertJobTx_replay [OF l i ok] i by (cases x; cases "snd x") auto
  qed
qed

lemma putJobTx_Inr:
  assumes "putJobTx T t j = Inr (t', u)"
  obtains v where "tGet T t (jID j) = Some v" "rRev v < jRev j" "tPut T t (jID j) (jobRowOf j) = Some t'"
  using assms unfolding putJobTx_def
  by (cases "tGet T t (jID j)"; simp split: if_splits option.splits) (metis jobsPut_Some not_le)

lemma PutJob_store:
  assumes l: "tableLaws jobKeyEntries T" and i: "jobsInv T (tbl d)" and ok: "rowOk (jobRowOf j)"
    and o: "\<And>v. tGet T (tbl d) (jID j) = Some v \<Longrightarrow> rOwner v = jOwner j" and x: "PutJob T d j = (d', b)"
  shows "jobsInv T (tbl d') \<and> ((tGet T (tbl d') = tGet T (tbl d) \<and> \<not> b) \<or>
    (\<exists>v. tGet T (tbl d) (jID j) = Some v \<and> rRev v < jRev j \<and> tGet T (tbl d') = (tGet T (tbl d))(jID j \<mapsto> jobRowOf j)))"
proof -
  obtain r where w: "writeStore d (putJobTx T (tbl d) j) = (d', r)" "b = (\<exists>y. r = Inr y)"
    using x unfolding PutJob_def by (auto split: prod.splits sum.splits)
  have key: "jobsInv T t \<and> (\<exists>v. tGet T (tbl d) (jID j) = Some v \<and> rRev v < jRev j \<and>
      tGet T t = (tGet T (tbl d))(jID j \<mapsto> jobRowOf j))" if a: "putJobTx T (tbl d) j = Inr (t, u)" for t u
  proof -
    obtain v where v: "tGet T (tbl d) (jID j) = Some v" "rRev v < jRev j" "tPut T (tbl d) (jID j) (jobRowOf j) = Some t"
      using putJobTx_Inr [OF a] .
    have "jobsInv T t" by (rule jobsInv_put [OF l i v(3) ok]) (use o [OF v(1)] v(1) in simp)
    then show ?thesis using v table_put [OF l v(3)] by simp
  qed
  show ?thesis
  proof (cases "tbl d' = tbl d \<and> (\<exists>e. r = Inl e)")
    case True
    then show ?thesis using i w(2) by auto
  next
    case False
    then obtain t u where "putJobTx T (tbl d) j = Inr (t, u)" "tbl d' = t" using writeStore_cases [OF w(1)] by blast
    with key show ?thesis by blast
  qed
qed

lemma PutJob_calm:
  assumes l: "tableLaws jobKeyEntries T" and i: "jobsInv T (tbl d)" and ok: "rowOk (jobRowOf j)" and c: "faults d = []"
    and v: "tGet T (tbl d) (jID j) = Some v" "rRev v < jRev j" "rOwner v = jOwner j" "rKey v = jKey j"
  shows "\<exists>d'. PutJob T d j = (d', True) \<and> faults d' = []"
proof -
  have "\<not> clashes jobKeyEntries (tGet T (tbl d)) (jID j) v" using i v(1) by (simp add: jobsInv_def)
  then have "\<not> clashes jobKeyEntries (tGet T (tbl d)) (jID j) (jobRowOf j)" using v(3,4)
    by (simp add: clashes_def jobKeyEntries_def)
  then obtain t' where "tPut T (tbl d) (jID j) (jobRowOf j) = Some t'" using table_put_None [OF l] by blast
  then have "putJobTx T (tbl d) j = Inr (t', ())" using v ok by (simp add: putJobTx_def jobsPut_def rowOk_def)
  then show ?thesis by (simp add: PutJob_def writeStore_calm [OF c] c)
qed

lemma fold_delete:
  assumes "tableLaws jobKeyEntries T"
  shows "tGet T (fold (\<lambda>i x. tDelete T x i) ids t) i = (if i \<in> set ids then None else tGet T t i)"
proof (induction ids arbitrary: t)
  case (Cons k ids)
  then show ?case by (simp add: table_delete [OF assms])
qed simp

lemma fold_delete_inv:
  assumes "tableLaws jobKeyEntries T"
  shows "jobsInv T t \<Longrightarrow> jobsInv T (fold (\<lambda>i x. tDelete T x i) ids t)"
proof (induction ids arbitrary: t)
  case (Cons k ids)
  show ?case using Cons.IH [OF jobsInv_delete [OF assms Cons.prems table_delete [OF assms]]] by simp
qed simp

lemma DeleteJobsEndedBefore_store:
  assumes l: "tableLaws jobKeyEntries T" and i: "jobsInv T (tbl d)" and x: "DeleteJobsEndedBefore T d t = (d', r)"
  shows "jobsInv T (tbl d') \<and> dropsEnded (tGet T (tbl d)) (tGet T (tbl d'))"
proof -
  define ids where "ids = map snd (filter (\<lambda>(b, _). b < appendTime [] t) (tIndex T (tbl d) jobEndedEntries))"
  have w: "writeStore d (Inr (fold (\<lambda>i x. tDelete T x i) ids (tbl d), length ids)) = (d', r)"
    using x by (simp add: DeleteJobsEndedBefore_def ids_def)
  have "\<exists>v. tGet T (tbl d) k = Some v \<and> rState v = Done" if "k \<in> set ids" for k
  proof -
    from that obtain b where "(b, k) \<in> set (tIndex T (tbl d) jobEndedEntries)" by (auto simp: ids_def)
    then show ?thesis using table_index_set [OF l] by (fastforce simp: jobEndedEntries_def split: if_splits)
  qed
  then have "dropsEnded (tGet T (tbl d)) (tGet T (fold (\<lambda>i x. tDelete T x i) ids (tbl d)))"
    by (auto simp: dropsEnded_def fold_delete [OF l])
  then show ?thesis using writeStore_cases [OF w] fold_delete_inv [OF l i] i by auto
qed

lemma rows_bound:
  assumes l: "tableLaws jobKeyEntries T" and i: "jobsInv T t"
  shows "length (tScan T t) \<le> total DefaultLimits + perOwner DefaultLimits"
proof -
  let ?m = "tGet T t"
  have "BypassOwner \<le> rOwner v" if "?m k = Some v" for k v
    using jobsInv_row [OF i that] by (simp add: rowOk_def jobRowCheck_def)
  then have "{k. \<exists>v. ?m k = Some v \<and> True} \<subseteq> {k. \<exists>v. ?m k = Some v \<and> userOwned (rOwner v)} \<union> {k. \<exists>v. ?m k = Some v \<and> rOwner v = SystemOwner}"
    by (force simp: userOwned_def BypassOwner_def SystemOwner_def)
  then have "countRows ?m (\<lambda>_. True) \<le> countRows ?m (\<lambda>v. userOwned (rOwner v)) + countRows ?m (\<lambda>v. rOwner v = SystemOwner)"
    unfolding countRows_def using rows_finite [OF l] by (intro order_trans [OF card_mono card_Un_le]) auto
  also have "\<dots> \<le> total DefaultLimits + perOwner DefaultLimits" using i by (simp add: jobsInv_def add_mono)
  finally show ?thesis by (simp add: count_scan [OF l])
qed

lemma UnfinishedJobs_store:
  assumes l: "tableLaws jobKeyEntries T" and i: "jobsInv T (tbl d)"
  shows "\<exists>js. UnfinishedJobs T d = Some js \<and> distinct (map jID js) \<and>
    (\<forall>j. j \<in> set js \<longleftrightarrow> GetJob T d (jID j) = Some j \<and> jState j \<noteq> Done)"
proof -
  define js where "js = map (\<lambda>(i, v). jobOf i v) (filter (\<lambda>(i, v). rState v \<noteq> Done) (tScan T (tbl d)))"
  have u: "UnfinishedJobs T d = Some js" using rows_bound [OF l i] by (simp add: UnfinishedJobs_def js_def Let_def)
  have "map jID js = map fst (filter (\<lambda>(i, v). rState v \<noteq> Done) (tScan T (tbl d)))" by (simp add: js_def split_beta comp_def)
  then have d: "distinct (map jID js)" using table_scan_distinct [OF l, of "tbl d"]
    by (auto simp: distinct_map intro: inj_on_subset)
  have "j \<in> set js \<longleftrightarrow> GetJob T d (jID j) = Some j \<and> jState j \<noteq> Done" for j
  proof -
    have "j \<in> set js \<longleftrightarrow> (\<exists>k v. tGet T (tbl d) k = Some v \<and> rState v \<noteq> Done \<and> j = jobOf k v)"
      using table_rows [OF l, where t = "tbl d"] by (force simp: js_def)
    moreover have "(\<exists>k v. tGet T (tbl d) k = Some v \<and> rState v \<noteq> Done \<and> j = jobOf k v) \<longleftrightarrow>
        (\<exists>v. tGet T (tbl d) (jID j) = Some v \<and> jState j \<noteq> Done \<and> j = jobOf (jID j) v)" by (metis jobOf_sel(1,2))
    ultimately show ?thesis by (auto simp: GetJob_def)
  qed
  then show ?thesis using u d by blast
qed

lemma replayOf_Inl:
  assumes l: "tableLaws jobKeyEntries T" and i: "jobsInv T t" and ok: "rowOk (jobRowOf j)" and x: "replayOf T t j = Inl e"
  shows "e = ErrKeyReused \<and> (\<exists>n v k k'. tGet T t n = Some v \<and> rOwner v = jOwner j \<and> rKey v = Some k \<and> jKey j = Some k'
    \<and> kKey k = kKey k' \<and> kFingerprint k \<noteq> kFingerprint k')"
proof -
  obtain k' where k': "jKey j = Some k'" using x by (cases "jKey j") (auto simp: replayOf_def)
  have "int64 (jOwner j)" "textOk (kKey k')" using ok k' by (auto simp: rowOk_def)
  from jobByKey_cases [OF l i this] show ?thesis
  proof (elim disjE exE conjE)
    assume "jobByKey T t (jOwner j) (kKey k') = Inr None"
    then show ?thesis using x k' by (simp add: replayOf_def)
  next
    fix n v k assume a: "jobByKey T t (jOwner j) (kKey k') = Inr (Some (jobOf n v))" "tGet T t n = Some v" "rKey v = Some k"
      "rOwner v = jOwner j" "kKey k = kKey k'"
    then have "e = ErrKeyReused" "kFingerprint k \<noteq> kFingerprint k'" using x k' by (auto simp: replayOf_def split: if_splits)
    then show ?thesis using a k' by blast
  qed
qed

lemma replayOf_None:
  assumes l: "tableLaws jobKeyEntries T" and i: "jobsInv T t" and ok: "rowOk (jobRowOf j)" and x: "replayOf T t j = Inr None"
    and d: "dropsEnded (tGet T t) (tGet T t1)"
  shows "\<not> clashes jobKeyEntries (tGet T t1) (jID j) (jobRowOf j)"
proof
  assume "clashes jobKeyEntries (tGet T t1) (jID j) (jobRowOf j)"
  then obtain n v b where n: "tGet T t1 n = Some v" "b \<in> set (jobKeyEntries n v)" "b \<in> set (jobKeyEntries (jID j) (jobRowOf j))"
    by (auto simp: clashes_def)
  then obtain k k' where k: "rKey v = Some k" "jKey j = Some k'"
    "appendText (ownerBytes (rOwner v)) (kKey k) = appendText (ownerBytes (jOwner j)) (kKey k')"
    by (cases "rKey v"; cases "jKey j") (simp_all add: jobKeyEntries_def)
  have t: "tGet T t n = Some v" using d n(1) unfolding dropsEnded_def by (metis option.distinct(1))
  have o: "int64 (jOwner j)" "textOk (kKey k')" using ok k(2) by (auto simp: rowOk_def)
  have e: "rOwner v = jOwner j \<and> kKey k = kKey k'"
    using k(3) textKey_inj [OF rowOk_sel(1) [OF jobsInv_row [OF i t]] o(1) rowOk_sel(2) [OF jobsInv_row [OF i t] k(1)] o(2)] by simp
  from jobByKey_cases [OF l i o] show False
  proof (elim disjE exE conjE)
    assume "\<forall>i v k. tGet T t i = Some v \<longrightarrow> rKey v = Some k \<longrightarrow> \<not> (rOwner v = jOwner j \<and> kKey k = kKey k')"
    then show False using t k(1) e by blast
  next
    fix n v k assume "jobByKey T t (jOwner j) (kKey k') = Inr (Some (jobOf n v))"
    then show False using x k(2) by (auto simp: replayOf_def split: if_splits)
  qed
qed

lemma insertJobTx_Inl:
  assumes l: "tableLaws jobKeyEntries T" and i: "jobsInv T t" and ok: "rowOk (jobRowOf j)"
    and x: "insertJobTx T t j DefaultLimits = Inl e"
  shows "replayOf T t j = Inl e \<or> (e = ErrOther \<and> tGet T t (jID j) \<noteq> None)
    \<or> (tGet T t (jID j) = None \<and> makeRoom T (jOwner j) DefaultLimits t = Inl e)"
proof (cases "replayOf T t j")
  case (Inl e')
  then show ?thesis using x by (simp add: insertJobTx_def)
next
  case (Inr b)
  then have b: "b = None" using x by (cases b) (simp_all add: insertJobTx_def)
  show ?thesis
  proof (cases "tGet T t (jID j) = None")
    case False
    then show ?thesis using x Inr b by (simp add: insertJobTx_def)
  next
    case True
    show ?thesis
    proof (cases "makeRoom T (jOwner j) DefaultLimits t")
      case (Inl e')
      then show ?thesis using x Inr b True by (simp add: insertJobTx_def)
    next
      case (Inr t1)
      have "int64 (jOwner j)" using ok by (simp add: rowOk_def)
      then have "dropsEnded (tGet T t) (tGet T t1)" using makeRoom_Inr [OF l i _ Inr] by simp
      then have "\<not> clashes jobKeyEntries (tGet T t1) (jID j) (jobRowOf j)"
        using replayOf_None [OF l i ok] \<open>replayOf T t j = Inr b\<close> b by simp
      then obtain t2 where "tPut T t1 (jID j) (jobRowOf j) = Some t2" using table_put_None [OF l] by blast
      then have "jobsPut T t1 (jID j) (jobRowOf j) = Some t2" using ok by (simp add: jobsPut_def rowOk_def)
      then show ?thesis using x \<open>replayOf T t j = Inr b\<close> b True Inr by (simp add: insertJobTx_def)
    qed
  qed
qed

text \<open>A stored record of the owner has the job's idempotency key, with the job's fingerprint or another.\<close>

definition keyHeld :: "(JobID \<Rightarrow> jobRow option) \<Rightarrow> Job \<Rightarrow> bool \<Rightarrow> bool" where
  "keyHeld m j same \<longleftrightarrow> (\<exists>n v k k'. m n = Some v \<and> rOwner v = jOwner j \<and> rKey v = Some k \<and> jKey j = Some k'
     \<and> kKey k = kKey k' \<and> (kFingerprint k = kFingerprint k') = same)"

lemma key_unique:
  assumes i: "jobsInv T t" and v: "tGet T t n = Some v" "rKey v = Some k" and u: "tGet T t n' = Some u" "rKey u = Some k'"
    and s: "rOwner u = rOwner v" "kKey k' = kKey k"
  shows "n' = n"
proof (rule ccontr)
  assume "n' \<noteq> n"
  then have "clashes jobKeyEntries (tGet T t) n v" using v u s by (auto simp: clashes_def jobKeyEntries_def)
  then show False using i v(1) by (simp add: jobsInv_def)
qed

lemma keyHeld_replay:
  assumes l: "tableLaws jobKeyEntries T" and i: "jobsInv T t" and ok: "rowOk (jobRowOf j)"
  shows "(keyHeld (tGet T t) j False \<and> \<not> keyHeld (tGet T t) j True \<and> replayOf T t j = Inl ErrKeyReused)
    \<or> (keyHeld (tGet T t) j True \<and> \<not> keyHeld (tGet T t) j False \<and> (\<exists>p. replayOf T t j = Inr (Some p)))
    \<or> (\<not> keyHeld (tGet T t) j True \<and> \<not> keyHeld (tGet T t) j False \<and> replayOf T t j = Inr None)"
proof (cases "jKey j")
  case None
  then show ?thesis by (simp add: keyHeld_def replayOf_def)
next
  case (Some k')
  have "int64 (jOwner j)" "textOk (kKey k')" using ok Some by (auto simp: rowOk_def)
  from jobByKey_cases [OF l i this] show ?thesis
  proof (elim disjE exE conjE)
    assume "jobByKey T t (jOwner j) (kKey k') = Inr None"
      "\<forall>i v k. tGet T t i = Some v \<longrightarrow> rKey v = Some k \<longrightarrow> \<not> (rOwner v = jOwner j \<and> kKey k = kKey k')"
    then show ?thesis using Some by (auto simp: keyHeld_def replayOf_def)
  next
    fix n v k assume a: "jobByKey T t (jOwner j) (kKey k') = Inr (Some (jobOf n v))" "tGet T t n = Some v" "rKey v = Some k"
      "rOwner v = jOwner j" "kKey k = kKey k'"
    have h: "keyHeld (tGet T t) j same \<longleftrightarrow> (kFingerprint k = kFingerprint k') = same" for same
    proof
      assume "keyHeld (tGet T t) j same"
      then obtain n' u w where u: "tGet T t n' = Some u" "rOwner u = jOwner j" "rKey u = Some w" "kKey w = kKey k'"
        "(kFingerprint w = kFingerprint k') = same" using Some by (auto simp: keyHeld_def)
      then have "n' = n" using key_unique [OF i a(2,3) u(1,3)] a(4,5) by simp
      then show "(kFingerprint k = kFingerprint k') = same" using u a(2,3) by simp
    next
      assume "(kFingerprint k = kFingerprint k') = same"
      then show "keyHeld (tGet T t) j same" unfolding keyHeld_def using a Some by blast
    qed
    show ?thesis unfolding h using a(1,3) Some by (auto simp: replayOf_def)
  qed
qed

lemma insertJobTx_made:
  assumes l: "tableLaws jobKeyEntries T" and i: "jobsInv T t" and ok: "rowOk (jobRowOf j)"
    and x: "insertJobTx T t j DefaultLimits = Inr (t2, (st, False))"
  shows "tGet T t (jID j) = None \<and> (\<exists>m1. roomMade (jOwner j) (tGet T t) m1 \<and> tGet T t2 = m1(jID j \<mapsto> jobRowOf j))"
proof -
  obtain t1 where t1: "tGet T t (jID j) = None" "makeRoom T (jOwner j) DefaultLimits t = Inr t1"
    "jobsPut T t1 (jID j) (jobRowOf j) = Some t2"
    using x unfolding insertJobTx_def
    by (cases "replayOf T t j"; simp split: option.splits if_splits; cases "makeRoom T (jOwner j) DefaultLimits t"; simp split: option.splits)
  have "int64 (jOwner j)" using ok by (simp add: rowOk_def)
  then show ?thesis using makeRoom_made [OF l i _ t1(2)] t1(1) table_put [OF l jobsPut_Some [OF t1(3)]] by blast
qed

lemma insertJobTx_key:
  assumes l: "tableLaws jobKeyEntries T" and i: "jobsInv T t" and ok: "rowOk (jobRowOf j)"
  shows "insertJobTx T t j DefaultLimits = Inl ErrKeyReused \<longleftrightarrow> keyHeld (tGet T t) j False"
    "(\<exists>t2 st. insertJobTx T t j DefaultLimits = Inr (t2, (st, True))) \<longleftrightarrow> keyHeld (tGet T t) j True"
proof -
  note h = keyHeld_replay [OF l i ok]
  have o: "int64 (jOwner j)" using ok by (simp add: rowOk_def)
  have n: "insertJobTx T t j DefaultLimits \<noteq> Inl ErrKeyReused \<and> (\<nexists>t2 st. insertJobTx T t j DefaultLimits = Inr (t2, (st, True)))"
    if "replayOf T t j = Inr None"
    using that makeRoom_Inl [OF l i o] by (auto simp: insertJobTx_def split: sum.splits option.splits)
  show "insertJobTx T t j DefaultLimits = Inl ErrKeyReused \<longleftrightarrow> keyHeld (tGet T t) j False"
    using h n by (elim disjE conjE exE) (simp_all add: insertJobTx_def)
  show "(\<exists>t2 st. insertJobTx T t j DefaultLimits = Inr (t2, (st, True))) \<longleftrightarrow> keyHeld (tGet T t) j True"
    using h n by (elim disjE conjE exE) (simp_all add: insertJobTx_def)
qed

end
