(* ===== verification/StatusRun.thy ===== *)
theory StatusRun
  imports StatusStore
begin

text \<open>
  The status store at work: what it asks of its \<^verbatim>\<open>Persister\<close> (the locale \<open>job_persister\<close>, the contract
  of the interface's comment), and the steps in which its calls interleave. A call that releases the lock or
  writes is one step for each part: \<open>Begin\<close> inserts, then makes the job live; an attempt to store an ended
  job is taken, written, settled and reported. A crash loses the memory and opens the store again.
\<close>

subsection \<open>The persister's contract\<close>

definition storable :: "Job \<Rightarrow> bool" where
  "storable j \<longleftrightarrow> BypassOwner \<le> jOwner j \<and> jOwner j < 2 ^ 63 \<and> validKind (jKind j) \<and> validState (jState j)
     \<and> jOutcome j \<le> Interrupted \<and> (jState j = Done \<longrightarrow> jEnded j \<noteq> zeroTime)
     \<and> (\<forall>k. jKey j = Some k \<longrightarrow> length (kKey k) < 2 ^ 64)"

definition sameIdentity :: "Job \<Rightarrow> Job \<Rightarrow> bool" where
  "sameIdentity a b \<longleftrightarrow> jOwner a = jOwner b \<and> jKey a = jKey b"

definition onlyEnded :: "(JobID \<Rightarrow> Job option) \<Rightarrow> (JobID \<Rightarrow> Job option) \<Rightarrow> bool" where
  "onlyEnded m m' \<longleftrightarrow> (\<forall>i. m' i = m i \<or> (m' i = None \<and> (\<exists>j. m i = Some j \<and> jState j = Done)))"

definition insertedJob :: "(JobID \<Rightarrow> Job option) \<Rightarrow> Job \<Rightarrow> (JobID \<Rightarrow> Job option) \<Rightarrow> bool" where
  "insertedJob m j m' \<longleftrightarrow> m (jID j) = None \<and> (\<exists>m1. onlyEnded m m1 \<and> m' = m1(jID j \<mapsto> j))"

definition insertPost :: "(JobID \<Rightarrow> Job option) \<Rightarrow> Job \<Rightarrow> (JobID \<Rightarrow> Job option) \<Rightarrow> job_error + Job \<times> bool \<Rightarrow> bool" where
  "insertPost m j m' r \<longleftrightarrow>
     (case r of Inl _ \<Rightarrow> m' = m \<or> insertedJob m j m'
      | Inr (st, False) \<Rightarrow> st = j \<and> insertedJob m j m'
      | Inr (st, True) \<Rightarrow> m' = m \<and> m (jID st) = Some st \<and> sameIdentity st j)"

definition putPost :: "(JobID \<Rightarrow> Job option) \<Rightarrow> Job \<Rightarrow> (JobID \<Rightarrow> Job option) \<Rightarrow> bool \<Rightarrow> bool" where
  "putPost m j m' ok \<longleftrightarrow>
     (m' = m \<and> \<not> ok) \<or> (\<exists>r. m (jID j) = Some r \<and> jRev r < jRev j \<and> m' = m(jID j \<mapsto> j))"

locale job_persister =
  fixes ops :: "'p persister" and good :: "'p \<Rightarrow> bool" and calm :: "'p \<Rightarrow> bool"
  assumes get_id: "getJob ops p i = Some j \<Longrightarrow> jID j = i"
    and get_storable: "good p \<Longrightarrow> getJob ops p i = Some j \<Longrightarrow> storable j"
    and insert_law: "good p \<Longrightarrow> storable j \<Longrightarrow> insertJob ops p j DefaultLimits = (p', res) \<Longrightarrow>
      good p' \<and> insertPost (getJob ops p) j (getJob ops p') res"
    and put_law: "good p \<Longrightarrow> storable j \<Longrightarrow> (\<And>r. getJob ops p (jID j) = Some r \<Longrightarrow> sameIdentity r j) \<Longrightarrow>
      putJob ops p j = (p', ok) \<Longrightarrow> good p' \<and> putPost (getJob ops p) j (getJob ops p') ok"
    and put_calm: "calm p \<Longrightarrow> putJob ops p j = (p', ok) \<Longrightarrow> calm p'"
    and put_lands: "good p \<Longrightarrow> calm p \<Longrightarrow> storable j \<Longrightarrow> getJob ops p (jID j) = Some r \<Longrightarrow> sameIdentity r j \<Longrightarrow>
      jRev r < jRev j \<Longrightarrow> putJob ops p j = (p', ok) \<Longrightarrow> ok"
    and sweep_law: "good p \<Longrightarrow> good (deleteEnded ops p t) \<and> onlyEnded (getJob ops p) (getJob ops (deleteEnded ops p t))"
    and unfinished_law: "good p \<Longrightarrow> \<exists>js. unfinished ops p = Some js \<and> distinct (map jID js) \<and>
      (\<forall>j. j \<in> set js \<longleftrightarrow> getJob ops p (jID j) = Some j \<and> jState j \<noteq> Done)"

subsection \<open>Steps\<close>

record 'p sys =
  disk :: 'p
  mem :: "Store option"
  starting :: "JobID \<Rightarrow> (Job \<times> bool) option"
  returned :: "JobID \<Rightarrow> bool option"
  reports :: "bool option list"
  used :: "JobID set"

definition began :: "Job \<Rightarrow> bool \<Rightarrow> job_error + Job \<times> bool \<Rightarrow> (Job \<times> bool) option" where
  "began j stop r = (case r of Inr (_, False) \<Rightarrow> Some (j, stop) | _ \<Rightarrow> None)"

definition reopen :: "'p persister \<Rightarrow> time \<Rightarrow> 'p sys \<Rightarrow> 'p sys" where
  "reopen ops now x = (case New ops now (disk x) of (p, m) \<Rightarrow>
     \<lparr>disk = p, mem = m, starting = (\<lambda>_. None), returned = (\<lambda>_. None), reports = [], used = used x\<rparr>)"

inductive sysStep :: "'p persister \<Rightarrow> alertEnv \<Rightarrow> 'p sys \<Rightarrow> 'p sys \<Rightarrow> bool" for ops e where
  insert: "mem x = Some s \<Longrightarrow> \<not> beginRefused j \<Longrightarrow> i \<notin> used x \<Longrightarrow> storable (newJob now i stop j) \<Longrightarrow>
    insertJob ops (disk x) (newJob now i stop j) DefaultLimits = (p, r) \<Longrightarrow>
    sysStep ops e x (x\<lparr>disk := p, used := insert i (used x), starting := (starting x)(i := began (newJob now i stop j) stop r)\<rparr>)"
| goLive: "mem x = Some s \<Longrightarrow> starting x i = Some (j, stop) \<Longrightarrow>
    sysStep ops e x (x\<lparr>mem := Some (goLive stop j s), starting := (starting x)(i := None)\<rparr>)"
| update: "mem x = Some s \<Longrightarrow> now \<noteq> zeroTime \<Longrightarrow>
    sysStep ops e x (x\<lparr>mem := Some (fst (Update now i f s))\<rparr>)"
| take: "mem x = Some s \<Longrightarrow> sysStep ops e x (x\<lparr>mem := Some (fst (persistTake i s))\<rparr>)"
| put: "mem x = Some s \<Longrightarrow> map_of (live s) i = Some l \<Longrightarrow> saving l \<Longrightarrow> returned x i = None \<Longrightarrow>
    putJob ops (disk x) (job l) = (p, ok) \<Longrightarrow>
    sysStep ops e x (x\<lparr>disk := p, returned := (returned x)(i \<mapsto> ok)\<rparr>)"
| settle: "mem x = Some s \<Longrightarrow> returned x i = Some ok \<Longrightarrow> persistSettle now i ok s = (s', r) \<Longrightarrow>
    sysStep ops e x (x\<lparr>returned := (returned x)(i := None), reports := r # reports x, mem := Some s'\<rparr>)"
| report: "mem x = Some s \<Longrightarrow> reports x = xs @ r # ys \<Longrightarrow>
    sysStep ops e x (x\<lparr>mem := Some (persistReport e now r s), reports := xs @ ys\<rparr>)"
| expire: "mem x = Some s \<Longrightarrow> sysStep ops e x (x\<lparr>mem := Some (evictExpired now s)\<rparr>)"
| sweep: "sysStep ops e x (x\<lparr>disk := sweepRecords ops now (disk x)\<rparr>)"
| reconcile: "mem x = Some s \<Longrightarrow> sysStep ops e x (x\<lparr>mem := Some (Reconcile e now src active t s)\<rparr>)"
| retain: "mem x = Some s \<Longrightarrow> sysStep ops e x (x\<lparr>mem := Some (RetainAlerts e kind lv s)\<rparr>)"
| provider: "mem x = Some s \<Longrightarrow> sysStep ops e x (x\<lparr>mem := Some (SetProvider e pr s)\<rparr>)"
| wake: "mem x = Some s \<Longrightarrow> sysStep ops e x (x\<lparr>mem := Some (s\<lparr>retryWake := False\<rparr>)\<rparr>)"
| crash: "now \<noteq> zeroTime \<Longrightarrow> sysStep ops e x (reopen ops now x)"

abbreviation sysSteps :: "'p persister \<Rightarrow> alertEnv \<Rightarrow> 'p sys \<Rightarrow> 'p sys \<Rightarrow> bool" where
  "sysSteps ops e \<equiv> (sysStep ops e)\<^sup>*\<^sup>*"

text \<open>What \<open>Get\<close> answers of a job.\<close>

definition seen :: "'p persister \<Rightarrow> 'p sys \<Rightarrow> JobID \<Rightarrow> Job option" where
  "seen ops x i = (case mem x of None \<Rightarrow> None | Some s \<Rightarrow> Get ops i (disk x) s)"

subsection \<open>The invariant\<close>

definition recorded :: "bool option \<Rightarrow> liveJob \<Rightarrow> Job option \<Rightarrow> bool" where
  "recorded ret l r \<longleftrightarrow>
     (case r of None \<Rightarrow> True | Some j \<Rightarrow> sameIdentity j (job l) \<and> jRev j \<le> jRev (job l)) \<and>
     (if jState (job l) \<noteq> Done then (\<exists>j. r = Some j \<and> jState j \<noteq> Done)
      else if durable l then r = None \<or> r = Some (job l)
      else (attempts l = 0 \<longrightarrow> (\<exists>j. r = Some j \<and> jState j \<noteq> Done \<and> jRev j < jRev (job l)))
        \<and> (saving l \<and> ret = None \<longrightarrow> (\<forall>j. r = Some j \<longrightarrow> jRev j < jRev (job l)))
        \<and> (ret = Some True \<longrightarrow> r = None \<or> r = Some (job l)))"

text \<open>One job's share of the state: its live entry, whether it is unsaved, its start and its write under
  way, and its record.\<close>

definition slotOk ::
  "JobID \<Rightarrow> bool \<Rightarrow> liveJob option \<Rightarrow> bool \<Rightarrow> (Job \<times> bool) option \<Rightarrow> bool option \<Rightarrow> Job option \<Rightarrow> bool" where
  "slotOk i known lv uns st ret r \<longleftrightarrow>
     (r \<noteq> None \<longrightarrow> known) \<and>
     (case lv of
        None \<Rightarrow> \<not> uns \<and> ret = None \<and>
          (case st of None \<Rightarrow> True | Some (j, _) \<Rightarrow> r = Some j \<and> jState j = Queued \<and> jID j = i)
      | Some l \<Rightarrow> known \<and> st = None \<and> jID (job l) = i \<and> storable (job l) \<and> (uns \<longleftrightarrow> \<not> durable l)
          \<and> (\<not> durable l \<longrightarrow> jState (job l) = Done) \<and> (saving l \<longrightarrow> \<not> durable l \<and> 0 < attempts l)
          \<and> (ret \<noteq> None \<longrightarrow> saving l) \<and> recorded ret l r)"

definition sysInv :: "'p persister \<Rightarrow> ('p \<Rightarrow> bool) \<Rightarrow> 'p sys \<Rightarrow> bool" where
  "sysInv ops good x \<longleftrightarrow> good (disk x) \<and>
     (case mem x of None \<Rightarrow> \<forall>i. getJob ops (disk x) i \<noteq> None \<longrightarrow> i \<in> used x
      | Some s \<Rightarrow> distinct (map fst (live s)) \<and>
          (\<forall>i. slotOk i (i \<in> used x) (map_of (live s) i) (i \<in> unsaved s) (starting x i) (returned x i) (getJob ops (disk x) i)))"

subsection \<open>Retention\<close>

text \<open>\<open>evicted s s'\<close>: \<open>s'\<close> is \<open>s\<close> but for ended jobs whose records are stored.\<close>

definition evicted :: "Store \<Rightarrow> Store \<Rightarrow> bool" where
  "evicted s s' \<longleftrightarrow> unsaved s' = unsaved s \<and> distinct (map fst (live s')) \<and>
     (\<forall>i. map_of (live s') i = map_of (live s) i \<or>
        (map_of (live s') i = None \<and> (\<exists>l. map_of (live s) i = Some l \<and> jState (job l) = Done \<and> durable l)))"

definition keyed :: "Store \<Rightarrow> bool" where
  "keyed s \<longleftrightarrow> distinct (map fst (live s)) \<and> (\<forall>i l. map_of (live s) i = Some l \<longrightarrow> jID (job l) = i)"

lemma evictLoop_set: "i \<in> set (evictLoop now ls) \<Longrightarrow> \<exists>l \<in> set ls. jID (job l) = i"
  by (induction ls) (auto split: if_splits)

lemma fold_delete_live: "map_of (fold AList.delete ks al) i = (if i \<in> set ks then None else map_of al i)"
proof (induction ks arbitrary: al)
  case (Cons k ks)
  show ?case by (simp add: Cons.IH AList.delete_conv')
qed simp

lemma fold_delete_distinct: "distinct (map fst al) \<Longrightarrow> distinct (map fst (fold AList.delete ks al))"
proof (induction ks arbitrary: al)
  case (Cons k ks)
  show ?case using Cons.IH [OF distinct_delete [OF Cons.prems]] by simp
qed simp

lemma evictLocked_evicted:
  assumes "keyed s" shows "evicted s (fst (evictLocked now s))"
proof -
  define ended where "ended = sort_key (\<lambda>l. (jEnded (job l), jID (job l)))
    (filter (\<lambda>l. jState (job l) = Done \<and> durable l) (map snd (live s)))"
  define gone where "gone = evictLoop now ended"
  have e: "fst (evictLocked now s) = s\<lparr>live := fold AList.delete gone (live s)\<rparr>"
    by (simp add: evictLocked_def Let_def ended_def gone_def)
  have "\<exists>l. map_of (live s) i = Some l \<and> jState (job l) = Done \<and> durable l" if g: "i \<in> set gone" for i
  proof -
    obtain l where l: "l \<in> set ended" "jID (job l) = i" using evictLoop_set [of i now ended] g unfolding gone_def by blast
    then obtain k where "(k, l) \<in> set (live s)" "jState (job l) = Done" "durable l" by (auto simp: ended_def)
    moreover from this have "map_of (live s) k = Some l" using assms by (simp add: keyed_def)
    moreover from this have "k = i" using assms l(2) by (auto simp: keyed_def)
    ultimately show ?thesis by blast
  qed
  then show ?thesis using assms by (auto simp: evicted_def e fold_delete_live fold_delete_distinct keyed_def)
qed

lemma evictExpired_evicted: "keyed s \<Longrightarrow> evicted s (evictExpired now s)"
  using evictLocked_evicted [of s now]
  by (cases "evictLocked now s") (auto simp: evictExpired_def bump_def evicted_def)

lemma jobs_kept [simp]:
  "live (Reconcile e now src active t s) = live s" "unsaved (Reconcile e now src active t s) = unsaved s"
  "live (RetainAlerts e kind lv s) = live s" "unsaved (RetainAlerts e kind lv s) = unsaved s"
  "live (SetProvider e pr s) = live s" "unsaved (SetProvider e pr s) = unsaved s"
  "live (persistReport e now r s) = live s" "unsaved (persistReport e now r s) = unsaved s"
  "live (bump s) = live s" "unsaved (bump s) = unsaved s"
  by (auto simp: Reconcile_def RetainAlerts_def SetProvider_def persistReport_def bump_def Let_def split: option.splits bool.splits)

lemma setLive_sel [simp]:
  "map_of (live (setLive i l s)) = (map_of (live s))(i \<mapsto> l)" "unsaved (setLive i l s) = unsaved s"
  by (simp_all add: setLive_def AList.update_conv')

lemma setLive_distinct [simp]: "distinct (map fst (live s)) \<Longrightarrow> distinct (map fst (live (setLive i l s)))"
  by (simp add: setLive_def distinct_update)

text \<open>\<open>p'\<close> holds what \<open>p\<close> does, and the ends of the unsaved jobs of \<open>I\<close> that have a record: the live job as it is, at its
  revision or a later one.\<close>

definition storedAs :: "liveJob \<Rightarrow> Job \<Rightarrow> bool" where
  "storedAs l j \<longleftrightarrow> j = (job l)\<lparr>jRev := jRev j\<rparr> \<and> jRev (job l) \<le> jRev j \<and> jState j = Done"

definition endsStored :: "(JobID \<Rightarrow> Job option) \<Rightarrow> JobID set \<Rightarrow> Store \<Rightarrow> (JobID \<Rightarrow> Job option) \<Rightarrow> bool" where
  "endsStored g I s g' \<longleftrightarrow> (\<forall>k. if k \<in> I \<inter> unsaved s \<and> g k \<noteq> None
     then \<exists>l j. map_of (live s) k = Some l \<and> g' k = Some j \<and> storedAs l j else g' k = g k)"

lemma endsStored_trans:
  assumes a: "endsStored g {i} s g1" and b: "endsStored g1 I s1 g2"
    and u: "unsaved s1 = unsaved s - {k. k = i \<and> g k \<noteq> None}"
    and n: "\<And>k. g1 k = None \<longleftrightarrow> g k = None" and l: "\<And>k. k \<in> unsaved s1 \<Longrightarrow> k \<noteq> i \<Longrightarrow> map_of (live s1) k = map_of (live s) k"
  shows "endsStored g (insert i I) s g2"
  unfolding endsStored_def
proof
  fix k
  have ak: "if k \<in> {i} \<inter> unsaved s \<and> g k \<noteq> None then \<exists>l j. map_of (live s) k = Some l \<and> g1 k = Some j \<and> storedAs l j else g1 k = g k"
    and bk: "if k \<in> I \<inter> unsaved s1 \<and> g1 k \<noteq> None then \<exists>l j. map_of (live s1) k = Some l \<and> g2 k = Some j \<and> storedAs l j else g2 k = g1 k"
    using a b unfolding endsStored_def by - (erule spec)+
  show "if k \<in> insert i I \<inter> unsaved s \<and> g k \<noteq> None then \<exists>l j. map_of (live s) k = Some l \<and> g2 k = Some j \<and> storedAs l j else g2 k = g k"
  proof (cases "k \<in> I \<inter> unsaved s1 \<and> g1 k \<noteq> None")
    case True
    have m: "k \<in> unsaved s1 \<longleftrightarrow> k \<in> unsaved s \<and> \<not> (k = i \<and> g k \<noteq> None)" by (simp add: u)
    have g: "g k \<noteq> None" using True n [of k] by simp
    then have k: "k \<in> unsaved s" "k \<noteq> i" "k \<in> unsaved s1" "k \<in> I" using True m by auto
    show ?thesis using bk [unfolded if_P [OF True]] unfolding l [OF k(3,2)] using k g by simp
  next
    case False
    have g2: "g2 k = g1 k" by (rule bk [unfolded if_not_P [OF False]])
    have m: "k \<in> unsaved s1 \<longleftrightarrow> k \<in> unsaved s \<and> \<not> (k = i \<and> g k \<noteq> None)" by (simp add: u)
    have "(g1 k \<noteq> None) = (g k \<noteq> None)" using n [of k] by simp
    then have "k \<in> insert i I \<inter> unsaved s \<and> g k \<noteq> None \<longleftrightarrow> k \<in> {i} \<inter> unsaved s \<and> g k \<noteq> None"
      using False unfolding Int_iff m by blast
    then show ?thesis using ak unfolding g2 by (simp only:)
  qed
qed

subsection \<open>One slot\<close>

lemma sameIdentity_refl [simp]: "sameIdentity j j"
  by (simp add: sameIdentity_def)

lemma slot_drop: "slotOk i k lv u st ret (Some j) \<Longrightarrow> jState j = Done \<Longrightarrow> slotOk i k lv u st ret None"
  by (cases lv) (auto simp: slotOk_def recorded_def Queued_def Done_def split: option.splits if_splits)

lemma slot_evict: "slotOk i k (Some l) u st ret r \<Longrightarrow> durable l \<Longrightarrow> slotOk i k None u st ret r"
  by (auto simp: slotOk_def)

lemma slot_known: "slotOk i k lv u st ret r \<Longrightarrow> slotOk i True lv u st ret r"
  by (auto simp: slotOk_def split: option.splits)

lemma slot_fresh: "slotOk i False lv u st ret r \<Longrightarrow> lv = None \<and> \<not> u \<and> ret = None \<and> r = None"
  by (auto simp: slotOk_def split: option.splits)

lemma slot_live: "slotOk i k (Some l) u st ret r \<Longrightarrow>
  k \<and> st = None \<and> jID (job l) = i \<and> storable (job l) \<and> (u \<longleftrightarrow> \<not> durable l) \<and> (\<not> durable l \<longrightarrow> jState (job l) = Done)
  \<and> (saving l \<longrightarrow> \<not> durable l \<and> 0 < attempts l) \<and> (ret \<noteq> None \<longrightarrow> saving l) \<and> recorded ret l r"
  by (simp add: slotOk_def)

lemma slot_take:
  assumes "slotOk i k (Some l) u st ret r" "\<not> durable l" "\<not> saving l"
  shows "slotOk i k (Some (l\<lparr>job := (if 0 < attempts l then (job l)\<lparr>jRev := jRev (job l) + 1\<rparr> else job l),
    attempts := attempts l + 1, saving := True\<rparr>)) u st ret r"
  using assms by (auto simp: slotOk_def recorded_def storable_def sameIdentity_def split: option.splits)

lemma slot_settle_failed:
  "slotOk i k (Some l) u st (Some ok) r \<Longrightarrow> slotOk i k (Some (l\<lparr>saving := False\<rparr>)) u st None r"
  by (auto simp: slotOk_def recorded_def split: option.splits if_splits)

lemma slot_settle_done:
  "slotOk i k (Some l) u st (Some True) r \<Longrightarrow> slotOk i k (Some (l\<lparr>saving := False, durable := True\<rparr>)) False st None r"
  by (auto simp: slotOk_def recorded_def split: option.splits if_splits)

lemma slot_put:
  assumes "slotOk i k (Some l) u st None r" "saving l" "(r' = r \<and> \<not> ok) \<or> (\<exists>j. r = Some j \<and> r' = Some (job l))"
  shows "slotOk i k (Some l) u st (Some ok) r'"
  using assms by (auto simp: slotOk_def recorded_def less_imp_le split: option.splits if_splits)

lemma slot_goLive:
  assumes "slotOk i k None u (Some (j, stop)) ret r" "storable j"
  shows "slotOk i k (Some \<lparr>hasStop = stop, job = j, durable = True, saving = False, attempts = 0\<rparr>) u None ret r"
  using assms by (auto simp: slotOk_def recorded_def Queued_def Done_def)

subsection \<open>Operations on the store\<close>

lemma status_bytes: "validState Done" "validState Queued" "Failed \<le> Interrupted" "NoOutcome \<le> Interrupted" "Interrupted \<le> Interrupted"
  by (simp_all add: validState_def Queued_def Done_def Failed_def Interrupted_def NoOutcome_def)

text \<open>What an update leaves of a job that was not \<open>Done\<close>.\<close>

definition updated :: "liveJob \<Rightarrow> liveJob \<Rightarrow> bool" where
  "updated l l' \<longleftrightarrow> jID (job l') = jID (job l) \<and> sameIdentity (job l) (job l') \<and> jKind (job l') = jKind (job l)
     \<and> jRev (job l') = Suc (jRev (job l)) \<and> (storable (job l) \<longrightarrow> storable (job l')) \<and> saving l' = saving l
     \<and> (if jState (job l') = Done then \<not> durable l' \<and> attempts l' = 0 else durable l' = durable l \<and> attempts l' = attempts l)"

lemma Update_cases:
  assumes "now \<noteq> zeroTime"
  obtains "fst (Update now i f s) = s" "\<nexists>l. map_of (live s) i = Some l \<and> jState (job l) \<noteq> Done"
  | l l' where "map_of (live s) i = Some l" "jState (job l) \<noteq> Done" "updated l l'"
    "map_of (live (fst (Update now i f s))) = (map_of (live s))(i \<mapsto> l')"
    "unsaved (fst (Update now i f s)) = (if jState (job l') = Done then insert i (unsaved s) else unsaved s)"
    "distinct (map fst (live s)) \<longrightarrow> distinct (map fst (live (fst (Update now i f s))))"
proof (cases "\<exists>l. map_of (live s) i = Some l \<and> jState (job l) \<noteq> Done")
  case False
  then show ?thesis using that(1) by (cases "map_of (live s) i") (auto simp: Update_def)
next
  case True
  then obtain l where l: "map_of (live s) i = Some l" "jState (job l) \<noteq> Done" by blast
  define n1 where "n1 = (f (job l))\<lparr>jID := jID (job l), jKind := jKind (job l), jScope := jScope (job l), jOwner := jOwner (job l),
                              jKey := jKey (job l), jStarted := jStarted (job l), jRev := jRev (job l) + 1\<rparr>"
  define n2 where "n2 = (if \<not> validState (jState n1) then n1\<lparr>jState := jState (job l)\<rparr> else n1)"
  define t where "t = (jState n2 = Done)"
  define n3 where "n3 = (if t
                      then n2\<lparr>jOutcome := (if jOutcome n2 = NoOutcome \<or> Interrupted < jOutcome n2 then Failed else jOutcome n2),
                              jEnded := now\<rparr>
                      else n2\<lparr>jOutcome := NoOutcome, jEnded := zeroTime\<rparr>)"
  define l1 where "l1 = (if t then l\<lparr>hasStop := False, durable := False, attempts := 0\<rparr> else l)"
  define n4 where "n4 = n3\<lparr>jCancellable := (hasStop l1 \<and> \<not> t)\<rparr>"
  have u: "Update now i f s = (bump (s\<lparr>live := AList.update i (l1\<lparr>job := n4\<rparr>) (live s),
      unsaved := (if t then insert i (unsaved s) else unsaved s)\<rparr>), t)"
    unfolding Update_def l option.case Let_def
    by (simp only: l(2) if_False n1_def [symmetric] n2_def [symmetric] t_def [symmetric] n3_def [symmetric] l1_def [symmetric] n4_def [symmetric])
  have n2: "jID n2 = jID (job l) \<and> jOwner n2 = jOwner (job l) \<and> jKey n2 = jKey (job l) \<and> jKind n2 = jKind (job l)
    \<and> jRev n2 = Suc (jRev (job l)) \<and> (validState (jState (job l)) \<longrightarrow> validState (jState n2))"
    by (simp add: n2_def n1_def)
  have n4: "jState n4 = jState n2 \<and> jID n4 = jID n2 \<and> jOwner n4 = jOwner n2 \<and> jKey n4 = jKey n2 \<and> jKind n4 = jKind n2
    \<and> jRev n4 = jRev n2 \<and> jOutcome n4 \<le> Interrupted \<and> (t \<longrightarrow> jEnded n4 = now)"
    using status_bytes by (simp add: n4_def n3_def not_less)
  have "updated l (l1\<lparr>job := n4\<rparr>)"
    using n2 n4 assms by (simp add: updated_def sameIdentity_def storable_def l1_def t_def)
  moreover have "t \<longleftrightarrow> jState (job (l1\<lparr>job := n4\<rparr>)) = Done" using n4 by (simp add: t_def)
  ultimately show ?thesis using that(2) [OF l, of "l1\<lparr>job := n4\<rparr>"]
    by (simp add: u bump_def AList.update_conv' distinct_update)
qed

lemma slot_update:
  assumes "slotOk i k (Some l) u st ret r" "jState (job l) \<noteq> Done" "updated l l'"
  shows "slotOk i k (Some l') (if jState (job l') = Done then True else u) st ret r"
proof -
  note s = slot_live [OF assms(1)]
  then have d: "durable l" "\<not> saving l" "ret = None" using assms(2) by auto
  obtain j where j: "r = Some j" "sameIdentity j (job l)" "jRev j \<le> jRev (job l)" "jState j \<noteq> Done"
    using s assms(2) by (auto simp: recorded_def)
  have i: "sameIdentity j (job l')" "jRev j < jRev (job l')" using j assms(3) by (auto simp: updated_def sameIdentity_def)
  then have "recorded ret l' r" using j(1,4) d assms(3) by (auto simp: recorded_def updated_def split: if_splits)
  then show ?thesis using s d assms(3) j(1) by (auto simp: slotOk_def updated_def split: if_splits)
qed

subsection \<open>Steps keep the invariant\<close>

definition slotAt :: "'p persister \<Rightarrow> 'p sys \<Rightarrow> Store \<Rightarrow> JobID \<Rightarrow> bool" where
  "slotAt ops x s i \<longleftrightarrow>
     slotOk i (i \<in> used x) (map_of (live s) i) (i \<in> unsaved s) (starting x i) (returned x i) (getJob ops (disk x) i)"

lemma sysInv_mem: "mem x = Some s \<Longrightarrow>
  sysInv ops good x \<longleftrightarrow> good (disk x) \<and> distinct (map fst (live s)) \<and> (\<forall>i. slotAt ops x s i)"
  by (simp add: sysInv_def slotAt_def)

lemma sysInv_known: "sysInv ops good x \<Longrightarrow> getJob ops (disk x) i = Some j \<Longrightarrow> i \<in> used x"
  unfolding sysInv_def by (cases "mem x") (auto simp: slotOk_def)

lemma sysInv_keyed: "mem x = Some s \<Longrightarrow> sysInv ops good x \<Longrightarrow> keyed s"
  unfolding sysInv_mem keyed_def slotAt_def using slot_live by metis

text \<open>Only the jobs' part of the memory matters.\<close>

lemma sysInv_same:
  "mem x = Some s \<Longrightarrow> sysInv ops good x \<Longrightarrow> live s' = live s \<Longrightarrow> unsaved s' = unsaved s \<Longrightarrow> sysInv ops good (x\<lparr>mem := Some s'\<rparr>)"
  by (simp add: sysInv_def)

lemma sysInv_evicted:
  assumes m: "mem x = Some s" and i: "sysInv ops good x" and e: "evicted s s'"
  shows "sysInv ops good (x\<lparr>mem := Some s'\<rparr>)"
proof -
  have "slotAt ops (x\<lparr>mem := Some s'\<rparr>) s' k" for k
  proof -
    have "slotAt ops x s k" using i by (simp add: sysInv_mem [OF m])
    moreover have "map_of (live s') k = map_of (live s) k \<or>
        (map_of (live s') k = None \<and> (\<exists>l. map_of (live s) k = Some l \<and> durable l))" using e by (auto simp: evicted_def)
    ultimately show ?thesis using e slot_evict by (auto simp: slotAt_def evicted_def)
  qed
  then show ?thesis using i e by (simp add: sysInv_mem sysInv_mem [OF m] evicted_def)
qed

text \<open>A step at one job's slot.\<close>

lemma sysInv_slot:
  assumes "mem x = Some s" "sysInv ops good x" "mem y = Some s'" "good (disk y)" "distinct (map fst (live s'))"
    "\<And>k. k \<noteq> i \<Longrightarrow> (k \<in> used x \<longleftrightarrow> k \<in> used y) \<and> map_of (live s') k = map_of (live s) k \<and> (k \<in> unsaved s' \<longleftrightarrow> k \<in> unsaved s)
      \<and> starting y k = starting x k \<and> returned y k = returned x k \<and>
      (getJob ops (disk y) k = getJob ops (disk x) k \<or>
       (getJob ops (disk y) k = None \<and> (\<exists>j. getJob ops (disk x) k = Some j \<and> jState j = Done)))"
    "slotAt ops x s i \<Longrightarrow> slotAt ops y s' i"
  shows "sysInv ops good y"
proof -
  have "slotAt ops y s' k" for k
  proof (cases "k = i")
    case True
    then show ?thesis using assms(1,2,7) by (simp add: sysInv_mem)
  next
    case False
    have s: "slotAt ops x s k" using assms(1,2) by (simp add: sysInv_mem)
    from assms(6) [OF False] show ?thesis using s slot_drop by (auto simp: slotAt_def)
  qed
  then show ?thesis using assms(3,4,5) by (simp add: sysInv_mem)
qed

context job_persister
begin

lemma inv_put:
  assumes "mem x = Some s" "sysInv ops good x" "map_of (live s) i = Some l" "saving l" "returned x i = None"
    "putJob ops (disk x) (job l) = (p, ok)"
  shows "sysInv ops good (x\<lparr>disk := p, returned := (returned x)(i \<mapsto> ok)\<rparr>)"
proof -
  have a: "slotAt ops x s i" "good (disk x)" "distinct (map fst (live s))" using assms(1,2) by (simp_all add: sysInv_mem)
  then have l: "storable (job l)" "jID (job l) = i" "recorded None l (getJob ops (disk x) i)"
    using slot_live assms(3,5) by (auto simp: slotAt_def)
  have "sameIdentity r (job l)" if r: "getJob ops (disk x) (jID (job l)) = Some r" for r
    using l r by (simp add: recorded_def)
  from put_law [OF a(2) l(1) this assms(6)]
  have p: "good p" "putPost (getJob ops (disk x)) (job l) (getJob ops p) ok" by auto
  show ?thesis
  proof (rule sysInv_slot [OF assms(1,2), where i = i and s' = s])
    show "slotAt ops (x\<lparr>disk := p, returned := (returned x)(i \<mapsto> ok)\<rparr>) s i"
      using a(1) p(2) assms(3,4,5) l(2) slot_put by (auto simp: slotAt_def putPost_def)
    fix k assume "k \<noteq> i"
    then show "(k \<in> used x \<longleftrightarrow> k \<in> used (x\<lparr>disk := p, returned := (returned x)(i \<mapsto> ok)\<rparr>)) \<and> map_of (live s) k = map_of (live s) k
      \<and> (k \<in> unsaved s \<longleftrightarrow> k \<in> unsaved s) \<and> starting (x\<lparr>disk := p, returned := (returned x)(i \<mapsto> ok)\<rparr>) k = starting x k
      \<and> returned (x\<lparr>disk := p, returned := (returned x)(i \<mapsto> ok)\<rparr>) k = returned x k \<and>
      (getJob ops (disk (x\<lparr>disk := p, returned := (returned x)(i \<mapsto> ok)\<rparr>)) k = getJob ops (disk x) k \<or>
       (getJob ops (disk (x\<lparr>disk := p, returned := (returned x)(i \<mapsto> ok)\<rparr>)) k = None \<and>
        (\<exists>j. getJob ops (disk x) k = Some j \<and> jState j = Done)))"
      using p(2) l(2) by (auto simp: putPost_def)
  qed (use assms(1) a(3) p(1) in simp_all)
qed

lemma inv_insert:
  assumes "mem x = Some s" "sysInv ops good x" "i \<notin> used x" "storable (newJob now i stop j)"
    "insertJob ops (disk x) (newJob now i stop j) DefaultLimits = (p, r)"
  shows "sysInv ops good (x\<lparr>disk := p, used := insert i (used x), starting := (starting x)(i := began (newJob now i stop j) stop r)\<rparr>)"
    (is "sysInv _ _ ?y")
proof -
  let ?j = "newJob now i stop j"
  have a: "slotAt ops x s i" "good (disk x)" "distinct (map fst (live s))" using assms(1,2) by (simp_all add: sysInv_mem)
  have "slotOk i False (map_of (live s) i) (i \<in> unsaved s) (starting x i) (returned x i) (getJob ops (disk x) i)"
    using a(1) assms(3) by (simp add: slotAt_def)
  note slot_fresh [OF this]
  then have f: "map_of (live s) i = None" "i \<notin> unsaved s" "returned x i = None" "getJob ops (disk x) i = None" by auto
  have j: "jID ?j = i" "jState ?j = Queued" by (simp_all add: newJob_def)
  from insert_law [OF a(2) assms(4,5)]
  have p: "good p" "insertPost (getJob ops (disk x)) ?j (getJob ops p) r" by auto
  have c: "(began ?j stop r = None \<and> getJob ops p = getJob ops (disk x)) \<or> insertedJob (getJob ops (disk x)) ?j (getJob ops p)"
    using p(2) by (auto simp: insertPost_def began_def split: sum.splits prod.splits bool.splits)
  have b: "began ?j stop r = None \<or> (began ?j stop r = Some (?j, stop) \<and> getJob ops p i = Some ?j)"
    using p(2) j by (auto simp: insertPost_def insertedJob_def began_def split: sum.splits prod.splits bool.splits)
  show ?thesis
  proof (rule sysInv_slot [OF assms(1,2), where i = i and s' = s and y = ?y])
    show "slotAt ops ?y s i" using f b j by (auto simp: slotAt_def slotOk_def)
    fix k assume "k \<noteq> i"
    then show "(k \<in> used x \<longleftrightarrow> k \<in> used ?y) \<and> map_of (live s) k = map_of (live s) k \<and> (k \<in> unsaved s \<longleftrightarrow> k \<in> unsaved s)
      \<and> starting ?y k = starting x k \<and> returned ?y k = returned x k \<and>
      (getJob ops (disk ?y) k = getJob ops (disk x) k \<or>
       (getJob ops (disk ?y) k = None \<and> (\<exists>j. getJob ops (disk x) k = Some j \<and> jState j = Done)))"
      using c j(1) by (auto simp: insertedJob_def onlyEnded_def)
  qed (use assms(1) a(3) p(1) in simp_all)
qed

lemma inv_goLive:
  assumes "mem x = Some s" "sysInv ops good x" "starting x i = Some (j, stop)"
  shows "sysInv ops good (x\<lparr>mem := Some (goLive stop j s), starting := (starting x)(i := None)\<rparr>)"
    (is "sysInv _ _ ?y")
proof -
  have a: "slotAt ops x s i" "good (disk x)" "distinct (map fst (live s))" using assms(1,2) by (simp_all add: sysInv_mem)
  then have f: "map_of (live s) i = None" "getJob ops (disk x) i = Some j" "jID j = i"
    using assms(3) by (auto simp: slotAt_def slotOk_def split: option.splits)
  have st: "storable j" using get_storable [OF a(2) f(2)] .
  have g: "map_of (live (goLive stop j s)) = (map_of (live s))(i \<mapsto> \<lparr>hasStop = stop, job = j, durable = True, saving = False, attempts = 0\<rparr>)"
    "unsaved (goLive stop j s) = unsaved s" "distinct (map fst (live (goLive stop j s)))"
    using a(3) f(3) by (simp_all add: goLive_def bump_def AList.update_conv' distinct_update)
  show ?thesis
  proof (rule sysInv_slot [OF assms(1,2), where i = i and s' = "goLive stop j s" and y = ?y])
    show "slotAt ops ?y (goLive stop j s) i"
      using slot_goLive [OF _ st, of i "i \<in> used x" "i \<in> unsaved s" stop "returned x i" "getJob ops (disk x) i"] a(1) f(1) assms(3)
      by (simp add: slotAt_def g)
  qed (use g a in simp_all)
qed

end

lemma inv_update:
  assumes "mem x = Some s" "sysInv ops good x" "now \<noteq> zeroTime"
  shows "sysInv ops good (x\<lparr>mem := Some (fst (Update now i f s))\<rparr>)" (is "sysInv _ _ ?y")
proof -
  have a: "slotAt ops x s i" "good (disk x)" "distinct (map fst (live s))" using assms(1,2) by (simp_all add: sysInv_mem)
  show ?thesis
  proof (rule Update_cases [OF assms(3), of i f s])
    assume "fst (Update now i f s) = s"
    then show ?thesis using sysInv_same [OF assms(1,2)] by simp
  next
    fix l l'
    assume u: "map_of (live s) i = Some l" "jState (job l) \<noteq> Done" "updated l l'"
      "map_of (live (fst (Update now i f s))) = (map_of (live s))(i \<mapsto> l')"
      "unsaved (fst (Update now i f s)) = (if jState (job l') = Done then insert i (unsaved s) else unsaved s)"
      "distinct (map fst (live s)) \<longrightarrow> distinct (map fst (live (fst (Update now i f s))))"
    show ?thesis
    proof (rule sysInv_slot [OF assms(1,2), where i = i and s' = "fst (Update now i f s)" and y = ?y])
      show "slotAt ops ?y (fst (Update now i f s)) i"
        using slot_update [OF _ u(2,3), of i "i \<in> used x" "i \<in> unsaved s" "starting x i"] a(1) u(1)
        by (cases "jState (job l') = Done") (simp_all add: slotAt_def u(4,5))
    qed (use u(4,5,6) a in auto)
  qed
qed

lemma inv_take:
  assumes "mem x = Some s" "sysInv ops good x"
  shows "sysInv ops good (x\<lparr>mem := Some (fst (persistTake i s))\<rparr>)" (is "sysInv _ _ ?y")
proof (cases "\<exists>l. map_of (live s) i = Some l \<and> \<not> durable l \<and> \<not> saving l")
  case False
  then have "fst (persistTake i s) = s" by (auto simp: persistTake_def split: option.splits)
  then show ?thesis using sysInv_same [OF assms] by simp
next
  case True
  then obtain l where l: "map_of (live s) i = Some l" "\<not> durable l" "\<not> saving l" by blast
  define l' where "l' = l\<lparr>job := (if 0 < attempts l then (job l)\<lparr>jRev := jRev (job l) + 1\<rparr> else job l),
    attempts := attempts l + 1, saving := True\<rparr>"
  have a: "slotAt ops x s i" "good (disk x)" "distinct (map fst (live s))" using assms by (simp_all add: sysInv_mem)
  have t: "map_of (live (fst (persistTake i s))) = (map_of (live s))(i \<mapsto> l')" "unsaved (fst (persistTake i s)) = unsaved s"
    "distinct (map fst (live (fst (persistTake i s))))"
    using l a(3) by (simp_all add: persistTake_def l'_def Let_def)
  show ?thesis
  proof (rule sysInv_slot [OF assms, where i = i and s' = "fst (persistTake i s)" and y = ?y])
    show "slotAt ops ?y (fst (persistTake i s)) i"
      using slot_take [OF _ l(2,3)] a(1) l(1) by (simp add: slotAt_def t l'_def)
  qed (use t a in auto)
qed

definition settledStore :: "JobID \<Rightarrow> liveJob \<Rightarrow> Store \<Rightarrow> Store" where
  "settledStore i l s = (setLive i (l\<lparr>saving := False, durable := True\<rparr>) s)\<lparr>unsaved := unsaved s - {i}\<rparr>"

lemma inv_settled:
  assumes "mem x = Some s" "sysInv ops good x" "returned x i = Some True" "map_of (live s) i = Some l"
  shows "sysInv ops good (x\<lparr>returned := (returned x)(i := None), reports := rs, mem := Some (settledStore i l s)\<rparr>)"
    (is "sysInv _ _ ?y")
proof -
  have a: "slotAt ops x s i" "good (disk x)" "distinct (map fst (live s))" using assms(1,2) by (simp_all add: sysInv_mem)
  have s1: "map_of (live (settledStore i l s)) = (map_of (live s))(i \<mapsto> l\<lparr>saving := False, durable := True\<rparr>)"
    "unsaved (settledStore i l s) = unsaved s - {i}" "distinct (map fst (live (settledStore i l s)))"
    using a(3) by (simp_all add: settledStore_def)
  show ?thesis
  proof (rule sysInv_slot [OF assms(1,2), where i = i and s' = "settledStore i l s" and y = ?y])
    show "slotAt ops ?y (settledStore i l s) i" using slot_settle_done a(1) assms(3,4) by (simp add: slotAt_def s1)
  qed (use a s1 in auto)
qed

lemma inv_settle:
  assumes "mem x = Some s" "sysInv ops good x" "returned x i = Some ok" "persistSettle now i ok s = (s', r)"
  shows "sysInv ops good (x\<lparr>returned := (returned x)(i := None), reports := r # reports x, mem := Some s'\<rparr>)"
    (is "sysInv _ _ ?y")
proof -
  have a: "slotAt ops x s i" "good (disk x)" "distinct (map fst (live s))" using assms(1,2) by (simp_all add: sysInv_mem)
  then obtain l where l: "map_of (live s) i = Some l" using assms(3) by (auto simp: slotAt_def slotOk_def split: option.splits)
  show ?thesis
  proof (cases ok)
    case False
    then have s': "s' = setLive i (l\<lparr>saving := False\<rparr>) s" using assms(4) l by (simp add: persistSettle_def)
    show ?thesis
    proof (rule sysInv_slot [OF assms(1,2), where i = i and s' = s' and y = ?y])
      show "slotAt ops ?y s' i" using slot_settle_failed a(1) l assms(3) by (simp add: slotAt_def s')
    qed (use a in \<open>simp_all add: s'\<close>)
  next
    case True
    have s': "s' = evictExpired now (settledStore i l s)"
      using assms(4) l True by (simp add: persistSettle_def settledStore_def Let_def)
    have "returned x i = Some True" using assms(3) True by simp
    note z = inv_settled [OF assms(1,2) this l, where rs = "r # reports x"]
    note sysInv_evicted [OF _ z evictExpired_evicted [OF sysInv_keyed [OF _ z], where now = now]]
    then show ?thesis by (simp add: s')
  qed
qed

subsection \<open>Opening\<close>

definition freshLive :: "(JobID \<Rightarrow> Job option) \<Rightarrow> JobID \<Rightarrow> liveJob \<Rightarrow> bool" where
  "freshLive m i l \<longleftrightarrow> jID (job l) = i \<and> storable (job l) \<and> durable l \<and> \<not> saving l \<and> jState (job l) = Done \<and> m i = Some (job l)"

lemma interrupt_job: "now \<noteq> zeroTime \<Longrightarrow> storable j \<Longrightarrow> storable (interrupt now j)"
  "sameIdentity j (interrupt now j)" "jID (interrupt now j) = jID j" "jState (interrupt now j) = Done"
  "jRev j < jRev (interrupt now j)"
  using status_bytes by (simp_all add: interrupt_def storable_def sameIdentity_def)

context job_persister
begin

lemma interruptAll_spec:
  assumes "now \<noteq> zeroTime" "good p" "distinct (map jID js)" "\<And>j. j \<in> set js \<Longrightarrow> getJob ops p (jID j) = Some j"
    "distinct (map fst (live s))" "unsaved s = {}" "\<And>i l. map_of (live s) i = Some l \<Longrightarrow> freshLive (getJob ops p) i l"
    "\<And>j. j \<in> set js \<Longrightarrow> map_of (live s) (jID j) = None" "interruptAll ops now js p s = (p', m)"
  shows "good p' \<and> (\<forall>i. getJob ops p' i \<noteq> None \<longrightarrow> getJob ops p i \<noteq> None) \<and>
    (case m of None \<Rightarrow> True
     | Some s' \<Rightarrow> distinct (map fst (live s')) \<and> unsaved s' = {}
         \<and> (\<forall>i l. map_of (live s') i = Some l \<longrightarrow> freshLive (getJob ops p') i l)
         \<and> (\<forall>i. i \<notin> jID ` set js \<longrightarrow> getJob ops p' i = getJob ops p i)
         \<and> (\<forall>j \<in> set js. getJob ops p' (jID j) = Some (interrupt now j)))"
  using assms(2-9)
proof (induction js arbitrary: p s)
  case Nil
  then show ?case by (cases m) auto
next
  case (Cons j js)
  have "getJob ops p (jID j) = Some j" using Cons.prems(3) by simp
  note j = this get_storable [OF Cons.prems(1) this]
  note ij = interrupt_job(1) [OF assms(1) j(2)] interrupt_job(2-5)
  obtain p1 ok where p1: "putJob ops p (interrupt now j) = (p1, ok)" by (cases "putJob ops p (interrupt now j)")
  have "sameIdentity r (interrupt now j)" if r: "getJob ops p (jID (interrupt now j)) = Some r" for r
    using r j(1) ij(2,3) by (simp add: interrupt_job)
  from put_law [OF Cons.prems(1) ij(1) this p1]
  have g: "good p1" "putPost (getJob ops p) (interrupt now j) (getJob ops p1) ok" by auto
  have known: "\<forall>i. getJob ops p1 i \<noteq> None \<longrightarrow> getJob ops p i \<noteq> None"
    using g(2) j(1) by (auto simp: putPost_def interrupt_job split: if_splits)
  show ?case
  proof (cases ok)
    case False
    then show ?thesis using Cons.prems(8) p1 g(1) known by auto
  next
    case True
    let ?l = "\<lparr>hasStop = False, job = interrupt now j, durable = True, saving = False, attempts = 0\<rparr>"
    let ?s = "setLive (jID j) ?l s"
    have v: "getJob ops p1 = (getJob ops p)(jID j \<mapsto> interrupt now j)" using g(2) True by (auto simp: putPost_def interrupt_job)
    have run: "interruptAll ops now js p1 ?s = (p', m)" using Cons.prems(8) p1 True by simp
    have d: "jID j \<notin> jID ` set js" "distinct (map jID js)" using Cons.prems(2) by simp_all
    have ne: "jID j' \<noteq> jID j" if "j' \<in> set js" for j' using d(1) that by (metis imageI)
    have l: "map_of (live ?s) i = Some l \<Longrightarrow> freshLive (getJob ops p1) i l" for i l
      using Cons.prems(6) [of i l] ij(1) by (cases "i = jID j") (auto simp: freshLive_def v interrupt_job)
    have "good p' \<and> (\<forall>i. getJob ops p' i \<noteq> None \<longrightarrow> getJob ops p1 i \<noteq> None) \<and>
      (case m of None \<Rightarrow> True
       | Some s' \<Rightarrow> distinct (map fst (live s')) \<and> unsaved s' = {}
           \<and> (\<forall>i l. map_of (live s') i = Some l \<longrightarrow> freshLive (getJob ops p') i l)
           \<and> (\<forall>i. i \<notin> jID ` set js \<longrightarrow> getJob ops p' i = getJob ops p1 i)
           \<and> (\<forall>j \<in> set js. getJob ops p' (jID j) = Some (interrupt now j)))"
    proof (rule Cons.IH [OF g(1) d(2) _ _ _ l _ run])
      show "getJob ops p1 (jID j') = Some j'" if "j' \<in> set js" for j'
        using Cons.prems(3) [of j'] ne [OF that] that by (simp add: v)
      show "map_of (live ?s) (jID j') = None" if "j' \<in> set js" for j'
        using Cons.prems(7) [of j'] ne [OF that] that by simp
    qed (use Cons.prems(4,5) in simp_all)
    then show ?thesis using d(1) known by (cases m) (auto simp: v split: if_splits)
  qed
qed

lemma New_spec:
  assumes "now \<noteq> zeroTime" "good p" "New ops now p = (p', m)"
  shows "good p' \<and> (\<forall>i. getJob ops p' i \<noteq> None \<longrightarrow> getJob ops p i \<noteq> None) \<and>
    (case m of None \<Rightarrow> True
     | Some s \<Rightarrow> distinct (map fst (live s)) \<and> unsaved s = {}
         \<and> (\<forall>i l. map_of (live s) i = Some l \<longrightarrow> freshLive (getJob ops p') i l)
         \<and> (\<forall>i j. getJob ops p' i = Some j \<longrightarrow> jState j = Done))"
proof -
  obtain js where js: "unfinished ops p = Some js" "distinct (map jID js)"
    "\<And>j. j \<in> set js \<longleftrightarrow> getJob ops p (jID j) = Some j \<and> jState j \<noteq> Done" using unfinished_law [OF assms(2)] by blast
  obtain p1 m1 where r: "interruptAll ops now js p newStore = (p1, m1)" by (cases "interruptAll ops now js p newStore")
  have pm: "p' = p1" "m = map_option (\<lambda>s. fst (evictLocked now s)) m1"
    using assms(3) js(1) r by (auto simp: New_def split: option.splits)
  note spec = interruptAll_spec [OF assms(1,2) js(2), where s = newStore, OF _ _ _ _ _ r]
  have c: "good p1 \<and> (\<forall>i. getJob ops p1 i \<noteq> None \<longrightarrow> getJob ops p i \<noteq> None) \<and>
    (case m1 of None \<Rightarrow> True
     | Some s' \<Rightarrow> distinct (map fst (live s')) \<and> unsaved s' = {}
         \<and> (\<forall>i l. map_of (live s') i = Some l \<longrightarrow> freshLive (getJob ops p1) i l)
         \<and> (\<forall>i. i \<notin> jID ` set js \<longrightarrow> getJob ops p1 i = getJob ops p i)
         \<and> (\<forall>j \<in> set js. getJob ops p1 (jID j) = Some (interrupt now j)))"
    by (rule spec) (use js(3) in \<open>simp_all add: newStore_def\<close>)
  show ?thesis
  proof (cases m1)
    case None
    then show ?thesis using c pm by simp
  next
    case (Some s1)
    have s1: "distinct (map fst (live s1))" "unsaved s1 = {}" "\<And>i l. map_of (live s1) i = Some l \<Longrightarrow> freshLive (getJob ops p1) i l"
      "\<And>i. i \<notin> jID ` set js \<Longrightarrow> getJob ops p1 i = getJob ops p i" "\<And>j. j \<in> set js \<Longrightarrow> getJob ops p1 (jID j) = Some (interrupt now j)"
      using c Some by simp_all
    have "keyed s1" using s1(1,3) by (auto simp: keyed_def freshLive_def)
    then have e: "evicted s1 (fst (evictLocked now s1))" by (rule evictLocked_evicted)
    then have l: "freshLive (getJob ops p1) i l" if "map_of (live (fst (evictLocked now s1))) i = Some l" for i l
      using that s1(3) unfolding evicted_def by (metis option.distinct(1))
    have "jState j = Done" if j: "getJob ops p1 i = Some j" for i j
    proof (cases "i \<in> jID ` set js")
      case True
      then show ?thesis using j s1(5) by (auto simp: interrupt_job)
    next
      case False
      then have "getJob ops p i = Some j" using j s1(4) by simp
      moreover from this have "jID j = i" by (rule get_id)
      ultimately show ?thesis using False js(3) [of j] by auto
    qed
    then show ?thesis using c pm Some e l s1(2) by (simp add: evicted_def)
  qed
qed

lemma inv_reopen:
  assumes "now \<noteq> zeroTime" "sysInv ops good x" shows "sysInv ops good (reopen ops now x)"
proof -
  obtain p m where n: "New ops now (disk x) = (p, m)" by (cases "New ops now (disk x)")
  have "good (disk x)" using assms(2) by (simp add: sysInv_def)
  note c = New_spec [OF assms(1) this n]
  have k: "getJob ops p i \<noteq> None \<longrightarrow> i \<in> used x" for i using c sysInv_known [OF assms(2)] by blast
  show ?thesis
  proof (cases m)
    case None
    then show ?thesis using c k by (simp add: sysInv_def reopen_def n)
  next
    case (Some s)
    have "slotOk i (i \<in> used x) (map_of (live s) i) (i \<in> unsaved s) None None (getJob ops p i)" for i
    proof (cases "map_of (live s) i")
      case None
      then show ?thesis using k [of i] c Some by (simp add: slotOk_def)
    next
      case (Some l)
      then have "freshLive (getJob ops p) i l" using c \<open>m = Some s\<close> by simp
      then show ?thesis using k [of i] c \<open>m = Some s\<close> Some by (auto simp: slotOk_def freshLive_def recorded_def)
    qed
    then show ?thesis using c Some by (simp add: sysInv_def reopen_def n)
  qed
qed

lemma inv_sweep:
  assumes "sysInv ops good x" shows "sysInv ops good (x\<lparr>disk := sweepRecords ops now (disk x)\<rparr>)"
proof -
  have g: "good (disk x)" using assms by (simp add: sysInv_def)
  note w = sweep_law [OF g, of "now - recordMaxAge"]
  then have d: "getJob ops (sweepRecords ops now (disk x)) i = getJob ops (disk x) i \<or>
    (getJob ops (sweepRecords ops now (disk x)) i = None \<and> (\<exists>j. getJob ops (disk x) i = Some j \<and> jState j = Done))" for i
    by (simp add: onlyEnded_def sweepRecords_def)
  show ?thesis
  proof (cases "mem x")
    case None
    then show ?thesis using assms w d unfolding sysInv_def by (simp add: sweepRecords_def) (metis option.distinct(1))
  next
    case (Some s)
    have "slotOk i (i \<in> used x) (map_of (live s) i) (i \<in> unsaved s) (starting x i) (returned x i)
        (getJob ops (sweepRecords ops now (disk x)) i)" for i
    proof -
      have i: "slotOk i (i \<in> used x) (map_of (live s) i) (i \<in> unsaved s) (starting x i) (returned x i) (getJob ops (disk x) i)"
        using assms by (simp add: sysInv_mem [OF Some] slotAt_def)
      from d [of i] show ?thesis
      proof (elim disjE conjE exE)
        fix j assume "getJob ops (sweepRecords ops now (disk x)) i = None" "getJob ops (disk x) i = Some j" "jState j = Done"
        then show ?thesis using slot_drop [OF i [unfolded \<open>getJob ops (disk x) i = Some j\<close>]] by simp
      qed (use i in simp)
    qed
    then show ?thesis using assms w Some by (simp add: sysInv_def sweepRecords_def)
  qed
qed

theorem step_inv: "sysStep ops e x y \<Longrightarrow> sysInv ops good x \<Longrightarrow> sysInv ops good y"
proof (induction rule: sysStep.induct)
  case (insert x s j i now stop p r)
  then show ?case by (intro inv_insert)
next
  case (goLive x s i j stop)
  then show ?case by (intro inv_goLive)
next
  case (update x s now i f)
  then show ?case by (intro inv_update)
next
  case (take x s i)
  then show ?case by (intro inv_take)
next
  case (put x s i l p ok)
  then show ?case by (intro inv_put)
next
  case (settle x s i ok now s' r)
  then show ?case by (intro inv_settle)
next
  case (report x s xs r ys now)
  then have "sysInv ops good (x\<lparr>mem := Some (persistReport e now r s)\<rparr>)" by (intro sysInv_same) simp_all
  then show ?case by (simp add: sysInv_def)
next
  case (expire x s now)
  then show ?case using sysInv_evicted [OF expire(1,2) evictExpired_evicted] sysInv_keyed by blast
next
  case (sweep x now)
  then show ?case by (intro inv_sweep)
next
  case (crash now x)
  then show ?case by (intro inv_reopen)
qed (rule sysInv_same; simp)+

end

subsection \<open>What Get answers along a run\<close>

definition seenOf :: "liveJob option \<Rightarrow> Job option \<Rightarrow> Job option" where
  "seenOf lv r = (case lv of Some l \<Rightarrow> Some (job l) | None \<Rightarrow> r)"

lemma seen_mem: "mem x = Some s \<Longrightarrow> seen ops x i = seenOf (map_of (live s) i) (getJob ops (disk x) i)"
  by (simp add: seen_def seenOf_def Get_def split: option.split)

lemma seen_down: "mem x = None \<Longrightarrow> seen ops x i = None"
  by (simp add: seen_def)

text \<open>A later answer continues an earlier one: no lower revision, and once \<open>Done\<close> only the revision moves.\<close>

definition continues :: "Job \<Rightarrow> Job \<Rightarrow> bool" where
  "continues j j' \<longleftrightarrow> jRev j \<le> jRev j' \<and> (jState j = Done \<longrightarrow> j' = j\<lparr>jRev := jRev j'\<rparr>)"

definition carried :: "Job option \<Rightarrow> Job option \<Rightarrow> bool" where
  "carried a b \<longleftrightarrow> (case b of None \<Rightarrow> True | Some j' \<Rightarrow> (case a of None \<Rightarrow> False | Some j \<Rightarrow> continues j j'))"

lemma continues_refl [simp]: "continues j j"
  by (simp add: continues_def)

lemma continues_trans: "continues a b \<Longrightarrow> continues b c \<Longrightarrow> continues a c"
  by (cases a; cases b; cases c) (auto simp: continues_def)

lemma carried_refl [simp]: "carried a a"
  by (simp add: carried_def split: option.split)

lemma carried_trans: "carried a b \<Longrightarrow> carried b c \<Longrightarrow> carried a c"
  using continues_trans by (fastforce simp: carried_def split: option.splits)

lemma carried_live:
  "carried (seenOf (Some l) r) (seenOf (Some l') r') \<longleftrightarrow> continues (job l) (job l')"
  "carried (seenOf lv r) (seenOf lv r)"
  "jRev j \<le> jRev j' \<Longrightarrow> jState j \<noteq> Done \<Longrightarrow> continues j j'" "continues j (j\<lparr>jRev := Suc (jRev j)\<rparr>)"
  by (simp_all add: carried_def seenOf_def continues_def)

lemma carried_drop: "r' = r \<or> r' = None \<Longrightarrow> carried (seenOf lv r) (seenOf lv r')"
  by (auto simp: carried_def seenOf_def split: option.split)


lemma insertPost_others:
  assumes "insertPost m j m' r" "k \<noteq> jID j" shows "m' k = m k \<or> m' k = None"
proof -
  have "m' = m \<or> insertedJob m j m'" using assms(1) by (auto simp: insertPost_def split: sum.splits prod.splits bool.splits)
  then show ?thesis
  proof
    assume "insertedJob m j m'"
    then obtain m1 where "onlyEnded m m1" "m' = m1(jID j \<mapsto> j)" by (auto simp: insertedJob_def)
    then show ?thesis using assms(2) by (auto simp: onlyEnded_def)
  qed simp
qed

lemma evicted_carried:
  assumes "mem x = Some s" "sysInv ops good x" "evicted s s'"
  shows "carried (seenOf (map_of (live s) i) (getJob ops (disk x) i)) (seenOf (map_of (live s') i) (getJob ops (disk x) i))"
proof -
  from assms(3) have "map_of (live s') i = map_of (live s) i \<or>
    (map_of (live s') i = None \<and> (\<exists>l. map_of (live s) i = Some l \<and> jState (job l) = Done \<and> durable l))" by (simp add: evicted_def)
  then show ?thesis
  proof (elim disjE conjE exE)
    fix l assume l: "map_of (live s') i = None" "map_of (live s) i = Some l" "jState (job l) = Done" "durable l"
    have "slotAt ops x s i" using assms(1,2) by (simp add: sysInv_mem)
    then have "getJob ops (disk x) i = None \<or> getJob ops (disk x) i = Some (job l)"
      using slot_live l by (auto simp: slotAt_def recorded_def)
    then show ?thesis using l by (auto simp: seenOf_def carried_def)
  qed simp
qed

context job_persister
begin

text \<open>Every step but a crash carries every known job on.\<close>

lemma step_carried:
  "sysStep ops e x y \<Longrightarrow> sysInv ops good x \<Longrightarrow> i \<in> used x \<Longrightarrow>
   (\<exists>now. now \<noteq> zeroTime \<and> y = reopen ops now x) \<or> (i \<in> used y \<and> carried (seen ops x i) (seen ops y i))"
proof (induction rule: sysStep.induct)
  case (insert x s j i' now stop p r)
  have "good (disk x)" using insert by (simp add: sysInv_def)
  then have "insertPost (getJob ops (disk x)) (newJob now i' stop j) (getJob ops p) r"
    using insert_law insert by blast
  moreover have "i \<noteq> jID (newJob now i' stop j)" using insert by (auto simp: newJob_def)
  ultimately have "getJob ops p i = getJob ops (disk x) i \<or> getJob ops p i = None" by (rule insertPost_others)
  then show ?case using insert carried_drop by (simp add: seen_mem)
next
  case (goLive x s i' j stop)
  have "slotAt ops x s i'" using goLive by (simp add: sysInv_mem)
  then have f: "map_of (live s) i' = None" "getJob ops (disk x) i' = Some j" "jID j = i'"
    using goLive(2) by (auto simp: slotAt_def slotOk_def split: option.splits)
  have "seen ops (x\<lparr>mem := Some (goLive stop j s), starting := (starting x)(i' := None)\<rparr>) i = seen ops x i"
    using f goLive(1) by (simp add: seen_mem seenOf_def goLive_def bump_def AList.update_conv')
  then show ?case using goLive by simp
next
  case (update x s now i' f)
  show ?case
  proof (rule Update_cases [OF update(2), of i' f s])
    assume "fst (Update now i' f s) = s"
    then show ?thesis using update by (simp add: seen_mem)
  next
    fix l l' assume u: "map_of (live s) i' = Some l" "jState (job l) \<noteq> Done" "updated l l'"
      "map_of (live (fst (Update now i' f s))) = (map_of (live s))(i' \<mapsto> l')"
    then have "carried (seenOf (map_of (live s) i) r) (seenOf (map_of (live (fst (Update now i' f s))) i) r)" for r
      by (cases "i = i'") (auto simp: u(4) carried_live updated_def)
    then show ?thesis using update by (simp add: seen_mem)
  qed
next
  case (take x s i')
  have "carried (seenOf (map_of (live s) i) r) (seenOf (map_of (live (fst (persistTake i' s))) i) r)" for r
  proof (cases "map_of (live s) i'")
    case None
    then show ?thesis by (simp add: persistTake_def)
  next
    case (Some l)
    then show ?thesis by (cases "i = i'") (auto simp: persistTake_def Let_def carried_live)
  qed
  then show ?case using take by (simp add: seen_mem)
next
  case (put x s i' l p ok)
  have a: "slotAt ops x s i'" "good (disk x)" using put by (simp_all add: sysInv_mem)
  have l: "storable (job l)" "jID (job l) = i'" "recorded None l (getJob ops (disk x) i')"
    using slot_live a(1) put(2,4) by (auto simp: slotAt_def)
  have "sameIdentity r (job l)" if r: "getJob ops (disk x) (jID (job l)) = Some r" for r
    using l r by (simp add: recorded_def)
  then have "putPost (getJob ops (disk x)) (job l) (getJob ops p) ok" using put_law a(2) l(1) put(5) by blast
  then have "seen ops (x\<lparr>disk := p, returned := (returned x)(i' \<mapsto> ok)\<rparr>) i = seen ops x i"
    using put(1,2) l(2) by (auto simp: seen_mem seenOf_def putPost_def split: option.split)
  then show ?case using put by simp
next
  case (settle x s i' ok now s' r)
  have "slotAt ops x s i'" using settle by (simp add: sysInv_mem)
  then obtain l where l: "map_of (live s) i' = Some l" using settle(2) by (auto simp: slotAt_def slotOk_def split: option.splits)
  have "carried (seenOf (map_of (live s) i) (getJob ops (disk x) i)) (seenOf (map_of (live s') i) (getJob ops (disk x) i))"
  proof (cases ok)
    case False
    then show ?thesis using settle(3) l by (auto simp: persistSettle_def seenOf_def)
  next
    case True
    have s': "s' = evictExpired now (settledStore i' l s)"
      using settle(3) l True by (simp add: persistSettle_def settledStore_def Let_def)
    have "returned x i' = Some True" using settle(2) True by simp
    note z = inv_settled [OF settle(1,4) this l, where rs = "r # reports x"]
    note evicted_carried [OF _ z evictExpired_evicted [OF sysInv_keyed [OF _ z], where now = now], where i = i]
    moreover have "seenOf (map_of (live (settledStore i' l s)) i) w = seenOf (map_of (live s) i) w" for w
      using l by (simp add: settledStore_def seenOf_def)
    ultimately show ?thesis by (simp add: s')
  qed
  then show ?case using settle by (simp add: seen_mem)
next
  case (expire x s now)
  then have e: "evicted s (evictExpired now s)" using sysInv_keyed evictExpired_evicted by blast
  from evicted_carried [OF expire(1,2) e, of i] show ?case using expire by (simp add: seen_mem)
next
  case (sweep x now)
  then have "good (disk x)" by (simp add: sysInv_def)
  then have "getJob ops (sweepRecords ops now (disk x)) i = getJob ops (disk x) i \<or> getJob ops (sweepRecords ops now (disk x)) i = None"
    using sweep_law [of "disk x" "now - recordMaxAge"] by (auto simp: onlyEnded_def sweepRecords_def)
  then show ?case using sweep carried_drop by (cases "mem x") (simp_all add: seen_mem seen_down)
next
  case (crash now x)
  then show ?case by blast
qed (simp_all add: seen_mem)

end

text \<open>A run between two crashes.\<close>

definition runStep :: "'p persister \<Rightarrow> alertEnv \<Rightarrow> 'p sys \<Rightarrow> 'p sys \<Rightarrow> bool" where
  "runStep ops e x y \<longleftrightarrow> sysStep ops e x y \<and> (\<nexists>now. now \<noteq> zeroTime \<and> y = reopen ops now x)"

definition allEnded :: "'p persister \<Rightarrow> 'p sys \<Rightarrow> JobID \<Rightarrow> bool" where
  "allEnded ops x i \<longleftrightarrow> i \<in> used x \<and> (\<nexists>j. seen ops x i = Some j \<and> jState j \<noteq> Done)"

context job_persister
begin

lemma steps_inv: "sysSteps ops e x y \<Longrightarrow> sysInv ops good x \<Longrightarrow> sysInv ops good y"
  by (induction rule: rtranclp_induct) (auto intro: step_inv)

lemma run_carried:
  "(runStep ops e)\<^sup>*\<^sup>* x y \<Longrightarrow> sysInv ops good x \<Longrightarrow> i \<in> used x \<Longrightarrow>
   i \<in> used y \<and> carried (seen ops x i) (seen ops y i) \<and> sysInv ops good y"
proof (induction rule: rtranclp_induct)
  case base
  then show ?case by simp
next
  case (step y z)
  then have s: "sysStep ops e y z" "\<nexists>now. now \<noteq> zeroTime \<and> z = reopen ops now y" by (simp_all add: runStep_def)
  have y: "i \<in> used y" "carried (seen ops x i) (seen ops y i)" "sysInv ops good y" using step by simp_all
  have "i \<in> used z \<and> carried (seen ops y i) (seen ops z i)" using step_carried [OF s(1) y(3,1)] s(2) by blast
  then show ?case using carried_trans [OF y(2)] step_inv [OF s(1) y(3)] by blast
qed

lemma reopen_ended:
  assumes "now \<noteq> zeroTime" "sysInv ops good x" "i \<in> used x" shows "allEnded ops (reopen ops now x) i"
proof -
  obtain p m where n: "New ops now (disk x) = (p, m)" by (cases "New ops now (disk x)")
  have "good (disk x)" using assms(2) by (simp add: sysInv_def)
  note c = New_spec [OF assms(1) this n]
  have "jState j = Done" if j: "seen ops (reopen ops now x) i = Some j" for j
  proof (cases m)
    case None
    then show ?thesis using j by (simp add: reopen_def n seen_def)
  next
    case (Some s)
    then have w: "seenOf (map_of (live s) i) (getJob ops p i) = Some j" using j by (simp add: reopen_def n seen_mem)
    show ?thesis
    proof (cases "map_of (live s) i")
      case None
      then show ?thesis using w c Some by (simp add: seenOf_def)
    next
      case (Some l)
      then have "freshLive (getJob ops p) i l" using c \<open>m = Some s\<close> by simp
      then show ?thesis using w Some by (simp add: seenOf_def freshLive_def)
    qed
  qed
  moreover have "i \<in> used (reopen ops now x)" using assms(3) by (simp add: reopen_def n)
  ultimately show ?thesis unfolding allEnded_def by blast
qed

lemma steps_ended: "sysSteps ops e x y \<Longrightarrow> sysInv ops good x \<Longrightarrow> allEnded ops x i \<Longrightarrow> allEnded ops y i"
proof (induction rule: rtranclp_induct)
  case base
  then show ?case by simp
next
  case (step y z)
  then have y: "sysInv ops good y" "allEnded ops y i" using steps_inv by blast+
  then have k: "i \<in> used y" by (simp add: allEnded_def)
  from step_carried [OF step(2) y(1) k] show ?case
  proof (elim disjE exE conjE)
    fix now assume "now \<noteq> zeroTime" "z = reopen ops now y"
    then show ?thesis using reopen_ended [OF _ y(1) k] by simp
  next
    assume z: "i \<in> used z" "carried (seen ops y i) (seen ops z i)"
    have "jState j' = Done" if "seen ops z i = Some j'" for j'
      using z(2) y(2) that by (auto simp: carried_def continues_def allEnded_def split: option.splits) (metis Job.select_convs(13) Job.surjective Job.update_convs(11))
    then show ?thesis using z(1) by (auto simp: allEnded_def)
  qed
qed

end

subsection \<open>Attempts\<close>

definition idle :: "Store \<Rightarrow> bool" where
  "idle s \<longleftrightarrow> (\<forall>i l. map_of (live s) i = Some l \<longrightarrow> \<not> saving l)"

text \<open>A whole attempt is a take, a write, a settling and a report.\<close>

lemma persist_steps:
  assumes "mem x = Some s" "returned x i = None" "persist ops e now i (disk x, s) = (p, s')"
  shows "sysSteps ops e x (x\<lparr>disk := p, mem := Some s'\<rparr>)"
proof (cases "snd (persistTake i s)")
  case None
  then have "p = disk x" "s' = fst (persistTake i s)" using assms(3) by (auto simp: persist_def split: prod.splits)
  moreover have "sysStep ops e x (x\<lparr>mem := Some (fst (persistTake i s))\<rparr>)" using assms(1) by (rule sysStep.take)
  ultimately show ?thesis by (simp add: r_into_rtranclp)
next
  case (Some j)
  define s1 where "s1 = fst (persistTake i s)"
  obtain l where l: "map_of (live s1) i = Some l" "saving l" "job l = j"
    using Some by (auto simp: s1_def persistTake_def Let_def split: option.splits if_splits)
  obtain ok where q: "putJob ops (disk x) j = (p, ok)" "s' = persistDone e now i ok s1"
    using assms(3) Some by (auto simp: persist_def s1_def split: prod.splits)
  obtain s2 r where s2: "persistSettle now i ok s1 = (s2, r)" by (cases "persistSettle now i ok s1")
  have s': "s' = persistReport e now r s2" using q(2) s2 by (simp add: persistDone_def)
  let ?x1 = "x\<lparr>mem := Some s1\<rparr>"
  let ?x2 = "?x1\<lparr>disk := p, returned := (returned ?x1)(i \<mapsto> ok)\<rparr>"
  let ?x3 = "?x2\<lparr>returned := (returned ?x2)(i := None), reports := r # reports ?x2, mem := Some s2\<rparr>"
  let ?x4 = "?x3\<lparr>mem := Some s', reports := [] @ reports x\<rparr>"
  have t1: "sysStep ops e x ?x1" unfolding s1_def using assms(1) by (rule sysStep.take)
  have t2: "sysStep ops e ?x1 ?x2" by (rule sysStep.put [of _ s1 _ l]) (use assms(2) l q(1) in simp_all)
  have t3: "sysStep ops e ?x2 ?x3" by (rule sysStep.settle [of _ s1 i ok]) (use s2 in simp_all)
  have t4: "sysStep ops e ?x3 ?x4" unfolding s' by (rule sysStep.report) simp_all
  have "sysSteps ops e x ?x4"
    by (rule converse_rtranclp_into_rtranclp [OF t1 converse_rtranclp_into_rtranclp [OF t2
      converse_rtranclp_into_rtranclp [OF t3 r_into_rtranclp [of "sysStep ops e", OF t4]]]])
  moreover have "?x4 = x\<lparr>disk := p, mem := Some s'\<rparr>" using assms(2) by (cases x) auto
  ultimately show ?thesis by (simp only:)
qed

lemma Reconcile_job_records: "map_of (alerts (Reconcile e now AlertJobRecords False t s)) AlertJobRecords = None"
proof -
  have "AlertKind e AlertJobRecords = Some AlertJobRecords" by (simp add: AlertKind_def AlertJobRecords_def fixedKinds_def)
  then show ?thesis by (simp add: Reconcile_def Let_def AList.delete_conv')
qed

context job_persister
begin

lemma persist_calm:
  assumes m: "mem x = Some s" and i: "sysInv ops good x" and c: "calm (disk x)" and d: "idle s" and r: "returned x = (\<lambda>_. None)"
    and p: "persist ops e now i (disk x, s) = (p', s')"
  shows "calm p' \<and> idle s' \<and> (\<forall>k. getJob ops p' k = None \<longleftrightarrow> getJob ops (disk x) k = None)
    \<and> unsaved s' = unsaved s - {k. k = i \<and> getJob ops (disk x) k \<noteq> None}
    \<and> (unsaved s = {} \<longrightarrow> p' = disk x \<and> s' = s)
    \<and> (unsaved s' = {} \<longrightarrow> unsaved s = {} \<or> map_of (alerts s') AlertJobRecords = None)
    \<and> endsStored (getJob ops (disk x)) {i} s (getJob ops p')
    \<and> (\<forall>k. k \<in> unsaved s' \<longrightarrow> k \<noteq> i \<longrightarrow> map_of (live s') k = map_of (live s) k)"
proof (cases "snd (persistTake i s)")
  case None
  then have e: "fst (persistTake i s) = s" using d by (auto simp: persistTake_def Let_def split: option.splits if_splits)
  then have "p' = disk x \<and> s' = s" using p None by (auto simp: persist_def split: prod.splits)
  moreover have "i \<notin> unsaved s"
  proof
    assume u: "i \<in> unsaved s"
    have "slotAt ops x s i" using i by (simp add: sysInv_mem [OF m])
    then obtain l where "map_of (live s) i = Some l" "\<not> durable l" using u by (auto simp: slotAt_def slotOk_def split: option.splits)
    then show False using None d by (auto simp: persistTake_def Let_def idle_def)
  qed
  ultimately show ?thesis using c d by (auto simp: endsStored_def)
next
  case (Some j)
  define s1 where "s1 = fst (persistTake i s)"
  obtain l0 where l0: "map_of (live s) i = Some l0" "\<not> durable l0" "\<not> saving l0"
    using Some by (auto simp: persistTake_def Let_def split: option.splits if_splits)
  define l where "l = l0\<lparr>job := j, attempts := attempts l0 + 1, saving := True\<rparr>"
  have s1: "map_of (live s1) = (map_of (live s))(i \<mapsto> l)" "unsaved s1 = unsaved s"
    using Some l0 by (auto simp: s1_def l_def persistTake_def Let_def split: if_splits)
  have j: "job l = j" "saving l" "\<not> durable l" using l0 by (simp_all add: l_def)
  obtain ok where q: "putJob ops (disk x) j = (p', ok)" "s' = persistDone e now i ok s1"
    using p Some by (auto simp: persist_def s1_def split: prod.splits)
  let ?x1 = "x\<lparr>mem := Some s1\<rparr>"
  have i1: "sysInv ops good ?x1" unfolding s1_def by (rule inv_take [OF m i])
  then have a: "slotAt ops ?x1 s1 i" "good (disk x)" by (simp_all add: sysInv_mem)
  have a: "slotOk i (i \<in> used x) (Some l) (i \<in> unsaved s) (starting x i) None (getJob ops (disk x) i)"
    using a(1) r by (simp add: slotAt_def s1)
  note lv = slot_live [OF a]
  then have jr: "storable j" "jID j = i" "recorded None l (getJob ops (disk x) i)" "i \<in> unsaved s" "jState j = Done" using j by simp_all
  have st0: "storedAs l0 j"
    using Some l0 jr(5) by (auto simp: storedAs_def persistTake_def Let_def split: if_splits)
  have same: "sameIdentity w j" "jRev w < jRev j" if "getJob ops (disk x) i = Some w" for w
    using jr(3,5) that j lv by (auto simp: recorded_def)
  have g: "good (disk x)" using i by (simp add: sysInv_def)
  have post: "putPost (getJob ops (disk x)) j (getJob ops p') ok" using put_law [OF g jr(1) _ q(1)] same(1) jr(2) by auto
  have okn: "ok \<longleftrightarrow> getJob ops (disk x) i \<noteq> None"
  proof
    show "ok \<Longrightarrow> getJob ops (disk x) i \<noteq> None" using post jr(2) by (auto simp: putPost_def)
    assume "getJob ops (disk x) i \<noteq> None"
    then obtain w where "getJob ops (disk x) i = Some w" by blast
    then show ok using put_lands [OF g c jr(1) _ _ _ q(1), of w] same jr(2) by simp
  qed
  have nn: "\<forall>k. getJob ops p' k = None \<longleftrightarrow> getJob ops (disk x) k = None" using post by (auto simp: putPost_def split: if_splits)
  have k1: "keyed s1" using sysInv_keyed [OF _ i1] by simp
  show ?thesis
  proof (cases ok)
    case False
    have s': "s' = persistReport e now (Some True) (setLive i (l\<lparr>saving := False\<rparr>) s1)"
      using q(2) False s1(1) by (simp add: persistDone_def persistSettle_def)
    have "idle s'" using d s1(1) by (auto simp: s' idle_def)
    moreover have "unsaved s' = unsaved s" by (simp add: s' s1)
    moreover have "getJob ops p' = getJob ops (disk x)" using post okn False jr(2) by (auto simp: putPost_def)
    then have "endsStored (getJob ops (disk x)) {i} s (getJob ops p')" using okn False by (auto simp: endsStored_def)
    moreover have "map_of (live s') k = map_of (live s) k" if "k \<noteq> i" for k using that by (simp add: s' s1)
    ultimately show ?thesis using put_calm [OF c q(1)] nn okn False jr(4) by auto
  next
    case True
    define s2 where "s2 = settledStore i l s1"
    have s2: "map_of (live s2) = (map_of (live s))(i \<mapsto> l\<lparr>saving := False, durable := True\<rparr>)" "unsaved s2 = unsaved s - {i}"
      by (simp_all add: s2_def settledStore_def s1)
    have s': "s' = persistReport e now (if unsaved s2 = {} then Some False else None) (evictExpired now s2)"
      using q(2) True s1(1) by (simp add: persistDone_def persistSettle_def s2_def settledStore_def Let_def)
    have "keyed s2"
      using k1 jr(2) j(1) s1(1) by (simp add: keyed_def s2_def settledStore_def)
    then have ev: "evicted s2 (evictExpired now s2)" by (rule evictExpired_evicted)
    then have u: "unsaved s' = unsaved s - {i}" by (simp add: s' s2 evicted_def)
    have "idle s'" unfolding idle_def
    proof (intro allI impI)
      fix k w assume w: "map_of (live s') k = Some w"
      then have "map_of (live s2) k = Some w" using ev unfolding evicted_def s' by (metis jobs_kept(7) option.distinct(1))
      then show "\<not> saving w" using d by (auto simp: s2 idle_def split: if_splits)
    qed
    moreover have "unsaved s' = {} \<longrightarrow> map_of (alerts s') AlertJobRecords = None"
      by (simp add: s' s2 persistReport_def Reconcile_job_records) (use u in \<open>simp add: s' s2\<close>)
    moreover have "getJob ops p' = (getJob ops (disk x))(i \<mapsto> j)" using post True jr(2) by (auto simp: putPost_def)
    then have "endsStored (getJob ops (disk x)) {i} s (getJob ops p')" using st0 okn True l0(1) jr(4) by (auto simp: endsStored_def)
    moreover have "map_of (live s') k = map_of (live s) k" if k: "k \<in> unsaved s'" "k \<noteq> i" for k
    proof -
      have "slotAt ops x s k" "k \<in> unsaved s" using i k(1) u by (auto simp: sysInv_mem [OF m])
      then have "\<not> (\<exists>l. map_of (live s) k = Some l \<and> durable l)" by (auto simp: slotAt_def slotOk_def)
      then show ?thesis using ev k(2) unfolding evicted_def s' by (simp add: s2) metis
    qed
    ultimately show ?thesis using put_calm [OF c q(1)] nn okn True u jr(4) by auto
  qed
qed

lemma save_fold:
  assumes "mem x = Some s" "sysInv ops good x" "calm (disk x)" "idle s" "returned x = (\<lambda>_. None)"
    "fold (persist ops e now) ids (disk x, s) = (p', s')"
  shows "sysSteps ops e x (x\<lparr>disk := p', mem := Some s'\<rparr>)
    \<and> unsaved s' = unsaved s - {k \<in> set ids. getJob ops (disk x) k \<noteq> None}
    \<and> (unsaved s = {} \<longrightarrow> p' = disk x \<and> s' = s)
    \<and> (unsaved s' = {} \<longrightarrow> unsaved s = {} \<or> map_of (alerts s') AlertJobRecords = None)
    \<and> endsStored (getJob ops (disk x)) (set ids) s (getJob ops p')"
  using assms
proof (induction ids arbitrary: x s)
  case Nil
  have "x\<lparr>disk := p', mem := Some s'\<rparr> = x" using Nil by (cases x) simp
  then show ?case using Nil.prems(6) by (simp add: endsStored_def)
next
  case (Cons i ids)
  obtain p1 s1 where q: "persist ops e now i (disk x, s) = (p1, s1)" by (cases "persist ops e now i (disk x, s)")
  let ?x1 = "x\<lparr>disk := p1, mem := Some s1\<rparr>"
  have st: "sysSteps ops e x ?x1" by (rule persist_steps [OF Cons.prems(1) _ q]) (simp add: Cons.prems(5))
  note pc = persist_calm [OF Cons.prems(1-5) q]
  have c: "calm p1 \<and> idle s1 \<and> (\<forall>k. getJob ops p1 k = None \<longleftrightarrow> getJob ops (disk x) k = None)
    \<and> unsaved s1 = unsaved s - {k. k = i \<and> getJob ops (disk x) k \<noteq> None} \<and> (unsaved s = {} \<longrightarrow> p1 = disk x \<and> s1 = s)
    \<and> (unsaved s1 = {} \<longrightarrow> unsaved s = {} \<or> map_of (alerts s1) AlertJobRecords = None)" using pc by (elim conjE) (intro conjI)
  have cs: "endsStored (getJob ops (disk x)) {i} s (getJob ops p1)"
    "k \<in> unsaved s1 \<Longrightarrow> k \<noteq> i \<Longrightarrow> map_of (live s1) k = map_of (live s) k" for k using pc by (elim conjE, iprover)+
  have "sysSteps ops e ?x1 (?x1\<lparr>disk := p', mem := Some s'\<rparr>)
    \<and> unsaved s' = unsaved s1 - {k \<in> set ids. getJob ops (disk ?x1) k \<noteq> None}
    \<and> (unsaved s1 = {} \<longrightarrow> p' = disk ?x1 \<and> s' = s1)
    \<and> (unsaved s' = {} \<longrightarrow> unsaved s1 = {} \<or> map_of (alerts s') AlertJobRecords = None)
    \<and> endsStored (getJob ops (disk ?x1)) (set ids) s1 (getJob ops p')"
    by (rule Cons.IH) (use Cons.prems(5,6) q c steps_inv [OF st Cons.prems(2)] in simp_all)
  then have h: "sysSteps ops e ?x1 (x\<lparr>disk := p', mem := Some s'\<rparr>)"
    "unsaved s' = unsaved s1 - {k \<in> set ids. getJob ops (disk x) k \<noteq> None}" "unsaved s1 = {} \<longrightarrow> p' = p1 \<and> s' = s1"
    "unsaved s' = {} \<longrightarrow> unsaved s1 = {} \<or> map_of (alerts s') AlertJobRecords = None"
    "endsStored (getJob ops p1) (set ids) s1 (getJob ops p')" using c by simp_all
  have "endsStored (getJob ops (disk x)) (set (i # ids)) s (getJob ops p')"
    unfolding list.set by (rule endsStored_trans [OF cs(1) h(5) _ _ cs(2)]) (use c in blast)+
  moreover have "unsaved s' = unsaved s - {k \<in> set (i # ids). getJob ops (disk x) k \<noteq> None}" using h(2) c by auto
  moreover have "unsaved s = {} \<longrightarrow> p' = disk x \<and> s' = s" using h(3) c by auto
  moreover have "unsaved s' = {} \<longrightarrow> unsaved s = {} \<or> map_of (alerts s') AlertJobRecords = None" using h(3,4) c by auto
  moreover have "sysSteps ops e x (x\<lparr>disk := p', mem := Some s'\<rparr>)" using st h(1) by (rule rtranclp_trans)
  ultimately show ?case by blast
qed

end

end
