(* ===== verification/JobRun.thy ===== *)
theory JobRun
  imports JobTable StatusRun
begin

text \<open>
  The status store over statedb's job table: jobs.go keeps the contract of the locale \<open>job_persister\<close>, so
  what holds of every run of the status store holds of the two together.
\<close>

subsection \<open>The contract\<close>

lemma rowOk_storable: "rowOk (jobRowOf j) \<longleftrightarrow> storable j"
proof -
  have "NoOutcome \<le> w" for w :: byte by (simp add: NoOutcome_def)
  moreover have "BypassOwner \<le> jOwner j \<Longrightarrow> - (2 ^ 63) \<le> jOwner j" by (simp add: BypassOwner_def)
  ultimately show ?thesis
    by (auto simp: rowOk_def jobRowCheck_def storable_def enumIn_def validKind_def validState_def int64_def textOk_def not_less
        jobRowOf_def split: option.splits)
qed

lemma GetJob_eq: "GetJob T d i = map_option (jobOf i) (tGet T (tbl d) i)"
  by (simp add: GetJob_def)

lemma jobRowOf_id: "jobOf i (jobRowOf j) = j \<longleftrightarrow> jID j = i"
  by (cases j) (auto simp: jobOf_def jobRowOf_def)

definition viewOf :: "(JobID \<Rightarrow> jobRow option) \<Rightarrow> JobID \<Rightarrow> Job option" where
  "viewOf m i = map_option (jobOf i) (m i)"

lemma GetJob_view: "GetJob T d = viewOf (tGet T (tbl d))"
  by (simp add: GetJob_eq viewOf_def fun_eq_iff)

lemma viewOf_drops: "dropsEnded m m1 \<Longrightarrow> onlyEnded (viewOf m) (viewOf m1)"
  unfolding onlyEnded_def
proof
  fix i assume "dropsEnded m m1"
  then have "m1 i = m i \<or> (m1 i = None \<and> (\<exists>v. m i = Some v \<and> rState v = Done))" by (simp add: dropsEnded_def)
  then show "viewOf m1 i = viewOf m i \<or> (viewOf m1 i = None \<and> (\<exists>j. viewOf m i = Some j \<and> jState j = Done))"
    by (auto simp: viewOf_def)
qed

lemma dropsEnded_onlyEnded:
  "dropsEnded (tGet T (tbl d)) (tGet T (tbl d')) \<Longrightarrow> onlyEnded (GetJob T d) (GetJob T d')"
  unfolding GetJob_view by (rule viewOf_drops)

lemma inserted_insertedJob:
  assumes "inserted (tGet T (tbl d)) (jID j) (jobRowOf j) (tGet T (tbl d'))"
  shows "insertedJob (GetJob T d) j (GetJob T d')"
proof -
  obtain m1 where m: "tGet T (tbl d) (jID j) = None" "dropsEnded (tGet T (tbl d)) m1" "tGet T (tbl d') = m1(jID j \<mapsto> jobRowOf j)"
    using assms by (auto simp: inserted_def)
  have "onlyEnded (GetJob T d) (viewOf m1)" unfolding GetJob_view by (rule viewOf_drops [OF m(2)])
  moreover have "GetJob T d' = (viewOf m1)(jID j \<mapsto> j)" using m(3) by (auto simp: GetJob_eq viewOf_def fun_eq_iff)
  ultimately show ?thesis using m(1) by (auto simp: insertedJob_def GetJob_eq)
qed

lemma same_view: "tGet T (tbl d') = tGet T (tbl d) \<Longrightarrow> GetJob T d' = GetJob T d"
  by (simp add: GetJob_eq fun_eq_iff)

lemma jobOps_sel [simp]:
  "insertJob (jobOps T) = InsertJob T" "putJob (jobOps T) = PutJob T" "getJob (jobOps T) = GetJob T"
  "unfinished (jobOps T) = UnfinishedJobs T" "deleteEnded (jobOps T) d t = fst (DeleteJobsEndedBefore T d t)"
  by (simp_all add: jobOps_def)

lemma jobOps_persister:
  assumes l: "tableLaws jobKeyEntries T"
  shows "job_persister (jobOps T) (\<lambda>d. jobsInv T (tbl d)) (\<lambda>d. faults d = [])"
proof
  show "getJob (jobOps T) d i = Some j \<Longrightarrow> jID j = i" for d i j by (auto simp: GetJob_eq)
  show "jobsInv T (tbl d) \<Longrightarrow> getJob (jobOps T) d i = Some j \<Longrightarrow> storable j" for d i j
    using jobsInv_row [of T "tbl d" i] rowOk_storable by (auto simp: GetJob_eq) (metis jobRowOf_jobOf)
  show "jobsInv T (tbl d') \<and> insertPost (getJob (jobOps T) d) j (getJob (jobOps T) d') r"
    if a: "jobsInv T (tbl d)" "storable j" "insertJob (jobOps T) d j DefaultLimits = (d', r)" for d j d' r
  proof -
    have "InsertJob T d j DefaultLimits = (d', r)" using a(3) by simp
    note s = InsertJob_store [OF l a(1) a(2) [folded rowOk_storable] this]
    show ?thesis
    proof (cases r)
      case (Inl e)
      then show ?thesis using s same_view [of T d' d] inserted_insertedJob by (auto simp: insertPost_def)
    next
      case (Inr b)
      show ?thesis
      proof (cases "snd b")
        case True
        then obtain st where b: "b = (st, True)" by (cases b) simp
        then obtain v where "tGet T (tbl d) (jID st) = Some v" "st = jobOf (jID st) v" using s Inr by auto
        then have "GetJob T d (jID st) = Some st" by (simp add: GetJob_eq)
        then show ?thesis using s Inr b same_view [of T d' d] by (simp add: insertPost_def sameIdentity_def)
      next
        case False
        then obtain st where "b = (st, False)" by (cases b) simp
        then show ?thesis using s Inr inserted_insertedJob [of T d j d'] by (auto simp: insertPost_def)
      qed
    qed
  qed
  show "jobsInv T (tbl d') \<and> putPost (getJob (jobOps T) d) j (getJob (jobOps T) d') ok"
    if a: "jobsInv T (tbl d)" "storable j" "\<And>r. getJob (jobOps T) d (jID j) = Some r \<Longrightarrow> sameIdentity r j"
      "putJob (jobOps T) d j = (d', ok)" for d j d' ok
  proof -
    have o: "rOwner v = jOwner j" if "tGet T (tbl d) (jID j) = Some v" for v
      using a(3) [of "jobOf (jID j) v"] that by (simp add: GetJob_eq sameIdentity_def)
    have "PutJob T d j = (d', ok)" using a(4) by simp
    have "jobsInv T (tbl d') \<and> ((tGet T (tbl d') = tGet T (tbl d) \<and> \<not> ok) \<or>
        (\<exists>v. tGet T (tbl d) (jID j) = Some v \<and> rRev v < jRev j \<and> tGet T (tbl d') = (tGet T (tbl d))(jID j \<mapsto> jobRowOf j)))"
      by (rule PutJob_store [OF l a(1) a(2) [folded rowOk_storable] _ \<open>PutJob T d j = (d', ok)\<close>]) (rule o)
    then show ?thesis
    proof (elim conjE disjE exE)
      assume "jobsInv T (tbl d')" "tGet T (tbl d') = tGet T (tbl d)" "\<not> ok"
      then show ?thesis using same_view by (auto simp: putPost_def)
    next
      fix v assume v: "jobsInv T (tbl d')" "tGet T (tbl d) (jID j) = Some v" "rRev v < jRev j"
        "tGet T (tbl d') = (tGet T (tbl d))(jID j \<mapsto> jobRowOf j)"
      have "GetJob T d' = (GetJob T d)(jID j \<mapsto> j)" using v(4) by (auto simp: GetJob_eq fun_eq_iff)
      moreover have "GetJob T d (jID j) = Some (jobOf (jID j) v)" using v(2) by (simp add: GetJob_eq)
      ultimately show ?thesis using v(1,3) by (auto simp: putPost_def)
    qed
  qed
  show "faults d = [] \<Longrightarrow> putJob (jobOps T) d j = (d', ok) \<Longrightarrow> faults d' = []" for d j d' ok
    by (auto simp: PutJob_def writeStore_def split: sum.splits prod.splits)
  show "ok" if a: "jobsInv T (tbl d)" "faults d = []" "storable j" "getJob (jobOps T) d (jID j) = Some r" "sameIdentity r j"
    "jRev r < jRev j" "putJob (jobOps T) d j = (d', ok)" for d j r d' ok
  proof -
    obtain v where v: "tGet T (tbl d) (jID j) = Some v" "r = jobOf (jID j) v" using a(4) by (auto simp: GetJob_eq)
    show ?thesis using PutJob_calm [OF l a(1) a(3) [folded rowOk_storable] a(2) v(1)] a(5,6,7) v(2) by (auto simp: sameIdentity_def)
  qed
  show "jobsInv T (tbl (deleteEnded (jobOps T) d t)) \<and> onlyEnded (getJob (jobOps T) d) (getJob (jobOps T) (deleteEnded (jobOps T) d t))"
    if "jobsInv T (tbl d)" for d t
  proof -
    obtain d' r where d: "DeleteJobsEndedBefore T d t = (d', r)" by (cases "DeleteJobsEndedBefore T d t")
    then show ?thesis using DeleteJobsEndedBefore_store [OF l that d] dropsEnded_onlyEnded [of T d d'] by simp
  qed
  show "\<exists>js. unfinished (jobOps T) d = Some js \<and> distinct (map jID js) \<and>
      (\<forall>j. j \<in> set js \<longleftrightarrow> getJob (jobOps T) d (jID j) = Some j \<and> jState j \<noteq> Done)" if "jobsInv T (tbl d)" for d
    using UnfinishedJobs_store [OF l that] by simp
qed

interpretation jobs: job_persister "jobOps (listTable jobKeyEntries)" "\<lambda>d. jobsInv (listTable jobKeyEntries) (tbl d)" "\<lambda>d. faults d = []"
  by (rule jobOps_persister [OF listTable_laws])

subsection \<open>Runs\<close>

definition boot :: "'t \<Rightarrow> commit list \<Rightarrow> 't jobStore sys" where
  "boot t fs = \<lparr>disk = \<lparr>tbl = t, faults = fs\<rparr>, mem = None, starting = (\<lambda>_. None), returned = (\<lambda>_. None),
     reports = [], used = {}\<rparr>"

text \<open>The states reached from an empty table, whatever the writes meet.\<close>

definition reached :: "'t jobsTable \<Rightarrow> alertEnv \<Rightarrow> 't jobStore sys \<Rightarrow> bool" where
  "reached T e x \<longleftrightarrow> (\<exists>t fs. tGet T t = (\<lambda>_. None) \<and> sysSteps (jobOps T) e (boot t fs) x)"

abbreviation jobsGood :: "'t jobsTable \<Rightarrow> 't jobStore \<Rightarrow> bool" where
  "jobsGood T d \<equiv> jobsInv T (tbl d)"

lemma boot_inv: "tGet T t = (\<lambda>_. None) \<Longrightarrow> sysInv (jobOps T) (jobsGood T) (boot t fs)"
  by (simp add: sysInv_def boot_def jobsInv_def countRows_def GetJob_eq)

lemma reached_inv: "tableLaws jobKeyEntries T \<Longrightarrow> reached T e x \<Longrightarrow> sysInv (jobOps T) (jobsGood T) x"
proof -
  assume l: "tableLaws jobKeyEntries T" and "reached T e x"
  then obtain t fs where t: "tGet T t = (\<lambda>_. None)" "sysSteps (jobOps T) e (boot t fs) x" unfolding reached_def by blast
  show ?thesis by (rule job_persister.steps_inv [OF jobOps_persister [OF l] t(2) boot_inv [OF t(1)]])
qed

lemma seen_known: "sysInv ops good x \<Longrightarrow> seen ops x i = Some j \<Longrightarrow> i \<in> used x"
proof (cases "mem x")
  case (Some s)
  assume a: "sysInv ops good x" "seen ops x i = Some j"
  then have "slotAt ops x s i" by (simp add: sysInv_mem [OF Some])
  then show ?thesis using a(2) unfolding slotAt_def slotOk_def
    by (cases "map_of (live s) i") (simp_all add: seen_mem [OF Some] seenOf_def)
qed (simp add: seen_def)

subsection \<open>Properties\<close>

text \<open>C2. A job that has ended never seems unfinished again: once \<open>Get\<close> has answered it \<open>Done\<close>, every later answer
  is \<open>Done\<close>, whatever calls, write failures and crashes come between.\<close>

theorem ended_never_unfinished:
  assumes "tableLaws jobKeyEntries T" "reached T e x" "sysSteps (jobOps T) e x y"
    and "seen (jobOps T) x i = Some j" "jState j = Done" "seen (jobOps T) y i = Some j'"
  shows "jState j' = Done"
proof -
  note x = reached_inv [OF assms(1,2)]
  have "allEnded (jobOps T) x i" using seen_known [OF x assms(4)] assms(4,5) by (simp add: allEnded_def)
  from job_persister.steps_ended [OF jobOps_persister [OF assms(1)] assms(3) x this] show ?thesis
    using assms(6) by (auto simp: allEnded_def)
qed

text \<open>C36. Between two crashes the answers for a job continue one another: its revision never falls, and once it is
  \<open>Done\<close> nothing but the revision changes, retention and the job's own record included.\<close>

theorem run_continues:
  assumes "tableLaws jobKeyEntries T" "reached T e x" "(runStep (jobOps T) e)\<^sup>*\<^sup>* x y"
    and "seen (jobOps T) x i = Some j" "seen (jobOps T) y i = Some j'"
  shows "continues j j'"
proof -
  note x = reached_inv [OF assms(1,2)]
  from job_persister.run_carried [OF jobOps_persister [OF assms(1)] assms(3) x seen_known [OF x assms(4)]]
  show ?thesis using assms(4,5) by (simp add: carried_def)
qed

text \<open>C6. One retry turn with no write failing stores every unsaved end whose record is still there: the record becomes the
  ended job, at the revision it had or a later one, and no other record changes. What stays unsaved is the ends whose
  record is gone, which takes a write that landed and was reported failed; when there are none the alert is
  withdrawn and the backoff starts again.\<close>

theorem retry_stores:
  assumes "tableLaws jobKeyEntries T" "reached T e x" "mem x = Some s" "faults (disk x) = []" "idle s" "returned x = (\<lambda>_. None)"
    and "set ids = unsaved s" "runTurn (jobOps T) e now (RetryDue ids) r (disk x, s) = (r', (p', s'))"
  shows "sysSteps (jobOps T) e x (x\<lparr>disk := p', mem := Some s'\<rparr>)
    \<and> unsaved s' = {i \<in> unsaved s. GetJob T (disk x) i = None}
    \<and> endsStored (GetJob T (disk x)) (unsaved s) s (GetJob T p')
    \<and> \<not> armed r' \<and> backoff r' = (if unsaved s' = {} then retryMin else min (2 * backoff r) retryMax)
    \<and> (unsaved s = {} \<or> unsaved s' \<noteq> {} \<or> map_of (alerts s') AlertJobRecords = None)"
proof -
  have f: "fold (persist (jobOps T) e now) ids (disk x, s) = (p', s')"
    and r: "r' = \<lparr>backoff = (if unsaved s' = {} then retryMin else min (2 * backoff r) retryMax), armed = False\<rparr>"
    using assms(8) by (auto simp: runTurn_def saveUnsaved_def Let_def arm_def split: prod.splits if_splits)
  from job_persister.save_fold [OF jobOps_persister [OF assms(1)] assms(3) reached_inv [OF assms(1,2)] assms(4-6) f]
  show ?thesis using assms(7) by (auto simp: r)
qed

text \<open>C37. The job table stays within its bounds on every run: at most 1,000 records of one owner and 10,000 of users together,
  so the scan for unfinished records, which refuses more than 11,000, never does, and it lists exactly
  them.\<close>

theorem jobs_bounded:
  assumes "tableLaws jobKeyEntries T" "reached T e x"
  shows "countRows (tGet T (tbl (disk x))) (\<lambda>v. rOwner v = owner) \<le> 1000
    \<and> countRows (tGet T (tbl (disk x))) (\<lambda>v. userOwned (rOwner v)) \<le> 10000
    \<and> (\<exists>js. UnfinishedJobs T (disk x) = Some js \<and> (j \<in> set js \<longleftrightarrow> GetJob T (disk x) (jID j) = Some j \<and> jState j \<noteq> Done))"
proof -
  have i: "jobsInv T (tbl (disk x))" using reached_inv [OF assms] by (simp add: sysInv_def)
  then show ?thesis using UnfinishedJobs_store [OF assms(1) i] unfolding jobsInv_def DefaultLimits_def by fastforce
qed

text \<open>C38. \<open>InsertJob\<close> in full: exactly the key of a stored record of the owner with the same fingerprint is replayed, and with
  another refused with \<open>ErrKeyReused\<close>; a replay or a refusal writes nothing; \<open>ErrJobCapacity\<close> is answered only when every
  record in a full bound is unfinished, any other refusal is of an id that is stored; and a new record costs the oldest
  ended record of the owner's bound when that is full, then the oldest of the users' when that is full, and no
  other. The oldest is by the \<^verbatim>\<open>UnixNano\<close> of its end.\<close>

theorem InsertJob_spec:
  assumes l: "tableLaws jobKeyEntries T" and i: "jobsInv T (tbl d)" and ok: "storable j" and c: "faults d = []"
    and x: "InsertJob T d j DefaultLimits = (d', r)"
  shows "(r = Inl ErrKeyReused \<longleftrightarrow> keyHeld (tGet T (tbl d)) j False)
   \<and> ((\<exists>st. r = Inr (st, True)) \<longleftrightarrow> keyHeld (tGet T (tbl d)) j True)
   \<and> (case r of
      Inr (st, True) \<Rightarrow> GetJob T d' = GetJob T d \<and> GetJob T d (jID st) = Some st \<and> sameIdentity st j
    | Inr (st, False) \<Rightarrow> st = j \<and> GetJob T d (jID j) = None \<and>
        (\<exists>m1. roomMade (jOwner j) (tGet T (tbl d)) m1 \<and> tGet T (tbl d') = m1(jID j \<mapsto> jobRowOf j))
    | Inl e \<Rightarrow> d' = d \<and>
        ((e = ErrJobCapacity \<and> (fullUnfinished (tGet T (tbl d)) (\<lambda>v. rOwner v = jOwner j) 1000 \<or>
            (userOwned (jOwner j) \<and> fullUnfinished (tGet T (tbl d)) (\<lambda>v. userOwned (rOwner v)) 10000)))
         \<or> e = ErrKeyReused
         \<or> (e = ErrOther \<and> GetJob T d (jID j) \<noteq> None)))"
proof -
  have rk: "rowOk (jobRowOf j)" using ok rowOk_storable by simp
  then have o: "int64 (jOwner j)" by (simp add: rowOk_def)
  have w: "writeStore d (insertJobTx T (tbl d) j DefaultLimits) = (d', r)"
    using x by (simp add: InsertJob_def DefaultLimits_def)
  have post: "insertPost (GetJob T d) j (GetJob T d') r"
    using job_persister.insert_law [OF jobOps_persister [OF l], of d j d' r] i ok x by simp
  note key = insertJobTx_key [OF l i rk]
  show ?thesis
  proof (cases "insertJobTx T (tbl d) j DefaultLimits")
    case (Inl e)
    then have r: "r = Inl e" "d' = d" using w by (simp_all add: writeStore_def)
    from insertJobTx_Inl [OF l i rk Inl] have "(e = ErrJobCapacity \<and> (fullUnfinished (tGet T (tbl d)) (\<lambda>v. rOwner v = jOwner j) 1000 \<or>
            (userOwned (jOwner j) \<and> fullUnfinished (tGet T (tbl d)) (\<lambda>v. userOwned (rOwner v)) 10000)))
         \<or> e = ErrKeyReused \<or> (e = ErrOther \<and> GetJob T d (jID j) \<noteq> None)"
      using replayOf_Inl [OF l i rk] makeRoom_Inl [OF l i o] by (auto simp: GetJob_eq DefaultLimits_def)
    then show ?thesis using key r by (simp add: Inl)
  next
    case (Inr b)
    obtain t2 st f where b: "b = (t2, (st, f))" by (metis prod.exhaust)
    have r: "r = Inr (st, f)" "tbl d' = t2" using w Inr c by (simp_all add: b writeStore_calm) auto
    show ?thesis
    proof (cases f)
      case True
      then show ?thesis using key post r by (auto simp: Inr b insertPost_def)
    next
      case False
      then show ?thesis using key post r insertJobTx_made [OF l i rk, of t2 st] by (auto simp: Inr b insertPost_def insertedJob_def GetJob_eq)
    qed
  qed
qed

subsection \<open>A run\<close>

definition demoT :: "(JobID \<times> jobRow) list jobsTable" where "demoT = listTable jobKeyEntries"

definition demoID :: JobID where "demoID = replicate 32 (CHR ''a'')"

definition demoTemplate :: Job where
  "demoTemplate = \<lparr>jStarted = 0, jEnded = 0, jKey = Some \<lparr>kKey = ''k'', kFingerprint = ''f''\<rparr>, jID = '''', jScope = ''s'',
     jPhase = '''', jCause = '''', jOwner = 1, jDone = 0, jTotal = 0, jRev = 0, jKind = Scan, jState = 0, jOutcome = 0, jCancellable = False\<rparr>"

definition demoJob :: Job where "demoJob = newJob 6 demoID False demoTemplate"

definition demoOpen :: "(JobID \<times> jobRow) list jobStore sys" where "demoOpen = reopen (jobOps demoT) 5 (boot [] [])"

definition demoInserted :: "(JobID \<times> jobRow) list jobStore sys" where
  "demoInserted = demoOpen\<lparr>disk := \<lparr>tbl = [(demoID, jobRowOf demoJob)], faults = []\<rparr>, used := {demoID},
     starting := (starting demoOpen)(demoID := Some (demoJob, False))\<rparr>"

definition demoLive :: "(JobID \<times> jobRow) list jobStore sys" where
  "demoLive = demoInserted\<lparr>mem := Some (goLive False demoJob (newStore)), starting := (starting demoInserted)(demoID := None)\<rparr>"

definition demoEnd :: "Job \<Rightarrow> Job" where "demoEnd j = j\<lparr>jState := Done, jOutcome := 1\<rparr>"

definition demoDone :: "(JobID \<times> jobRow) list jobStore sys" where
  "demoDone = demoLive\<lparr>mem := Some (fst (Update 9 demoID demoEnd (goLive False demoJob newStore)))\<rparr>"


lemma demoT_sel: "tGet demoT = map_of" "tScan demoT [] = []" "tIndex demoT [] E = []" "tLookup demoT [] b = None"
  "tPut demoT [] i v = Some [(i, v)]" "tCounter demoT [] W = 0"
  by (simp_all add: demoT_def listTable_def listRows_def entriesOf_def)

lemma demoOpen_eq: "demoOpen = \<lparr>disk = \<lparr>tbl = [], faults = []\<rparr>, mem = Some newStore, starting = (\<lambda>_. None), returned = (\<lambda>_. None),
     reports = [], used = {}\<rparr>"
  by (simp add: demoOpen_def reopen_def boot_def New_def UnfinishedJobs_def demoT_sel newStore_def evictLocked_def)

lemma demoJob_sel: "jID demoJob = demoID" "jOwner demoJob = 1" "jKey demoJob = Some \<lparr>kKey = ''k'', kFingerprint = ''f''\<rparr>"
  "jState demoJob = Queued" "jRev demoJob = 1" "jKind demoJob = Scan" "jOutcome demoJob = NoOutcome"
  by (simp_all add: demoJob_def newJob_def demoTemplate_def)

lemma demoJob_ok: "storable demoJob"
  by (simp add: storable_def demoJob_sel validKind_def validState_def BypassOwner_def Queued_def Done_def Scan_def Backup_def NoOutcome_def Interrupted_def)

lemma demo_insert: "InsertJob demoT \<lparr>tbl = [], faults = []\<rparr> demoJob DefaultLimits = (\<lparr>tbl = [(demoID, jobRowOf demoJob)], faults = []\<rparr>, Inr (demoJob, False))"
proof -
  have c: "jobRowCheck (jobRowOf demoJob)" using demoJob_ok rowOk_storable rowOk_def by blast
  show ?thesis
  using c by (simp add: InsertJob_def DefaultLimits_def writeStore_def insertJobTx_def replayOf_def jobByKey_def makeRoom_def jobsPut_def
      demoT_sel demoJob_sel Let_def) (metis demoJob_sel(1) jobOf_jobRowOf)
qed

lemma demoT_laws: "tableLaws jobKeyEntries demoT"
  unfolding demoT_def by (rule listTable_laws)

lemma demo_open: "sysStep (jobOps demoT) e (boot [] []) demoOpen"
  unfolding demoOpen_def by (rule sysStep.crash) (simp add: zeroTime_def)

lemma demo_inserted: "sysStep (jobOps demoT) e demoOpen demoInserted"
proof -
  have "sysStep (jobOps demoT) e demoOpen (demoOpen\<lparr>disk := \<lparr>tbl = [(demoID, jobRowOf demoJob)], faults = []\<rparr>,
      used := insert demoID (used demoOpen),
      starting := (starting demoOpen)(demoID := began (newJob 6 demoID False demoTemplate) False (Inr (demoJob, False)))\<rparr>)"
  proof (rule sysStep.insert)
    show "\<not> beginRefused demoTemplate"
      by (simp add: beginRefused_def demoTemplate_def validKind_def Scan_def Backup_def SystemOwner_def)
    show "insertJob (jobOps demoT) (disk demoOpen) (newJob 6 demoID False demoTemplate) DefaultLimits
        = (\<lparr>tbl = [(demoID, jobRowOf demoJob)], faults = []\<rparr>, Inr (demoJob, False))"
      using demo_insert by (simp add: demoOpen_eq demoJob_def [symmetric])
  qed (simp_all add: demoOpen_eq demoJob_ok demoJob_def [symmetric])
  then show ?thesis by (simp add: demoInserted_def began_def demoJob_def [symmetric] demoOpen_eq)
qed

lemma demo_live: "sysStep (jobOps demoT) e demoInserted demoLive"
  unfolding demoLive_def by (rule sysStep.goLive) (simp_all add: demoInserted_def demoOpen_eq)

lemma demoLive_mem: "mem demoLive = Some (goLive False demoJob newStore)" "disk demoLive = disk demoInserted"
  by (simp_all add: demoLive_def)

lemma demo_done: "sysStep (jobOps demoT) e demoLive demoDone"
  unfolding demoDone_def by (rule sysStep.update) (simp_all add: demoLive_mem zeroTime_def)

lemma demo_reached: "reached demoT e demoLive" "reached demoT e demoDone"
proof -
  have "sysSteps (jobOps demoT) e (boot [] []) demoLive"
    by (rule converse_rtranclp_into_rtranclp [OF demo_open converse_rtranclp_into_rtranclp [OF demo_inserted r_into_rtranclp [of "sysStep (jobOps demoT) e", OF demo_live]]])
  then show "reached demoT e demoLive" "reached demoT e demoDone"
    unfolding reached_def using demo_done [of e] by (auto simp: demoT_sel(1) intro!: exI [of _ "[]"] intro: rtranclp.rtrancl_into_rtrancl)
qed

lemma demo_seen:
  "seen (jobOps demoT) demoLive demoID = Some demoJob"
  "\<exists>j. seen (jobOps demoT) demoDone demoID = Some j \<and> jState j = Done \<and> jRev j = 2"
  by (simp_all add: seen_def Get_def demoLive_mem demoDone_def goLive_def bump_def demoJob_sel newStore_def Update_def Let_def demoEnd_def
      Queued_def Done_def validState_def AList.update_conv')

lemma demoDone_sel:
  "mem demoDone = Some (fst (Update 9 demoID demoEnd (goLive False demoJob newStore)))"
  "unsaved (fst (Update 9 demoID demoEnd (goLive False demoJob newStore))) = {demoID}"
  "idle (fst (Update 9 demoID demoEnd (goLive False demoJob newStore)))"
  "faults (disk demoDone) = []" "returned demoDone = (\<lambda>_. None)" "GetJob demoT (disk demoDone) demoID = Some demoJob"
  by (simp_all add: demoDone_def demoEnd_def demoLive_def demoInserted_def demoOpen_eq goLive_def bump_def demoJob_sel newStore_def Update_def Let_def demoEnd_def
      Queued_def Done_def validState_def AList.update_conv' idle_def GetJob_eq demoT_sel(1))
    (metis demoJob_sel(1) jobOf_jobRowOf)

theorem ended_never_unfinished_witness:
  "\<not> (\<exists>j. seen (jobOps demoT) (reopen (jobOps demoT) 10 demoDone) demoID = Some j \<and> jState j \<noteq> Done)"
proof -
  obtain j where j: "seen (jobOps demoT) demoDone demoID = Some j" "jState j = Done" using demo_seen(2) by blast
  have "sysSteps (jobOps demoT) demoEnv demoDone (reopen (jobOps demoT) 10 demoDone)"
    by (rule r_into_rtranclp, rule sysStep.crash) (simp add: zeroTime_def)
  from ended_never_unfinished [OF demoT_laws demo_reached(2) this j] show ?thesis by blast
qed

theorem run_continues_witness: "\<exists>j. seen (jobOps demoT) demoDone demoID = Some j \<and> jState j = Done \<and> continues demoJob j"
proof -
  have "demoDone \<noteq> reopen (jobOps demoT) now demoLive" if now: "now \<noteq> zeroTime" for now
  proof
    assume e: "demoDone = reopen (jobOps demoT) now demoLive"
    obtain p m where n: "New (jobOps demoT) now (disk demoLive) = (p, m)" by (cases "New (jobOps demoT) now (disk demoLive)")
    have "jobsGood demoT (disk demoLive)" using reached_inv [OF demoT_laws demo_reached(1)] by (simp add: sysInv_def)
    note spec = job_persister.New_spec [OF jobOps_persister [OF demoT_laws] now this n]
    have m: "mem demoDone = m" unfolding e reopen_def n by simp
    show False using spec unfolding trans [OF sym [OF m] demoDone_sel(1)] by (simp add: demoDone_sel(2))
  qed
  then have "runStep (jobOps demoT) demoEnv demoLive demoDone" using demo_done unfolding runStep_def by blast
  then have "(runStep (jobOps demoT) demoEnv)\<^sup>*\<^sup>* demoLive demoDone" by (rule r_into_rtranclp)
  from run_continues [OF demoT_laws demo_reached(1) this demo_seen(1)] show ?thesis using demo_seen(2) by blast
qed

theorem retry_stores_witness:
  "let (r', (p', s')) = runTurn (jobOps demoT) demoEnv 11 (RetryDue [demoID]) \<lparr>backoff = retryMin, armed = True\<rparr> (disk demoDone, the (mem demoDone))
   in unsaved s' = {} \<and> (\<exists>j. GetJob demoT p' demoID = Some j \<and> jState j = Done)"
proof -
  let ?s = "fst (Update 9 demoID demoEnd (goLive False demoJob newStore))"
  obtain r' p' s' where r: "runTurn (jobOps demoT) demoEnv 11 (RetryDue [demoID]) \<lparr>backoff = retryMin, armed = True\<rparr> (disk demoDone, ?s) = (r', (p', s'))"
    by (metis prod.exhaust)
  have "set [demoID] = unsaved ?s" using demoDone_sel(2) by simp
  note t = retry_stores [OF demoT_laws demo_reached(2) demoDone_sel(1,4,3,5) this r]
  have "endsStored (GetJob demoT (disk demoDone)) (unsaved ?s) ?s (GetJob demoT p')" using t by (elim conjE)
  then have "if demoID \<in> unsaved ?s \<inter> unsaved ?s \<and> GetJob demoT (disk demoDone) demoID \<noteq> None
      then \<exists>l j. map_of (live ?s) demoID = Some l \<and> GetJob demoT p' demoID = Some j \<and> storedAs l j
      else GetJob demoT p' demoID = GetJob demoT (disk demoDone) demoID" unfolding endsStored_def by (rule spec)
  moreover have "demoID \<in> unsaved ?s \<inter> unsaved ?s \<and> GetJob demoT (disk demoDone) demoID \<noteq> None"
    by (simp add: demoDone_sel(2,6))
  ultimately have "\<exists>l j. GetJob demoT p' demoID = Some j \<and> storedAs l j" by (simp only: if_True simp_thms) iprover
  then have "\<exists>j. GetJob demoT p' demoID = Some j \<and> jState j = Done" unfolding storedAs_def by iprover
  moreover have "unsaved s' = {}" using t by (simp add: demoDone_sel(2,6))
  ultimately show ?thesis by (simp add: demoDone_sel(1) r)
qed

theorem jobs_bounded_witness:
  "countRows (tGet demoT (tbl (disk demoLive))) (\<lambda>v. userOwned (rOwner v)) \<le> 10000 \<and> UnfinishedJobs demoT (disk demoLive) \<noteq> None"
  using jobs_bounded [OF demoT_laws demo_reached(1)] by blast

lemma demo_empty: "jobsInv demoT []"
  by (simp add: jobsInv_def demoT_sel(1) countRows_def)

theorem InsertJob_spec_witness:
  "\<not> keyHeld (tGet demoT []) demoJob False
   \<and> (\<exists>m1. roomMade 1 (tGet demoT []) m1 \<and> tGet demoT [(demoID, jobRowOf demoJob)] = m1(demoID \<mapsto> jobRowOf demoJob))"
  using InsertJob_spec [OF demoT_laws _ demoJob_ok _ demo_insert] demo_empty by (simp add: demoJob_sel)

end
