(* ===== verification/WorkQueue.thy ===== *)
theory WorkQueue
  imports BoltTable "HOL-Library.Product_Lexorder"
begin

text \<open>
  internal/statedb, work.go: the queue of instances to search. A row has the generation its last enqueue
  gave it, so acknowledging or deferring what an older reading saw changes nothing. The table is the argument
  \<open>T\<close>, its id sequence \<open>nextID\<close>, the instances known \<open>known\<close>; \<open>c\<close> is what the write meets.
\<close>

type_synonym WorkCause = byte

definition CauseScan :: WorkCause where "CauseScan = 1"
definition CauseItem :: WorkCause where "CauseItem = 3"

record workRow =
  wNotBefore :: int
  wFirstDeferral :: int
  wGen :: "64 word"
  wSeq :: "64 word"
  wCause :: WorkCause

record Work =
  wkInst :: InstanceID
  wkGen :: "64 word"
  wkCause :: WorkCause

text \<open>Go's zero time, as nanoseconds since 1970.\<close>

definition zeroInstant :: int where "zeroInstant = - 62135596800000000000"

definition validCause :: "WorkCause \<Rightarrow> bool" where
  "validCause c \<longleftrightarrow> \<not> (c < CauseScan \<or> CauseItem < c)"

type_synonym 't workTable = "('t, InstanceID, workRow) table"

record 't queue =
  work :: 't
  lastID :: "64 word"
  ready :: bool

subsection \<open>The order index\<close>

definition appendWorkProjection :: "bytes \<Rightarrow> workRow \<Rightarrow> bytes" where
  "appendWorkProjection dst v =
     (let nb = (if wNotBefore v \<noteq> zeroInstant then wNotBefore v else - (2 ^ 63))
      in appendUint64 (appendUint64 (dst @ [wCause v]) (wGen v)) (word_of_int nb XOR signFlip))"

definition workProjectionLen :: nat where "workProjectionLen = 1 + 8 + 8"

record workProjection =
  pGen :: "64 word"
  pNotBefore :: int
  pCause :: WorkCause

definition parseWorkProjection :: "bytes \<Rightarrow> workProjection option" where
  "parseWorkProjection b =
     (if length b \<noteq> workProjectionLen then None
      else Some \<lparr>pGen = word_of_nat (unbe (take 8 (drop 1 b))),
        pNotBefore = sint ((word_of_nat (unbe (drop 9 b)) :: 64 word) XOR signFlip), pCause = b ! 0\<rparr>)"

definition workOrderEntries :: "InstanceID \<Rightarrow> workRow \<Rightarrow> (bytes \<times> bytes) list" where
  "workOrderEntries i v = [(appendUint64 [CauseItem - wCause v] (wSeq v), appendWorkProjection [] v)]"

subsection \<open>Operations\<close>

definition workPut :: "'t workTable \<Rightarrow> 't \<Rightarrow> InstanceID \<Rightarrow> workRow \<Rightarrow> 't option" where
  "workPut T t i w = (if \<not> validCause (wCause w) then None else tPut T t i w)"

definition enqueueOne ::
  "'t workTable \<Rightarrow> (64 word \<Rightarrow> 64 word option) \<Rightarrow> (InstanceID \<Rightarrow> bool) \<Rightarrow> WorkCause \<Rightarrow> InstanceID \<Rightarrow> 't queue \<Rightarrow> ('t queue \<times> bool) option" where
  "enqueueOne T nextID known cause i q =
     (if \<not> known i then Some (q, False)
      else
        case tGet T (work q) i of
          Some w \<Rightarrow>
            map_option (\<lambda>t. (q\<lparr>work := t\<rparr>, True))
              (workPut T (work q) i (w\<lparr>wCause := max (wCause w) cause, wGen := wGen w + 1, wNotBefore := zeroInstant\<rparr>))
        | None \<Rightarrow>
            (case nextID (lastID q) of None \<Rightarrow> None
             | Some n \<Rightarrow>
                 map_option (\<lambda>t. (q\<lparr>work := t, lastID := n\<rparr>, True))
                   (workPut T (work q) i
                      \<lparr>wNotBefore = zeroInstant, wFirstDeferral = zeroInstant, wGen = 1, wSeq = n, wCause = cause\<rparr>)))"

fun enqueueAll ::
  "'t workTable \<Rightarrow> (64 word \<Rightarrow> 64 word option) \<Rightarrow> (InstanceID \<Rightarrow> bool) \<Rightarrow> WorkCause \<Rightarrow> InstanceID list \<Rightarrow> 't queue \<Rightarrow> bool
     \<Rightarrow> ('t queue \<times> bool) option" where
  "enqueueAll T nextID known cause [] q queued = Some (q, queued)"
| "enqueueAll T nextID known cause (i # is) q queued =
     (case enqueueOne T nextID known cause i q of None \<Rightarrow> None
      | Some (q1, ok) \<Rightarrow> enqueueAll T nextID known cause is q1 (queued \<or> ok))"

definition signalWork :: "'t queue \<Rightarrow> 't queue" where
  "signalWork q = q\<lparr>ready := True\<rparr>"

text \<open>\<open>enqueue\<close>'s hook runs after a commit. The result is the queue and whether the call succeeded.\<close>

definition EnqueueWork ::
  "'t workTable \<Rightarrow> (64 word \<Rightarrow> 64 word option) \<Rightarrow> (InstanceID \<Rightarrow> bool) \<Rightarrow> commit \<Rightarrow> InstanceID list \<Rightarrow> WorkCause \<Rightarrow> 't queue
     \<Rightarrow> 't queue \<times> bool" where
  "EnqueueWork T nextID known c is cause q =
     (if cause < CauseScan \<or> CauseItem < cause then (q, False)
      else case enqueueAll T nextID known cause is q False of
             None \<Rightarrow> (q, False)
           | Some (q1, queued) \<Rightarrow>
               (case c of Commits \<Rightarrow> (if queued then signalWork q1 else q1, True)
                | Fails \<Rightarrow> (q, False) | Lands \<Rightarrow> (q1, False)))"

definition maxWorkLimit :: nat where "maxWorkLimit = 1000"

fun nextLoop :: "nat \<Rightarrow> int \<Rightarrow> (bytes \<times> InstanceID \<times> bytes) list \<Rightarrow> Work list \<Rightarrow> Work list option" where
  "nextLoop limit now [] out = Some out"
| "nextLoop limit now ((b, i, proj) # es) out =
     (case parseWorkProjection proj of None \<Rightarrow> None
      | Some p \<Rightarrow>
          if now < pNotBefore p then nextLoop limit now es out
          else let out1 = out @ [\<lparr>wkInst = i, wkGen = pGen p, wkCause = pCause p\<rparr>]
               in if length out1 < limit then nextLoop limit now es out1 else Some out1)"

definition NextWork :: "'t workTable \<Rightarrow> int \<Rightarrow> int \<Rightarrow> 't queue \<Rightarrow> Work list option" where
  "NextWork T now limit q =
     (if limit < 1 \<or> int maxWorkLimit < limit then None
      else nextLoop (nat limit) now (tProject T (work q) workOrderEntries) [])"

definition ackOne :: "'t workTable \<Rightarrow> Work \<Rightarrow> 't \<Rightarrow> 't" where
  "ackOne T w t =
     (case tGet T t (wkInst w) of None \<Rightarrow> t | Some row \<Rightarrow> if wGen row = wkGen w then tDelete T t (wkInst w) else t)"

definition AckWork :: "'t workTable \<Rightarrow> commit \<Rightarrow> Work list \<Rightarrow> 't queue \<Rightarrow> 't queue \<times> bool" where
  "AckWork T c ws q =
     (let t = fold (ackOne T) ws (work q)
      in case c of Commits \<Rightarrow> (q\<lparr>work := t\<rparr>, True) | Fails \<Rightarrow> (q, False) | Lands \<Rightarrow> (q\<lparr>work := t\<rparr>, False))"

definition DeferWork :: "'t workTable \<Rightarrow> int \<Rightarrow> commit \<Rightarrow> Work \<Rightarrow> int \<Rightarrow> 't queue \<Rightarrow> 't queue \<times> (int \<times> bool) option" where
  "DeferWork T now c w notBefore q =
     (case tGet T (work q) (wkInst w) of
        None \<Rightarrow> (case c of Commits \<Rightarrow> (q, Some (zeroInstant, False)) | _ \<Rightarrow> (q, None))
      | Some row \<Rightarrow>
          if wGen row \<noteq> wkGen w then (case c of Commits \<Rightarrow> (q, Some (zeroInstant, False)) | _ \<Rightarrow> (q, None))
          else
            let row1 = row\<lparr>wNotBefore := notBefore\<rparr>;
                row2 = (if wFirstDeferral row1 = zeroInstant then row1\<lparr>wFirstDeferral := now\<rparr> else row1)
            in case workPut T (work q) (wkInst w) row2 of None \<Rightarrow> (q, None)
               | Some t \<Rightarrow>
                   (case c of Commits \<Rightarrow> (q\<lparr>work := t\<rparr>, Some (wFirstDeferral row2, True))
                    | Fails \<Rightarrow> (q, None) | Lands \<Rightarrow> (q\<lparr>work := t\<rparr>, None)))"

text \<open>One receive from \<open>WorkReady\<close>'s channel, which holds one wake.\<close>

definition WorkReady :: "'t queue \<Rightarrow> 't queue \<times> bool" where
  "WorkReady q = (q\<lparr>ready := False\<rparr>, ready q)"

definition wakeForStoredWork :: "'t workTable \<Rightarrow> 't queue \<Rightarrow> 't queue" where
  "wakeForStoredWork T q = (if tScan T (work q) \<noteq> [] then signalWork q else q)"

subsection \<open>Reading the order index\<close>

definition rowWork :: "InstanceID \<times> workRow \<Rightarrow> Work" where
  "rowWork r = \<lparr>wkInst = fst r, wkGen = wGen (snd r), wkCause = wCause (snd r)\<rparr>"

definition due :: "int \<Rightarrow> workRow \<Rightarrow> bool" where
  "due now v \<longleftrightarrow> wNotBefore v = zeroInstant \<or> wNotBefore v \<le> now"

definition rowTimes :: "workRow \<Rightarrow> bool" where
  "rowTimes v \<longleftrightarrow> wNotBefore v = zeroInstant \<or> int64 (wNotBefore v)"

definition orderRow :: "InstanceID \<times> workRow \<Rightarrow> bytes \<times> InstanceID \<times> bytes" where
  "orderRow r = (appendUint64 [CauseItem - wCause (snd r)] (wSeq (snd r)), fst r, appendWorkProjection [] (snd r))"

lemma parseWorkProjection_append:
  "rowTimes v \<Longrightarrow> parseWorkProjection (appendWorkProjection [] v) = Some \<lparr>pGen = wGen v,
     pNotBefore = (if wNotBefore v = zeroInstant then - (2 ^ 63) else wNotBefore v), pCause = wCause v\<rparr>"
proof -
  assume v: "rowTimes v"
  let ?nb = "if wNotBefore v = zeroInstant then - (2 ^ 63) else wNotBefore v"
  have n: "int64 ?nb" using v by (auto simp: rowTimes_def int64_def)
  have b: "appendWorkProjection [] v = [wCause v] @ be 8 (unat (wGen v)) @ be 8 (unat (word_of_int ?nb XOR signFlip :: 64 word))"
    by (simp add: appendWorkProjection_def appendUint64_def)
  show ?thesis unfolding b parseWorkProjection_def
    by (simp add: workProjectionLen_def unbe_be64 xor_signFlip sint_int64 [OF n])
qed

lemma nextLoop_rows:
  assumes "int64 now" "list_all (\<lambda>r. rowTimes (snd r)) rows" "length out < limit"
  shows "nextLoop limit now (map orderRow rows) out =
    Some (out @ map rowWork (take (limit - length out) (filter (\<lambda>r. due now (snd r)) rows)))"
  using assms(2,3)
proof (induction rows arbitrary: out)
  case Nil
  then show ?case by simp
next
  case (Cons r rows)
  obtain i v where r: "r = (i, v)" by (cases r)
  have v: "rowTimes v" using Cons.prems(1) r by simp
  have d: "now < (if wNotBefore v = zeroInstant then - (2 ^ 63) else wNotBefore v) \<longleftrightarrow> \<not> due now v"
    using assms(1) by (auto simp: due_def int64_def)
  note p = parseWorkProjection_append [OF v]
  show ?case
  proof (cases "due now v")
    case False
    then show ?thesis using Cons d by (simp add: r orderRow_def p)
  next
    case True
    let ?out = "out @ [rowWork r]"
    have n: "nextLoop limit now (map orderRow (r # rows)) out =
        (if length ?out < limit then nextLoop limit now (map orderRow rows) ?out else Some ?out)"
      using True d by (simp add: r orderRow_def p rowWork_def Let_def)
    show ?thesis
    proof (cases "length ?out < limit")
      case True
      then have "limit - length out = Suc (limit - length ?out)" by simp
      then show ?thesis using n True Cons.IH [of ?out] Cons.prems(1) \<open>due now v\<close> r by simp
    next
      case False
      then have "limit - length out = 1" using Cons.prems(2) by simp
      then show ?thesis using n False \<open>due now v\<close> r by simp
    qed
  qed
qed

lemma order_rows:
  assumes l: "tableLaws (\<lambda>_ _. []) T"
  obtains rows where "tProject T t workOrderEntries = map orderRow rows" "distinct (map fst rows)"
    "\<And>i v. (i, v) \<in> set rows \<longleftrightarrow> tGet T t i = Some v" "sorted (map (fst \<circ> orderRow) rows)"
proof -
  let ?P = "tProject T t workOrderEntries"
  define rows where "rows = map (\<lambda>(b, i, w). (i, the (tGet T t i))) ?P"
  have m: "mset ?P = mset (map orderRow (tScan T t))"
  proof -
    have "concat (map (\<lambda>(k, v). map (\<lambda>(b, w). (b, k, w)) (workOrderEntries k v)) xs) = map orderRow xs" for xs
      by (induction xs) (auto simp: workOrderEntries_def orderRow_def)
    then show ?thesis using table_project(2) [OF l, of t workOrderEntries] by simp
  qed
  have s: "set ?P = orderRow ` set (tScan T t)" using m by (metis list.set_map set_mset_mset)
  have inv: "orderRow (case x of (b, i, w) \<Rightarrow> (i, the (tGet T t i))) = x" if "x \<in> set ?P" for x
    using that s table_rows [OF l, where t = t] by (auto simp: orderRow_def)
  have P: "?P = map orderRow rows" unfolding rows_def map_map comp_def by (rule map_idI [symmetric]) (rule inv)
  have "mset (map orderRow rows) = mset (map orderRow (tScan T t))" using m P by simp
  then have "mset (map (fst \<circ> snd) (map orderRow rows)) = mset (map (fst \<circ> snd) (map orderRow (tScan T t)))"
    by (metis mset_map)
  then have f: "mset (map fst rows) = mset (map fst (tScan T t))" by (simp add: comp_def orderRow_def)
  then have d: "distinct (map fst rows)" using table_scan_distinct [OF l, of t] by (metis mset_eq_imp_distinct_iff)
  have "(i, v) \<in> set rows \<longleftrightarrow> tGet T t i = Some v" for i v
  proof
    assume "(i, v) \<in> set rows"
    then show "tGet T t i = Some v" using s table_rows [OF l, where t = t] by (auto simp: rows_def orderRow_def)
  next
    assume g: "tGet T t i = Some v"
    then have "orderRow (i, v) \<in> set ?P" using s table_rows [OF l, where t = t] by blast
    then show "(i, v) \<in> set rows" using g by (force simp: rows_def orderRow_def)
  qed
  moreover have "sorted (map (fst \<circ> orderRow) rows)" using table_project(1) [OF l, of t workOrderEntries] P by simp
  ultimately show ?thesis using that P d by blast
qed

lemma order_key_le:
  "appendUint64 [a] s \<le> appendUint64 [b] s' \<longleftrightarrow> (unat a, unat s) \<le> (unat b, unat s')"
proof -
  have u: "unat s < 256 ^ 8" "unat s' < 256 ^ 8" using unsigned_less [of s] unsigned_less [of s'] by simp_all
  have "be 8 (unat s) \<le> be 8 (unat s') \<longleftrightarrow> unat s \<le> unat s'"
    using be_less [OF u(2,1)] by (simp add: not_less [symmetric])
  moreover have "a = b \<longleftrightarrow> unat a = unat b" by (simp add: word_unat_eq_iff)
  ultimately show ?thesis unfolding appendUint64_def by (simp add: word_less_nat_alt) linarith
qed


subsection \<open>Enqueueing and acknowledging\<close>

lemma workPut_Some: "workPut T t i w = Some t' \<Longrightarrow> tPut T t i w = Some t'"
  by (simp add: workPut_def split: if_splits)

text \<open>What \<open>n\<close> enqueues of one cause leave of a row.\<close>

definition enqueued :: "WorkCause \<Rightarrow> nat \<Rightarrow> workRow option \<Rightarrow> workRow option \<Rightarrow> bool" where
  "enqueued cause n before after \<longleftrightarrow>
     (if n = 0 then after = before
      else \<exists>w. after = Some w \<and> wNotBefore w = zeroInstant \<and> cause \<le> wCause w \<and>
        (case before of None \<Rightarrow> wGen w = of_nat n
         | Some w0 \<Rightarrow> wSeq w = wSeq w0 \<and> wFirstDeferral w = wFirstDeferral w0 \<and> wCause w = max (wCause w0) cause
             \<and> wGen w = wGen w0 + of_nat n))"

lemma enqueued_step:
  assumes "enqueued cause 1 a b" "enqueued cause n b c" shows "enqueued cause (Suc n) a c"
proof (cases "n = 0")
  case True
  then show ?thesis using assms by (simp add: enqueued_def)
next
  case False
  then show ?thesis using assms by (cases a) (auto simp: enqueued_def max.assoc split: option.splits)
qed

lemma enqueueOne_row:
  assumes l: "tableLaws U T" and e: "enqueueOne T nextID known cause i q = Some (q1, ok)"
  shows "enqueued cause (if known i then 1 else 0) (tGet T (work q) i) (tGet T (work q1) i) \<and> ok = known i
    \<and> (k \<noteq> i \<longrightarrow> tGet T (work q1) k = tGet T (work q) k)"
proof (cases "known i")
  case False
  then show ?thesis using e by (auto simp: enqueueOne_def enqueued_def)
next
  case True
  show ?thesis
  proof (cases "tGet T (work q) i")
    case (Some w)
    then obtain t where "workPut T (work q) i (w\<lparr>wCause := max (wCause w) cause, wGen := wGen w + 1, wNotBefore := zeroInstant\<rparr>) = Some t"
      "q1 = q\<lparr>work := t\<rparr>" "ok" using e True by (auto simp: enqueueOne_def)
    then show ?thesis using table_put [OF l workPut_Some] Some True by (simp add: enqueued_def)
  next
    case None
    then obtain n t where "workPut T (work q) i \<lparr>wNotBefore = zeroInstant, wFirstDeferral = zeroInstant, wGen = 1, wSeq = n, wCause = cause\<rparr> = Some t"
      "q1 = q\<lparr>work := t, lastID := n\<rparr>" "ok" using e True by (auto simp: enqueueOne_def split: option.splits)
    then show ?thesis using table_put [OF l workPut_Some] None True by (simp add: enqueued_def)
  qed
qed

lemma enqueueAll_row:
  assumes l: "tableLaws U T"
  shows "enqueueAll T nextID known cause ids q b = Some (q1, b') \<Longrightarrow>
    enqueued cause (if known i then count_list ids i else 0) (tGet T (work q) i) (tGet T (work q1) i)
    \<and> b' = (b \<or> (\<exists>k \<in> set ids. known k))"
proof (induction ids arbitrary: q b)
  case Nil
  then show ?case by (simp add: enqueued_def)
next
  case (Cons k ids)
  obtain q2 ok where o: "enqueueOne T nextID known cause k q = Some (q2, ok)" "enqueueAll T nextID known cause ids q2 (b \<or> ok) = Some (q1, b')"
    using Cons.prems by (auto split: option.splits)
  note r = enqueueOne_row [OF l o(1)]
  note h = Cons.IH [OF o(2)]
  show ?case
  proof (cases "k = i")
    case True
    show ?thesis
    proof (cases "known i")
      case kn: True
      have "enqueued cause 1 (tGet T (work q) i) (tGet T (work q2) i)" using r [of i] True kn by simp
      moreover have "enqueued cause (count_list ids i) (tGet T (work q2) i) (tGet T (work q1) i)" using h kn by simp
      ultimately have "enqueued cause (Suc (count_list ids i)) (tGet T (work q) i) (tGet T (work q1) i)" by (rule enqueued_step)
      then show ?thesis using True kn h r [of i] by simp
    next
      case False
      then show ?thesis using True h r [of i] by (simp add: enqueued_def)
    qed
  next
    case False
    then show ?thesis using r [of i] h by auto
  qed
qed

lemma ack_fold:
  assumes l: "tableLaws U T" and r: "tGet T t i = Some row" and w: "\<not> (\<exists>w \<in> set ws. wkInst w = i \<and> wkGen w = wGen row)"
  shows "tGet T (fold (ackOne T) ws t) i = Some row"
  using r w
proof (induction ws arbitrary: t)
  case (Cons w ws)
  have "tGet T (ackOne T w t) i = Some row"
    using Cons.prems by (auto simp: ackOne_def table_delete [OF l] split: option.splits)
  then show ?case using Cons by simp
qed simp


subsection \<open>Properties\<close>

lemma nextWork_rows:
  assumes l: "tableLaws (\<lambda>_ _. []) T" and n: "int64 now" and t: "\<not> (\<exists>i v. tGet T (work q) i = Some v \<and> \<not> rowTimes v)"
    and m: "1 \<le> limit" "limit \<le> 1000"
  shows "\<exists>rows. NextWork T now limit q = Some (map rowWork (take (nat limit) rows)) \<and> distinct (map fst rows)
    \<and> set rows = {(i, v). tGet T (work q) i = Some v \<and> due now v}
    \<and> sorted (map (\<lambda>r. (unat (CauseItem - wCause (snd r)), unat (wSeq (snd r)))) rows)"
proof -
  obtain rows where r: "tProject T (work q) workOrderEntries = map orderRow rows" "distinct (map fst rows)"
    "\<And>i v. (i, v) \<in> set rows \<longleftrightarrow> tGet T (work q) i = Some v" "sorted (map (fst \<circ> orderRow) rows)"
    using order_rows [OF l, where t = "work q"] by blast
  let ?d = "filter (\<lambda>r. due now (snd r)) rows"
  have "list_all (\<lambda>r. rowTimes (snd r)) rows" using t r(3) by (force simp: list_all_iff)
  from nextLoop_rows [OF n this, of "[]" "nat limit"] have "NextWork T now limit q = Some (map rowWork (take (nat limit) ?d))"
    using m r(1) by (simp add: NextWork_def maxWorkLimit_def)
  moreover have "distinct (map fst ?d)" using r(2) by (auto simp: distinct_map intro: inj_on_subset)
  moreover have "set ?d = {(i, v). tGet T (work q) i = Some v \<and> due now v}" using r(3) by auto
  moreover have "sorted (map (fst \<circ> orderRow) ?d)" using r(4) sorted_filter by blast
  then have "sorted (map (\<lambda>r. (unat (CauseItem - wCause (snd r)), unat (wSeq (snd r)))) ?d)"
    by (simp add: sorted_map orderRow_def order_key_le comp_def)
  ultimately show ?thesis by blast
qed

text \<open>C40. \<open>NextWork\<close> answers the first due rows in order, at most \<open>limit\<close> of them: items before imports before scans, and
  each cause in the order it was enqueued, at the generation stored.\<close>

theorem NextWork_spec:
  assumes "tableLaws (\<lambda>_ _. []) T" "int64 now" "\<not> (\<exists>i v. tGet T (work q) i = Some v \<and> \<not> rowTimes v)" "1 \<le> limit" "limit \<le> 1000"
  shows "\<exists>rows. NextWork T now limit q = Some (map rowWork (take (nat limit) rows)) \<and> distinct (map fst rows)
    \<and> set rows = {(i, v). tGet T (work q) i = Some v \<and> due now v}
    \<and> sorted (map (\<lambda>r. (unat (CauseItem - wCause (snd r)), unat (wSeq (snd r)))) rows)"
  by (rule nextWork_rows [OF assms])

text \<open>C4. No enqueue is lost: an instance enqueued after a reading of the queue is still queued, and due, after whatever that
  reading returned is acknowledged.\<close>

theorem no_enqueue_lost:
  assumes l: "tableLaws (\<lambda>_ _. []) T" and n: "int64 now" and t: "\<not> (\<exists>i v. tGet T (work q) i = Some v \<and> \<not> rowTimes v)"
    and m: "1 \<le> limit" "limit \<le> 1000" and ws: "NextWork T now limit q = Some ws" and sub: "set acks \<subseteq> set ws"
    and e: "EnqueueWork T nextID known Commits ids cause q = (q1, True)" and i: "i \<in> set ids" "known i" "length ids < 2 ^ 64"
    and a: "AckWork T c acks q1 = (q2, ok)"
  shows "\<exists>row. tGet T (work q2) i = Some row \<and> wNotBefore row = zeroInstant \<and> cause \<le> wCause row"
proof -
  obtain q0 b where q0: "enqueueAll T nextID known cause ids q False = Some (q0, b)" "work q1 = work q0"
    using e by (auto simp: EnqueueWork_def signalWork_def split: if_splits option.splits)
  have k: "count_list ids i \<noteq> 0" "count_list ids i < 2 ^ 64"
    using i count_le_length [of ids i] by (auto simp: count_list_0_iff)
  have "enqueued cause (count_list ids i) (tGet T (work q) i) (tGet T (work q1) i)"
    using conjunct1 [OF enqueueAll_row [OF l q0(1), of i]] q0(2) i(2) by simp
  then obtain row where row: "tGet T (work q1) i = Some row" "wNotBefore row = zeroInstant" "cause \<le> wCause row"
    and g: "case tGet T (work q) i of None \<Rightarrow> True | Some w0 \<Rightarrow> wGen row = wGen w0 + of_nat (count_list ids i)"
    using k(1) by (auto simp: enqueued_def split: option.splits)
  have "\<not> (\<exists>w \<in> set acks. wkInst w = i \<and> wkGen w = wGen row)"
  proof
    assume "\<exists>w \<in> set acks. wkInst w = i \<and> wkGen w = wGen row"
    then obtain w where w: "w \<in> set ws" "wkInst w = i" "wkGen w = wGen row" using sub by blast
    obtain rows where "ws = map rowWork (take (nat limit) rows)" "set rows = {(i, v). tGet T (work q) i = Some v \<and> due now v}"
      using nextWork_rows [OF l n t m] ws by auto
    then obtain v where v: "tGet T (work q) i = Some v" "wGen v = wGen row"
      using w set_take_subset [of "nat limit" rows] by (force simp: rowWork_def)
    then have "wGen v = wGen v + of_nat (count_list ids i)" using g by simp
    then have "(of_nat (count_list ids i) :: 64 word) = 0" by simp
    then have "unat (of_nat (count_list ids i) :: 64 word) = 0" by simp
    then show False using k by (simp add: unat_of_nat)
  qed
  from ack_fold [OF l row(1) this] have "tGet T (fold (ackOne T) acks (work q1)) i = Some row" .
  then have "tGet T (work q2) i = Some row" using a row(1) by (cases c) (auto simp: AckWork_def Let_def)
  then show ?thesis using row by blast
qed

subsection \<open>A run\<close>

text \<open>One queued instance, read, enqueued again and acknowledged by its older generation.\<close>

definition demoT :: "((InstanceID \<times> workRow) list, InstanceID, workRow) table" where "demoT = listTable (\<lambda>_ _. [])"

definition demoW :: workRow where
  "demoW = \<lparr>wNotBefore = zeroInstant, wFirstDeferral = zeroInstant, wGen = 1, wSeq = 1, wCause = CauseScan\<rparr>"

definition demoQ :: "(InstanceID \<times> workRow) list queue" where "demoQ = \<lparr>work = [(7, demoW)], lastID = 1, ready = False\<rparr>"

lemma demoQ_get: "tGet demoT (work demoQ) i = (if i = 7 then Some demoW else None)"
  by (simp add: demoT_def listTable_def demoQ_def)

lemma demoQ_laws: "tableLaws (\<lambda>_ _. []) demoT" "int64 0" "\<not> (\<exists>i v. tGet demoT (work demoQ) i = Some v \<and> \<not> rowTimes v)"
  by (simp_all add: demoT_def listTable_laws int64_def demoQ_get [unfolded demoT_def] demoW_def rowTimes_def)

theorem NextWork_spec_witness: "NextWork demoT 0 10 demoQ = Some [\<lparr>wkInst = 7, wkGen = 1, wkCause = CauseScan\<rparr>]"
proof -
  from NextWork_spec [OF demoQ_laws, of 10] obtain rows where
    n: "NextWork demoT 0 10 demoQ = Some (map rowWork (take (nat 10) rows))" "distinct (map fst rows)"
    and s: "set rows = {(i, v). tGet demoT (work demoQ) i = Some v \<and> due 0 v}" by auto
  have "set rows = {(7, demoW)}" unfolding s by (auto simp: demoQ_get due_def demoW_def split: if_splits)
  moreover have "distinct rows" using n(2) by (simp add: distinct_map)
  ultimately have "rows = [(7, demoW)]" by (metis distinct_singleton set_empty2 insert_not_empty distinct_card card_1_singleton_iff
    length_Suc_conv length_0_conv list.simps(15) list.set(1) One_nat_def singleton_insert_inj_eq' empty_iff)
  then show ?thesis using n(1) by (simp add: rowWork_def demoW_def)
qed

definition demoAgain :: "(InstanceID \<times> workRow) list queue" where
  "demoAgain = demoQ\<lparr>work := [(7, demoW\<lparr>wGen := 2\<rparr>)], ready := True\<rparr>"

lemma demo_again: "EnqueueWork demoT (\<lambda>n. Some (n + 1)) (\<lambda>_. True) Commits [7] CauseScan demoQ = (demoAgain, True)"
proof -
  have "workPut demoT (work demoQ) 7 (demoW\<lparr>wGen := 2\<rparr>) = Some [(7, demoW\<lparr>wGen := 2\<rparr>)]"
    by (simp add: workPut_def validCause_def demoT_def listTable_def demoQ_def demoW_def CauseScan_def CauseItem_def list_ex_iff)
  moreover have "demoW\<lparr>wCause := max (wCause demoW) CauseScan, wGen := wGen demoW + 1, wNotBefore := zeroInstant\<rparr> = demoW\<lparr>wGen := 2\<rparr>"
    by (simp add: demoW_def)
  ultimately have "enqueueOne demoT (\<lambda>n. Some (n + 1)) (\<lambda>_. True) CauseScan 7 demoQ = Some (demoQ\<lparr>work := [(7, demoW\<lparr>wGen := 2\<rparr>)]\<rparr>, True)"
    by (simp only: enqueueOne_def demoQ_get simp_thms if_True option.case option.map not_True_eq_False if_False)
  then show ?thesis by (simp add: EnqueueWork_def CauseScan_def CauseItem_def signalWork_def demoAgain_def demoQ_def)
qed

theorem no_enqueue_lost_witness:
  "\<exists>row. tGet demoT (work (fst (AckWork demoT Commits [\<lparr>wkInst = 7, wkGen = 1, wkCause = CauseScan\<rparr>] demoAgain))) 7 = Some row
    \<and> wNotBefore row = zeroInstant \<and> CauseScan \<le> wCause row"
proof -
  obtain rows where n: "NextWork demoT 0 10 demoQ = Some (map rowWork (take (nat 10) rows))" "distinct (map fst rows)"
    "set rows = {(i, v). tGet demoT (work demoQ) i = Some v \<and> due 0 v}"
    using nextWork_rows [OF demoQ_laws, of 10] by auto
  have "(7, demoW) \<in> set rows" unfolding n(3) by (simp add: demoQ_get due_def demoW_def)
  moreover have "set rows \<subseteq> {(7, demoW)}" unfolding n(3) by (auto simp: demoQ_get split: if_splits)
  then have "length rows \<le> 1" using n(2) by (metis distinct_card length_map card_mono finite.emptyI finite.insertI card_1_singleton_iff
    One_nat_def distinct_map card.insert card.empty empty_iff)
  ultimately have "\<lparr>wkInst = 7, wkGen = 1, wkCause = CauseScan\<rparr> \<in> set (map rowWork (take (nat 10) rows))"
    by (force simp: rowWork_def demoW_def)
  then have s: "set [\<lparr>wkInst = 7, wkGen = 1, wkCause = CauseScan\<rparr>] \<subseteq> set (map rowWork (take (nat 10) rows))" by simp
  obtain q2 ok where a: "AckWork demoT Commits [\<lparr>wkInst = 7, wkGen = 1, wkCause = CauseScan\<rparr>] demoAgain = (q2, ok)" by fastforce
  from no_enqueue_lost [OF demoQ_laws _ _ n(1) s demo_again, of 7, OF _ _ _ _ _ a] show ?thesis by (simp add: a)
qed

end
