(* ===== verification/EpMarker.thy ===== *)
theory EpMarker
  imports Prelude "HOL-Library.While_Combinator" "HOL-Library.Product_Lexorder"
begin

text \<open>
  internal/epmarker, epmarker.go: what a release or member name states of its season and episode. A name is
  read once into tokens, and every view classifies them. Go's \<^verbatim>\<open>int\<close> is an \<^typ>\<open>int\<close> in
  its 64-bit range; the one addition that can leave the range, the loop of \<open>Claims\<close>, is on 64-bit words.
\<close>

unbundle bit_operations_syntax

subsection \<open>Markers\<close>

definition maxRangeSpan :: int where "maxRangeSpan = 50"
definition maxRangeEpisode :: int where "maxRangeEpisode = 999"

record Marker =
  mkSeason :: int
  mkEpisode :: int

definition itoa :: "int \<Rightarrow> string" where
  "itoa n = (if n < 0 then ''-'' @ dec (nat (- n)) else dec (nat n))"

definition pad2 :: "int \<Rightarrow> string" where
  "pad2 n = (if 0 \<le> n \<and> n < 10 then ''0'' @ itoa n else itoa n)"

definition Marker_String :: "Marker \<Rightarrow> string" where
  "Marker_String m = ''S'' @ pad2 (mkSeason m) @ ''E'' @ pad2 (mkEpisode m)"

text \<open>\<^verbatim>\<open>strconv.Atoi\<close> on a run of digits, which has no sign: the empty text and what leaves the 64 bits are errors.\<close>

definition atoi :: "string \<Rightarrow> int option" where
  "atoi s = (if s = [] \<or> \<not> list_all isDigit s then None
     else if int (undec s) < 2 ^ 63 then Some (int (undec s)) else None)"

record Target =
  want :: Marker
  fixed :: bool

definition Any :: Target where
  "Any = \<lparr>want = \<lparr>mkSeason = 0, mkEpisode = 0\<rparr>, fixed = False\<rparr>"

definition For :: "Marker \<Rightarrow> Target" where
  "For m = (if mkSeason m \<le> 0 \<or> mkEpisode m \<le> 0 then Any else \<lparr>want = m, fixed = True\<rparr>)"

definition Target_String :: "Target \<Rightarrow> string" where
  "Target_String t = (if \<not> fixed t then ''any episode'' else Marker_String (want t))"

subsection \<open>Characters\<close>

definition isAlnum :: "char \<Rightarrow> bool" where
  "isAlnum b \<longleftrightarrow> isDigit b \<or> (CHR ''a'' \<le> b \<and> b \<le> CHR ''z'') \<or> (CHR ''A'' \<le> b \<and> b \<le> CHR ''Z'')"

text \<open>The byte with its bit for lower case set, \<^verbatim>\<open>b|0x20\<close>.\<close>

definition bit20 :: "char \<Rightarrow> nat" where
  "bit20 b = of_char b OR 32"

text \<open>\<^verbatim>\<open>strings.ToLower\<close> on a token, which is ASCII.\<close>

definition lowChar :: "char \<Rightarrow> char" where
  "lowChar c = (if CHR ''A'' \<le> c \<and> c \<le> CHR ''Z'' then char_of (of_char c + (32::nat)) else c)"

definition lowText :: "string \<Rightarrow> string" where
  "lowText = map lowChar"

definition hasPre :: "string \<Rightarrow> string \<Rightarrow> bool" where
  "hasPre s p \<longleftrightarrow> take (length p) s = p"

definition hasSuf :: "string \<Rightarrow> string \<Rightarrow> bool" where
  "hasSuf s p \<longleftrightarrow> length p \<le> length s \<and> drop (length s - length p) s = p"

text \<open>\<^verbatim>\<open>strings.Trim\<close> with an ASCII set, and \<^verbatim>\<open>s[a:b]\<close>.\<close>

definition trim :: "string \<Rightarrow> string \<Rightarrow> string" where
  "trim s cs = rev (dropWhile (\<lambda>c. c \<in> set cs) (rev (dropWhile (\<lambda>c. c \<in> set cs) s)))"

definition substr :: "string \<Rightarrow> nat \<Rightarrow> nat \<Rightarrow> string" where
  "substr s a b = take (b - a) (drop a s)"

function digitEnd :: "string \<Rightarrow> nat \<Rightarrow> nat" where
  "digitEnd s i = (if i < length s \<and> isDigit (s ! i) then digitEnd s (i + 1) else i)"
  by pat_completeness auto
termination by (relation "measure (\<lambda>(s, i). length s - i)") auto

declare digitEnd.simps [simp del]

lemma digitEnd_ge: "i \<le> digitEnd s i"
proof (induction s i rule: digitEnd.induct)
  case (1 s i)
  then show ?case by (subst digitEnd.simps) auto
qed

definition version :: "string \<Rightarrow> bool" where
  "version s \<longleftrightarrow> 1 < length s \<and> bit20 (s ! 0) = 118 \<and> digitEnd s 1 = length s"

definition number :: "string \<Rightarrow> string option" where
  "number s =
     (let e = digitEnd s 0
      in if e = 0 \<or> (e < length s \<and> \<not> version (drop e s)) then None else Some (take e s))"

text \<open>The loop of \<open>eNumbers\<close>: \<open>None\<close> where it returns nil, else where it stopped. The Go nil substr is the empty list.\<close>

function eLoop :: "string \<Rightarrow> nat \<Rightarrow> string list \<Rightarrow> (nat \<times> string list) option" where
  "eLoop s i nums =
     (if i < length s \<and> bit20 (s ! i) = 101 then
        (let e = digitEnd s (i + 1)
         in if e = i + 1 then None else eLoop s e (nums @ [substr s (i + 1) e]))
      else Some (i, nums))"
  by pat_completeness auto
termination
proof (relation "measure (\<lambda>(s, i, nums). length s - i)", goal_cases)
  case (2 s i nums e)
  then show ?case using digitEnd_ge [of "i + 1" s] by auto
qed auto

declare eLoop.simps [simp del]

definition eNumbers :: "string \<Rightarrow> string list" where
  "eNumbers s =
     (case eLoop s 0 [] of None \<Rightarrow> []
      | Some (i, nums) \<Rightarrow> if i < length s \<and> \<not> version (drop i s) then [] else nums)"

definition cross :: "string \<Rightarrow> string" where
  "cross s =
     (let x = digitEnd s 0
      in if x = 0 \<or> 2 < x \<or> x = length s \<or> bit20 (s ! x) \<noteq> 120 then []
         else let e = digitEnd s (x + 1)
              in if e \<noteq> length s \<or> e - x - 1 < 2 \<or> 3 < e - x - 1 then [] else drop (x + 1) s)"

definition crc :: "string \<Rightarrow> bool" where
  "crc s \<longleftrightarrow> length s = 8 \<and> list_all (\<lambda>c. isDigit c \<or> (97 \<le> bit20 c \<and> bit20 c \<le> 102)) s"

definition joinsMarker :: "string \<Rightarrow> bool" where
  "joinsMarker sep \<longleftrightarrow> length sep \<le> 3 \<and> trim sep '' ._-'' = []"

definition joinsRange :: "string \<Rightarrow> bool \<Rightarrow> bool \<Rightarrow> bool" where
  "joinsRange sep beforeE inside \<longleftrightarrow>
     (let j = trim sep '' '' in sep = ''-'' \<or> j = ''~'' \<or> (inside \<and> j = ''-'') \<or> (beforeE \<and> sep = ''.''))"

subsection \<open>Tokens\<close>

record token =
  ttext :: string
  tbefore :: string
  tafter :: string
  tat :: nat
  tinside :: bool
  tleads :: bool

function alnumEnd :: "string \<Rightarrow> nat \<Rightarrow> nat" where
  "alnumEnd s i = (if i < length s \<and> isAlnum (s ! i) then alnumEnd s (i + 1) else i)"
  by pat_completeness auto
termination by (relation "measure (\<lambda>(s, i). length s - i)") auto

declare alnumEnd.simps [simp del]

lemma alnumEnd_ge: "i \<le> alnumEnd s i"
proof (induction s i rule: alnumEnd.induct)
  case (1 s i)
  then show ?case by (subst alnumEnd.simps) auto
qed

definition setAfter :: "token list \<Rightarrow> string \<Rightarrow> token list" where
  "setAfter toks a = (if toks = [] then [] else butlast toks @ [last toks\<lparr>tafter := a\<rparr>])"

function tokLoop :: "string \<Rightarrow> nat \<Rightarrow> nat \<Rightarrow> nat \<Rightarrow> bool \<Rightarrow> token list \<Rightarrow> token list" where
  "tokLoop name i depth sep opened toks =
     (if i < length name then
        if \<not> isAlnum (name ! i) then
          if name ! i = CHR ''['' \<or> name ! i = CHR ''('' then tokLoop name (i + 1) (depth + 1) sep True toks
          else if name ! i = CHR '']'' \<or> name ! i = CHR '')'' then tokLoop name (i + 1) (depth - 1) sep False toks
          else tokLoop name (i + 1) depth sep opened toks
        else
          let e = alnumEnd name (i + 1) in
          tokLoop name e depth e False
            (setAfter toks (substr name sep i) @
             [\<lparr>ttext = substr name i e, tbefore = substr name sep i, tafter = [], tat = i, tinside = 0 < depth,
               tleads = opened \<and> 0 < depth\<rparr>])
      else setAfter toks (drop sep name))"
  by pat_completeness auto
termination
proof (relation "measure (\<lambda>(name, i, _). length name - i)", goal_cases)
  case (5 name i depth sep opened toks e)
  then show ?case using alnumEnd_ge [of "i + 1" name] by auto
qed auto

declare tokLoop.simps [simp del]

definition tokenize :: "string \<Rightarrow> token list" where
  "tokenize name = tokLoop name 0 0 0 False []"

subsection \<open>What a name states\<close>

text \<open>A marker-shaped token: an \<open>S##E##\<close> marker or a \<open>##x##\<close> one.\<close>

record shape =
  shSeason :: string
  shEpisode :: string
  shAt :: nat
  shCross :: bool

record statement =
  stDigits :: string
  stEnd :: nat
  stWord :: bool

datatype form = byMarker | byE | byWord | byDash | bySpace | byRange

definition lettered :: "form \<Rightarrow> bool" where
  "lettered f \<longleftrightarrow> f = byMarker \<or> f = byE \<or> f = byWord"

record epRun =
  ruSeason :: string
  ruNums :: "string list"
  ruAt :: nat
  ruForm :: form

record reading =
  shapes :: "shape list"
  runs :: "epRun list"
  stated :: "statement list"

definition joinsNumber :: "token \<Rightarrow> bool" where
  "joinsNumber t \<longleftrightarrow> number (ttext t) \<noteq> None \<and> joinsRange (tbefore t) False (tinside t)"

text \<open>The number a spelled-out word ending at \<open>pre\<close> states: its digits, their offset and the tokens read past \<open>k\<close>;
  no digits when there is none.\<close>

definition wordNumber :: "token list \<Rightarrow> nat \<Rightarrow> nat \<Rightarrow> string \<times> nat \<times> nat" where
  "wordNumber toks k pre =
     (let t = toks ! k; rest = drop pre (ttext t)
      in if rest \<noteq> [] then (case number rest of Some d \<Rightarrow> (d, tat t + pre, 0) | None \<Rightarrow> ([], 0, 0))
         else if k + 1 < length toks then
           (let sep = tbefore (toks ! (k + 1))
            in if sep = ''-'' \<or> (length sep \<le> 2 \<and> trim sep '' ._'' = [])
               then (case number (ttext (toks ! (k + 1))) of Some d \<Rightarrow> (d, tat (toks ! (k + 1)), 1) | None \<Rightarrow> ([], 0, 0))
               else ([], 0, 0))
         else ([], 0, 0))"

text \<open>The match of \<^verbatim>\<open>s(\d+)e(\d+)\<close>, in any case, at an offset, and all of them from an offset on: the ends of the
  two groups. Digits run as far as they go, since no letter is a digit. A token is ASCII, so no other letter folds to s.\<close>

definition markerAt :: "string \<Rightarrow> nat \<Rightarrow> (nat \<times> nat) option" where
  "markerAt s i =
     (if i < length s \<and> bit20 (s ! i) = 115 then
        (let m = digitEnd s (i + 1)
         in if m = i + 1 \<or> \<not> m < length s \<or> bit20 (s ! m) \<noteq> 101 then None
            else let e = digitEnd s (m + 1) in if e = m + 1 then None else Some (m, e))
      else None)"

lemma markerAt_after: "markerAt s i = Some (m, e) \<Longrightarrow> i < e"
  using digitEnd_ge [of "i + 1" s] digitEnd_ge [of "Suc m" s]
  by (auto simp: markerAt_def Let_def split: if_splits)

function markersFrom :: "string \<Rightarrow> nat \<Rightarrow> (nat \<times> nat \<times> nat) list" where
  "markersFrom s i =
     (if i < length s then
        (case markerAt s i of Some (m, e) \<Rightarrow> (i, m, e) # markersFrom s e | None \<Rightarrow> markersFrom s (i + 1))
      else [])"
  by pat_completeness auto
termination by (relation "measure (\<lambda>(s, i). length s - i)") (auto dest: markerAt_after)

declare markersFrom.simps [simp del]

definition addRun :: "epRun \<Rightarrow> reading \<Rightarrow> reading" where
  "addRun u r = r\<lparr>runs := runs r @ [u]\<rparr>"

definition readMarkers :: "token \<Rightarrow> reading \<Rightarrow> reading" where
  "readMarkers t r =
     (let s = ttext t; ms = markersFrom s 0; (i, m, e) = last ms
      in addRun \<lparr>ruSeason = substr s (i + 1) m, ruNums = substr s (m + 1) e # eNumbers (drop e s), ruAt = tat t + (m + 1),
             ruForm = byMarker\<rparr>
           (r\<lparr>shapes := shapes r @ map (\<lambda>(i, m, e). \<lparr>shSeason = substr s (i + 1) m, shEpisode = substr s (m + 1) e,
                shAt = tat t + i, shCross = False\<rparr>) ms,
              stated := stated r @ map (\<lambda>(i, m, e). \<lparr>stDigits = substr s (i + 1) m, stEnd = tat t + m, stWord = False\<rparr>) ms\<rparr>))"

text \<open>A reader of the token at \<open>k\<close> answers the last token it read, where bare digits may open a range (-1 for nowhere), and the
  reading.\<close>

definition readSeason :: "token list \<Rightarrow> nat \<Rightarrow> reading \<Rightarrow> nat \<times> int \<times> reading" where
  "readSeason toks k r =
     (let t = toks ! k; digits = drop 1 (ttext t);
          r1 = r\<lparr>stated := stated r @ [\<lparr>stDigits = digits, stEnd = tat t + length (ttext t), stWord = False\<rparr>]\<rparr>
      in if k + 1 = length toks \<or> \<not> joinsMarker (tbefore (toks ! (k + 1))) then (k, int k + 1, r1)
         else
           let nums = eNumbers (ttext (toks ! (k + 1)))
           in if nums = [] then (k, int k + 1, r1)
              else (k + 1, -1,
                addRun \<lparr>ruSeason = digits, ruNums = nums, ruAt = tat (toks ! (k + 1)), ruForm = byMarker\<rparr>
                  (r1\<lparr>shapes := shapes r1 @ [\<lparr>shSeason = digits, shEpisode = hd nums, shAt = tat t, shCross = False\<rparr>]\<rparr>)))"

definition readSeasonWord :: "token list \<Rightarrow> nat \<Rightarrow> reading \<Rightarrow> nat \<times> int \<times> reading" where
  "readSeasonWord toks k r =
     (let (digits, at, used) = wordNumber toks k (length ''season'')
      in if digits = [] then (k, -1, r)
         else (k + used, int k + int used + 1,
           r\<lparr>stated := stated r @ [\<lparr>stDigits = digits, stEnd = at + length digits, stWord = True\<rparr>]\<rparr>))"

function skipJoined :: "token list \<Rightarrow> nat \<Rightarrow> nat" where
  "skipJoined toks k = (if k + 1 < length toks \<and> joinsNumber (toks ! (k + 1)) then skipJoined toks (k + 1) else k)"
  by pat_completeness auto
termination by (relation "measure (\<lambda>(toks, k). length toks - k)") auto

declare skipJoined.simps [simp del]

definition readDigits :: "token list \<Rightarrow> nat \<Rightarrow> bool \<Rightarrow> reading \<Rightarrow> nat \<times> reading" where
  "readDigits toks k anchored r =
     (let t = toks ! k
      in case number (ttext t) of
           None \<Rightarrow> (k, r)
         | Some digits \<Rightarrow>
             if \<not> tinside t \<and> hasSuf (tbefore t) '' - '' then
               (k, addRun \<lparr>ruSeason = [], ruNums = [digits], ruAt = tat t, ruForm = byDash\<rparr> r)
             else if k + 1 < length toks \<and> joinsNumber (toks ! (k + 1)) then
               (if anchored then (k, addRun \<lparr>ruSeason = [], ruNums = [digits], ruAt = tat t, ruForm = byRange\<rparr> r)
                else (skipJoined toks k, r))
             else if \<not> tinside t \<and> hasSuf (tbefore t) '' '' \<and> hasPre (tafter t) '' '' then
               (k, addRun \<lparr>ruSeason = [], ruNums = [digits], ruAt = tat t, ruForm = bySpace\<rparr> r)
             else (k, r))"

definition readWord :: "token list \<Rightarrow> nat \<Rightarrow> nat \<Rightarrow> reading \<Rightarrow> nat \<times> reading" where
  "readWord toks k pre r =
     (let (digits, at, used) = wordNumber toks k pre
      in if digits \<noteq> [] then (k + used, addRun \<lparr>ruSeason = [], ruNums = [digits], ruAt = at, ruForm = byWord\<rparr> r)
         else (k, r))"

definition readNumber :: "token list \<Rightarrow> nat \<Rightarrow> string \<Rightarrow> bool \<Rightarrow> reading \<Rightarrow> nat \<times> reading" where
  "readNumber toks k low anchored r =
     (let t = toks ! k; nums = eNumbers (ttext t)
      in if nums \<noteq> [] then (k, addRun \<lparr>ruSeason = [], ruNums = nums, ruAt = tat t, ruForm = byE\<rparr> r)
         else if hasPre low ''episode'' then readWord toks k (length ''episode'') r
         else if hasPre low ''ep'' then readWord toks k (length ''ep'') r
         else readDigits toks k anchored r)"

text \<open>Whether the token extends the last run, and the reading then.\<close>

definition extend :: "token \<Rightarrow> reading \<Rightarrow> reading option" where
  "extend t r =
     (let u = last (runs r);
          (nums, e) = (case number (ttext t) of
              Some digits \<Rightarrow> ([digits], False)
            | None \<Rightarrow>
                if ruForm u = byMarker \<or> ruForm u = byE then (eNumbers (ttext t), True)
                else if ruForm u = byWord \<and> hasPre (lowText (ttext t)) ''ep'' then
                  (case number (drop 2 (ttext t)) of Some digits \<Rightarrow> ([digits], False) | None \<Rightarrow> ([], False))
                else ([], False))
      in if nums = [] \<or> \<not> joinsRange (tbefore t) e (tinside t) then None
         else Some (r\<lparr>runs := butlast (runs r) @ [u\<lparr>ruNums := ruNums u @ nums\<rparr>]\<rparr>))"

text \<open>The \<^verbatim>\<open>switch\<close> of \<open>read\<close> on the token at \<open>k\<close>.\<close>

definition readToken :: "token list \<Rightarrow> nat \<Rightarrow> int \<Rightarrow> reading \<Rightarrow> nat \<times> int \<times> reading" where
  "readToken toks k rangeAt r =
     (let t = toks ! k; s = ttext t; low = lowText s
      in if markersFrom s 0 \<noteq> [] then (k, rangeAt, readMarkers t r)
         else if cross s \<noteq> [] then
           (let x = cross s; season = take (length s - length x - 1) s
            in (k, rangeAt,
              addRun \<lparr>ruSeason = season, ruNums = [x], ruAt = tat t + length season + 1, ruForm = byMarker\<rparr>
                (r\<lparr>shapes := shapes r @ [\<lparr>shSeason = season, shEpisode = x, shAt = tat t, shCross = True\<rparr>]\<rparr>)))
         else if low ! 0 = CHR ''s'' \<and> 1 < length low \<and> digitEnd low 1 = length low then readSeason toks k r
         else if hasPre low ''season'' then readSeasonWord toks k r
         else if tinside t \<and> crc s then (k, rangeAt, r)
         else (case readNumber toks k low (int k = rangeAt \<or> tleads t) r of (k', r') \<Rightarrow> (k', rangeAt, r')))"

lemma skipJoined_ge: "k \<le> skipJoined toks k"
proof (induction toks k rule: skipJoined.induct)
  case (1 toks k)
  then show ?case by (subst skipJoined.simps) auto
qed

lemma readToken_ge: "readToken toks k rangeAt r = (k', a, r') \<Longrightarrow> k \<le> k'"
  using skipJoined_ge [of k toks]
  by (auto simp: readToken_def readSeason_def readSeasonWord_def readNumber_def readWord_def readDigits_def Let_def
      split: if_splits prod.splits option.splits)

text \<open>The loop: \<open>opn\<close> when the token before added or extended a run.\<close>

function readLoop :: "token list \<Rightarrow> nat \<Rightarrow> bool \<Rightarrow> int \<Rightarrow> reading \<Rightarrow> reading" where
  "readLoop toks k opn rangeAt r =
     (if k < length toks then
        (case (if opn then extend (toks ! k) r else None) of
           Some r' \<Rightarrow> readLoop toks (k + 1) opn rangeAt r'
         | None \<Rightarrow>
             (case readToken toks k rangeAt r of
                (k', rangeAt', r') \<Rightarrow> readLoop toks (k' + 1) (length (runs r) < length (runs r')) rangeAt' r'))
      else r)"
  by pat_completeness auto
termination
proof (relation "measure (\<lambda>(toks, k, _). length toks - k)", goal_cases)
  case (2 toks k opn rangeAt r k' y rangeAt' r')
  have "k \<le> k'" by (rule readToken_ge [of toks k rangeAt r k' rangeAt' r']) (use 2 in simp)
  then show ?case using 2 by simp
qed auto

declare readLoop.simps [simp del]

definition noReading :: reading where "noReading = \<lparr>shapes = [], runs = [], stated = []\<rparr>"

definition readName :: "string \<Rightarrow> reading" where
  "readName name = readLoop (tokenize name) 0 False (-1) noReading"

subsection \<open>The views\<close>

definition markers :: "reading \<Rightarrow> Marker list" where
  "markers r =
     concat (map (\<lambda>s. case (atoi (shSeason s), atoi (shEpisode s)) of
         (Some n, Some e) \<Rightarrow> [\<lparr>mkSeason = n, mkEpisode = e\<rparr>] | _ \<Rightarrow> []) (shapes r))"

definition seasonStatement :: "reading \<Rightarrow> statement option" where
  "seasonStatement r =
     (case find (\<lambda>st. stWord st = False) (stated r) of Some st \<Rightarrow> Some st | None \<Rightarrow> find (\<lambda>st. stWord st = True) (stated r))"

definition afterSeason :: "reading \<Rightarrow> epRun \<Rightarrow> bool" where
  "afterSeason r u \<longleftrightarrow> 0 < length (stated r) \<and> stEnd (stated r ! 0) \<le> ruAt u"

fun lastStated :: "nat \<Rightarrow> statement list \<Rightarrow> string \<Rightarrow> string" where
  "lastStated at [] digits = digits"
| "lastStated at (st # sts) digits = (if at < stEnd st then digits else lastStated at sts (stDigits st))"

definition seasonOf :: "reading \<Rightarrow> epRun \<Rightarrow> int option" where
  "seasonOf r u =
     (let digits = (if ruSeason u = [] then lastStated (ruAt u) (stated r) [] else ruSeason u)
      in if digits = [] then None else atoi digits)"

definition readsAlone :: "epRun \<Rightarrow> bool" where
  "readsAlone u \<longleftrightarrow> ruForm u = byMarker \<or> ruForm u = byWord \<or> 2 \<le> length (ruNums u ! 0)"

fun spanLoop :: "string list \<Rightarrow> int \<Rightarrow> int option" where
  "spanLoop [] prev = Some prev"
| "spanLoop (d # ds) prev =
     (case atoi d of None \<Rightarrow> None | Some n \<Rightarrow> if n < prev then None else spanLoop ds n)"

text \<open>A range's first and last episode, and whether it is one; the numbers that do not read answer no range.\<close>

definition spanOf :: "epRun \<Rightarrow> int \<times> int \<times> bool" where
  "spanOf u =
     (if length (ruNums u) < 2 then (0, 0, False)
      else case spanLoop (ruNums u) (-1) of None \<Rightarrow> (0, 0, False)
        | Some prev \<Rightarrow> (case atoi (ruNums u ! 0) of Some n \<Rightarrow> n | None \<Rightarrow> 2 ^ 63 - 1, prev, prev \<le> maxRangeEpisode))"

definition states :: "epRun \<Rightarrow> bool" where
  "states u \<longleftrightarrow>
     (if length (ruNums u) = 1 then ruForm u \<noteq> bySpace \<and> readsAlone u
      else if lettered (ruForm u) then True
      else snd (snd (spanOf u)) \<and> readsAlone u)"

definition episodes :: "epRun \<Rightarrow> (int \<times> int) option" where
  "episodes u =
     (case spanOf u of (first, fin, ok) \<Rightarrow>
        if ok \<and> fin - first \<le> maxRangeSpan then Some (first, fin)
        else map_option (\<lambda>n. (n, n)) (atoi (ruNums u ! 0)))"

definition FindMarkers :: "string \<Rightarrow> Marker list" where
  "FindMarkers name = markers (readName name)"

text \<open>\<^verbatim>\<open>for ep := first; ep <= last; ep++\<close>: the counter is a word, and a loop that does not end is \<open>None\<close>.\<close>

definition claimLoop :: "int \<Rightarrow> int \<Rightarrow> int \<Rightarrow> Marker list \<Rightarrow> Marker list option" where
  "claimLoop season first fin claims =
     map_option snd
       (while_option (\<lambda>(ep, out). sint ep \<le> fin) (\<lambda>(ep, out). (ep + 1, out @ [\<lparr>mkSeason = season, mkEpisode = sint ep\<rparr>]))
         (word_of_int first :: 64 word, claims))"

definition claimRun :: "reading \<Rightarrow> epRun \<Rightarrow> Marker list \<Rightarrow> Marker list option" where
  "claimRun r u claims =
     (if (shapes r \<noteq> [] \<and> (length (ruNums u) = 1 \<or> \<not> lettered (ruForm u))) \<or> \<not> states u then Some claims
      else case (seasonOf r u, episodes u) of
             (Some season, Some (first, fin)) \<Rightarrow> claimLoop season first fin claims
           | _ \<Rightarrow> Some claims)"

fun claimRuns :: "reading \<Rightarrow> epRun list \<Rightarrow> Marker list \<Rightarrow> Marker list option" where
  "claimRuns r [] claims = Some claims"
| "claimRuns r (u # us) claims = (case claimRun r u claims of None \<Rightarrow> None | Some c \<Rightarrow> claimRuns r us c)"

text \<open>\<^verbatim>\<open>slices.SortFunc\<close> on the season and the episode, and \<^verbatim>\<open>slices.Compact\<close>.\<close>

definition Claims :: "string \<Rightarrow> Marker list option" where
  "Claims name =
     (let r = readName name
      in map_option (\<lambda>c. remdups_adj (sort_key (\<lambda>m. (mkSeason m, mkEpisode m)) c)) (claimRuns r (runs r) (markers r)))"

definition FirstIndex :: "string \<Rightarrow> int" where
  "FirstIndex name = (let r = readName name in if shapes r \<noteq> [] then int (shAt (shapes r ! 0)) else -1)"

definition Present :: "string \<Rightarrow> bool" where
  "Present name \<longleftrightarrow> 0 \<le> FirstIndex name"

definition Season :: "string \<Rightarrow> int option" where
  "Season name =
     (let r = readName name
      in case seasonStatement r of
           Some st \<Rightarrow> atoi (stDigits st)
         | None \<Rightarrow> (case find shCross (shapes r) of Some s \<Rightarrow> atoi (shSeason s) | None \<Rightarrow> None))"

definition StatesEpisode :: "string \<Rightarrow> bool" where
  "StatesEpisode name \<longleftrightarrow>
     (let r = readName name
      in shapes r \<noteq> [] \<or> list_ex (\<lambda>u. states u \<and> (lettered (ruForm u) \<or> afterSeason r u)) (runs r))"

text \<open>The loop of \<open>Absolute\<close> over the runs: the last number after a dash, the first spelled out, the first spaced.\<close>

definition absoluteRun :: "epRun \<Rightarrow> string \<times> string \<times> string \<Rightarrow> string \<times> string \<times> string" where
  "absoluteRun u s =
     (case s of (dash, word, spaced) \<Rightarrow>
        if length (ruNums u) \<noteq> 1 \<or> \<not> readsAlone u then s
        else case ruForm u of
            byDash \<Rightarrow> (ruNums u ! 0, word, spaced)
          | byE \<Rightarrow> (dash, if word \<noteq> [] then word else ruNums u ! 0, spaced)
          | byWord \<Rightarrow> (dash, if word \<noteq> [] then word else ruNums u ! 0, spaced)
          | bySpace \<Rightarrow> (dash, word, if spaced \<noteq> [] then spaced else ruNums u ! 0)
          | _ \<Rightarrow> s)"

definition Absolute :: "string \<Rightarrow> int option" where
  "Absolute name =
     (let r = readName name
      in if shapes r \<noteq> [] then None
         else case fold absoluteRun (runs r) ([], [], []) of
                (dash, word, spaced) \<Rightarrow>
                  (let digits = (if dash \<noteq> [] then dash else if word \<noteq> [] then word else spaced)
                   in if digits = [] then None else atoi digits))"

text \<open>These call \<open>Claims\<close>, so they answer \<open>None\<close> where it does not return.\<close>

definition BareEpisode :: "string \<Rightarrow> int option option" where
  "BareEpisode name =
     (let e = digitEnd name 0
      in if e = 0 \<or> 3 < e \<or> e = length name \<or> name ! e \<notin> set '' ._-'' then Some None
         else map_option (\<lambda>c. if c \<noteq> [] then None else atoi (take e name)) (Claims name))"

definition Matches :: "Target \<Rightarrow> string \<Rightarrow> bool option" where
  "Matches t name = (if \<not> fixed t then Some True else map_option (\<lambda>c. want t \<in> set c) (Claims name))"

definition MatchesBareEpisode :: "Target \<Rightarrow> string \<Rightarrow> bool option" where
  "MatchesBareEpisode t name =
     (if \<not> fixed t then Some False
      else map_option (\<lambda>e. e = Some (mkEpisode (want t))) (BareEpisode name))"

subsection \<open>What Claims answers\<close>

abbreviation maxInt :: int where "maxInt \<equiv> 9223372036854775807"

lemma atoi_range: "atoi s = Some n \<Longrightarrow> 0 \<le> n \<and> n \<le> maxInt"
  by (auto simp: atoi_def split: if_splits)

text \<open>A claim's run is a range of at most \<open>maxRangeSpan\<close> episodes, or one number.\<close>

lemma episodes_range:
  assumes "episodes u = Some (a, b)"
  shows "(a = b \<and> 0 \<le> a \<and> a \<le> maxInt) \<or> (b \<le> maxRangeEpisode \<and> b - a \<le> maxRangeSpan \<and> 0 \<le> a \<and> a \<le> maxInt)"
proof -
  obtain x y ok where s: "spanOf u = (x, y, ok)" by (metis prod.exhaust)
  show ?thesis
  proof (cases "ok \<and> y - x \<le> maxRangeSpan")
    case True
    then have "a = x" "b = y" using assms by (simp_all add: episodes_def s)
    moreover have "y \<le> maxRangeEpisode \<and> 0 \<le> x \<and> x \<le> maxInt"
      using s True atoi_range by (auto simp: spanOf_def split: if_splits option.splits)
    ultimately show ?thesis using True by simp
  next
    case False
    then show ?thesis using assms atoi_range by (auto simp: episodes_def s split: if_splits)
  qed
qed

definition claimState :: "int \<Rightarrow> 64 word \<times> Marker list \<Rightarrow> 64 word \<times> Marker list" where
  "claimState season = (\<lambda>(ep, out). (ep + 1, out @ [\<lparr>mkSeason = season, mkEpisode = sint ep\<rparr>]))"

lemma claimLoop_state: "claimLoop season a b c =
  map_option snd (while_option (\<lambda>s. sint (fst s) \<le> b) (claimState season) (word_of_int a, c))"
proof -
  have "(\<lambda>(ep, out :: Marker list). sint (ep :: 64 word) \<le> b) = (\<lambda>s. sint (fst s) \<le> b)" by auto
  then show ?thesis by (simp add: claimLoop_def claimState_def)
qed

lemma sint_small: "0 \<le> a \<Longrightarrow> a \<le> maxInt \<Longrightarrow> sint (word_of_int a :: 64 word) = a"
  by (simp add: signed_of_int signed_take_bit_int_eq_self)

lemma claimLoop_step:
  "0 \<le> a \<Longrightarrow> a \<le> maxInt \<Longrightarrow> claimLoop season a b c =
     (if a \<le> b then claimLoop season (a + 1) b (c @ [\<lparr>mkSeason = season, mkEpisode = a\<rparr>]) else Some c)"
  by (simp add: claimLoop_state while_option_unfold [of _ _ "(word_of_int a, c)"] sint_small claimState_def)

lemma claimLoop_returns:
  "0 \<le> a \<Longrightarrow> a \<le> maxInt \<Longrightarrow> b < maxInt \<Longrightarrow>
     claimLoop season a b c = Some (c @ map (\<lambda>e. \<lparr>mkSeason = season, mkEpisode = e\<rparr>) [a..b])"
proof (induction "nat (b + 1 - a)" arbitrary: a c)
  case 0
  then show ?case by (simp add: claimLoop_step)
next
  case (Suc n)
  then have "a \<le> b" "n = nat (b + 1 - (a + 1))" "a + 1 \<le> maxInt" by simp_all
  then show ?case using Suc.hyps(1) [of "a + 1" "c @ [\<lparr>mkSeason = season, mkEpisode = a\<rparr>]"] Suc.prems
    by (simp add: claimLoop_step [of a] upto_rec1)
qed

text \<open>With the last episode the largest \<^verbatim>\<open>int\<close> the condition never fails: the counter wraps below it.\<close>

lemma claimLoop_endless: "claimLoop season a maxInt c = None"
proof -
  have "sint (w :: 64 word) \<le> maxInt" for w using sint_less [of w] by simp
  then show ?thesis by (simp add: claimLoop_state while_option_def)
qed

text \<open>The runs \<open>Claims\<close> expands, with the season and the episodes of each.\<close>

definition claimed :: "reading \<Rightarrow> epRun \<Rightarrow> (int \<times> int \<times> int) option" where
  "claimed r u =
     (if (shapes r \<noteq> [] \<and> (length (ruNums u) = 1 \<or> \<not> lettered (ruForm u))) \<or> \<not> states u then None
      else case (seasonOf r u, episodes u) of (Some season, Some (a, b)) \<Rightarrow> Some (season, a, b) | _ \<Rightarrow> None)"

definition endless :: "reading \<Rightarrow> epRun \<Rightarrow> bool" where
  "endless r u \<longleftrightarrow> (\<exists>season. claimed r u = Some (season, maxInt, maxInt))"

lemma claimRun_claimed:
  "claimRun r u c = (case claimed r u of None \<Rightarrow> Some c | Some (season, a, b) \<Rightarrow>
     if endless r u then None else Some (c @ map (\<lambda>e. \<lparr>mkSeason = season, mkEpisode = e\<rparr>) [a..b]))"
proof (cases "claimed r u")
  case None
  then show ?thesis by (auto simp: claimRun_def claimed_def split: option.splits)
next
  case (Some x)
  obtain season a b where x: "x = (season, a, b)" by (metis prod.exhaust)
  have c: "claimRun r u c = claimLoop season a b c" and e: "episodes u = Some (a, b)"
    using Some x by (auto simp: claimRun_def claimed_def split: option.splits if_splits)
  note er = episodes_range [OF e]
  show ?thesis
  proof (cases "b = maxInt")
    case True
    then have "a = maxInt" using er by (auto simp: maxRangeEpisode_def)
    then show ?thesis using c True Some x claimLoop_endless by (simp add: endless_def)
  next
    case False
    then have "0 \<le> a" "a \<le> maxInt" "b < maxInt" using er by (auto simp: maxRangeEpisode_def)
    moreover have "\<not> endless r u" using False Some x by (simp add: endless_def)
    ultimately show ?thesis using c Some x claimLoop_returns [of a b season c] by simp
  qed
qed

lemma claimRuns_claimed:
  "claimRuns r us c = (if \<exists>u \<in> set us. endless r u then None
     else Some (c @ concat (map (\<lambda>u. case claimed r u of None \<Rightarrow> []
        | Some (season, a, b) \<Rightarrow> map (\<lambda>e. \<lparr>mkSeason = season, mkEpisode = e\<rparr>) [a..b]) us)))"
proof (induction us arbitrary: c)
  case (Cons u us)
  show ?case
  proof (cases "endless r u")
    case True
    then obtain season where "claimed r u = Some (season, maxInt, maxInt)" by (auto simp: endless_def)
    then show ?thesis using True by (simp add: claimRun_claimed)
  next
    case False
    then show ?thesis using Cons by (auto simp: claimRun_claimed split: option.splits)
  qed
qed simp

definition claimKey :: "Marker \<Rightarrow> int \<times> int" where
  "claimKey m = (mkSeason m, mkEpisode m)"

lemma claimKey_inj: "claimKey a = claimKey b \<longleftrightarrow> a = b"
  by (cases a; cases b) (simp add: claimKey_def)

lemma sorted_remdups_strict: "sorted xs \<Longrightarrow> sorted_wrt (<) (remdups_adj xs)" for xs :: "'a :: linorder list"
proof (induction xs rule: remdups_adj.induct)
  case (3 x y xs)
  then show ?case by (cases "x = y") (auto simp: less_le)
qed simp_all

lemma sorted_claims: "sorted_wrt (\<lambda>a b. claimKey a < claimKey b) (remdups_adj (sort_key claimKey c))"
proof -
  have "map claimKey (remdups_adj (sort_key claimKey c)) = remdups_adj (map claimKey (sort_key claimKey c))"
    by (rule remdups_adj_map_injective [symmetric]) (simp add: inj_def claimKey_inj)
  moreover have "sorted_wrt (<) (remdups_adj (map claimKey (sort_key claimKey c)))"
    by (rule sorted_remdups_strict) simp
  ultimately have "sorted_wrt (<) (map claimKey (remdups_adj (sort_key claimKey c)))" by simp
  then show ?thesis by (simp add: sorted_wrt_map)
qed

text \<open>Only a marker's run carries a season of its own.\<close>

definition seasonInv :: "reading \<Rightarrow> bool" where
  "seasonInv r \<longleftrightarrow> shapes r \<noteq> [] \<or> list_all (\<lambda>u. ruSeason u = []) (runs r)"

lemma seasonInv_addRun [preserved]: "seasonInv r \<Longrightarrow> ruSeason u = [] \<or> shapes r \<noteq> [] \<Longrightarrow> seasonInv (addRun u r)"
  by (auto simp: seasonInv_def addRun_def)

lemma seasonInv_stated [simp]: "seasonInv (r\<lparr>stated := sts\<rparr>) = seasonInv r"
  by (simp add: seasonInv_def)

lemma seasonInv_shaped: "shapes r \<noteq> [] \<Longrightarrow> seasonInv r"
  by (simp add: seasonInv_def)

lemma addRun_shapes [simp]: "shapes (addRun u r) = shapes r"
  by (simp add: addRun_def)

lemma seasonInv_extend [preserved]: "seasonInv r \<Longrightarrow> runs r \<noteq> [] \<Longrightarrow> extend t r = Some r' \<Longrightarrow> seasonInv r'"
proof -
  assume r: "seasonInv r" "runs r \<noteq> []" and x: "extend t r = Some r'"
  obtain nums where r': "r' = r\<lparr>runs := butlast (runs r) @ [last (runs r)\<lparr>ruNums := nums\<rparr>]\<rparr>"
    using x by (auto simp: extend_def Let_def split: prod.splits if_splits)
  obtain us u where us: "runs r = us @ [u]" using r(2) by (cases "runs r" rule: rev_cases) simp_all
  show ?thesis using r(1) by (simp add: r' seasonInv_def us)
qed

lemma seasonInv_digits: "seasonInv r \<Longrightarrow> readDigits toks k a r = (k', r') \<Longrightarrow> seasonInv r'"
  by (auto simp: readDigits_def Let_def seasonInv_addRun split: option.splits if_splits)

lemma seasonInv_word: "seasonInv r \<Longrightarrow> readWord toks k n r = (k', r') \<Longrightarrow> seasonInv r'"
  by (auto simp: readWord_def Let_def seasonInv_addRun split: prod.splits if_splits)

lemma seasonInv_number: "seasonInv r \<Longrightarrow> readNumber toks k low a r = (k', r') \<Longrightarrow> seasonInv r'"
  by (auto simp: readNumber_def Let_def seasonInv_addRun dest: seasonInv_digits seasonInv_word split: if_splits)

lemma seasonInv_season: "seasonInv r \<Longrightarrow> readSeason toks k r = (k', a, r') \<Longrightarrow> seasonInv r'"
  by (auto simp: readSeason_def Let_def seasonInv_shaped split: if_splits)

lemma seasonInv_seasonWord: "seasonInv r \<Longrightarrow> readSeasonWord toks k r = (k', a, r') \<Longrightarrow> seasonInv r'"
  by (auto simp: readSeasonWord_def Let_def split: prod.splits if_splits)

lemma seasonInv_markers: "markersFrom (ttext t) 0 \<noteq> [] \<Longrightarrow> seasonInv (readMarkers t r)"
  by (rule seasonInv_shaped) (simp add: readMarkers_def Let_def split: prod.splits)

lemma seasonInv_token [preserved]:
  assumes "seasonInv r" "readToken toks k x r = (k', a, r')" shows "seasonInv r'"
  using assms seasonInv_number [of r toks k]
  by (auto simp: readToken_def Let_def seasonInv_markers seasonInv_shaped dest: seasonInv_season seasonInv_seasonWord
      split: if_splits prod.splits)

lemma seasonInv_loop: "seasonInv r \<Longrightarrow> (opn \<longrightarrow> runs r \<noteq> []) \<Longrightarrow> seasonInv (readLoop toks k opn x r)"
proof (induction toks k opn x r rule: readLoop.induct)
  case (1 toks k opn x r)
  show ?case
  proof (cases "k < length toks")
    case False
    then show ?thesis using "1.prems" by (simp add: readLoop.simps [of toks k])
  next
    case True
    show ?thesis
    proof (cases "if opn then extend (toks ! k) r else None")
      case (Some r')
      then have e: "opn" "extend (toks ! k) r = Some r'" by (auto split: if_splits)
      then have "runs r' \<noteq> []" by (auto simp: extend_def Let_def split: prod.splits if_splits)
      then show ?thesis using "1.IH"(2) [OF True Some] seasonInv_extend [OF "1.prems"(1) _ e(2)] "1.prems"(2) e True
        by (simp add: readLoop.simps [of toks k])
    next
      case None
      obtain k' a r' where t: "readToken toks k x r = (k', a, r')" by (metis prod.exhaust)
      have "seasonInv (readLoop toks (k' + 1) (length (runs r) < length (runs r')) a r')"
        by (rule "1.IH"(1) [OF True None t [symmetric] refl]) (use seasonInv_token [OF "1.prems"(1) t] in auto)
      then show ?thesis using True None t by (simp add: readLoop.simps [of toks k])
    qed
  qed
qed

lemma lastStated_after: "lastStated at sts [] \<noteq> [] \<Longrightarrow> sts \<noteq> [] \<and> stEnd (sts ! 0) \<le> at"
  by (cases sts) (auto split: if_splits)

text \<open>A run \<open>Claims\<close> expands states an episode to \<open>StatesEpisode\<close> too.\<close>

lemma claimed_states:
  assumes c: "claimed (readName name) u = Some x" and u: "u \<in> set (runs (readName name))"
  shows "StatesEpisode name"
proof (cases "shapes (readName name) = []")
  case True
  have "seasonInv (readName name)" unfolding readName_def by (rule seasonInv_loop) (simp_all add: seasonInv_def noReading_def)
  then have s: "ruSeason u = []" using True u by (simp add: seasonInv_def list_all_iff)
  have "states u" "seasonOf (readName name) u \<noteq> None" using c by (auto simp: claimed_def split: if_splits option.splits)
  then have "lastStated (ruAt u) (stated (readName name)) [] \<noteq> []" using s by (auto simp: seasonOf_def Let_def split: if_splits)
  then have "afterSeason (readName name) u" using lastStated_after by (auto simp: afterSeason_def)
  then show ?thesis using u \<open>states u\<close> by (auto simp: StatesEpisode_def Let_def list_ex_iff)
qed (simp add: StatesEpisode_def)

lemma endless_reading: "readName ''Season 1 E9223372036854775807'' =
  \<lparr>shapes = [], runs = [\<lparr>ruSeason = [], ruNums = [''9223372036854775807''], ruAt = 9, ruForm = byE\<rparr>],
   stated = [\<lparr>stDigits = ''1'', stEnd = 8, stWord = True\<rparr>]\<rparr>"
  by code_simp

lemma Claims_endless: "Claims ''Season 1 E9223372036854775807'' = None"
proof -
  have a: "atoi ''9223372036854775807'' = Some maxInt" "atoi ''1'' = Some 1"
    by (simp_all add: atoi_def undec_def digit_val_def isDigit_of_char)
  have "endless (readName ''Season 1 E9223372036854775807'')
      \<lparr>ruSeason = [], ruNums = [''9223372036854775807''], ruAt = 9, ruForm = byE\<rparr>"
    by (simp add: endless_reading endless_def claimed_def states_def readsAlone_def seasonOf_def episodes_def spanOf_def a)
  then show ?thesis by (simp add: Claims_def Let_def claimRuns_claimed endless_reading)
qed

text \<open>C39. What \<open>Claims\<close> answers, and when it answers: it returns unless a run it expands is the single episode
  \<open>9223372036854775807\<close>, on which its loop never ends, since the counter wraps below it and the claims grow without
  bound, as on the name given last; its answer is the markers of the name and every episode of every run it expands, each once, in the order of
  season and episode; and a name that states no episode, as a season pack, claims none.\<close>

theorem Claims_spec:
  "(Claims name = None \<longleftrightarrow> (\<exists>u. u \<in> set (runs (readName name)) \<and> endless (readName name) u))
   \<and> (case Claims name of None \<Rightarrow> True | Some cs \<Rightarrow>
        sorted_wrt (\<lambda>a b. claimKey a < claimKey b) cs
        \<and> set cs = set (FindMarkers name) \<union> {\<lparr>mkSeason = n, mkEpisode = e\<rparr> | u n a b e.
            u \<in> set (runs (readName name)) \<and> claimed (readName name) u = Some (n, a, b) \<and> a \<le> e \<and> e \<le> b})
   \<and> (StatesEpisode name \<or> Claims name = Some [])
   \<and> Claims ''Season 1 E9223372036854775807'' = None"
proof -
  let ?r = "readName name"
  have pack: "Claims name = Some []" if "\<not> StatesEpisode name"
  proof -
    have sh: "shapes ?r = []" using that by (simp add: StatesEpisode_def Let_def)
    have n: "claimed ?r u = None" if "u \<in> set (runs ?r)" for u
      using claimed_states [OF _ that] \<open>\<not> StatesEpisode name\<close> by (cases "claimed ?r u") auto
    then have "\<not> (\<exists>u \<in> set (runs ?r). endless ?r u)" by (auto simp: endless_def)
    moreover have e: "concat (map (\<lambda>u. case claimed ?r u of None \<Rightarrow> [] | Some (season, a, b) \<Rightarrow>
        map (\<lambda>e. \<lparr>mkSeason = season, mkEpisode = e\<rparr>) [a..b]) (runs ?r)) = []" using n by simp
    ultimately have "claimRuns ?r (runs ?r) [] = Some []" by (simp only: claimRuns_claimed e if_False append_Nil)
    then show ?thesis using sh by (simp add: Claims_def Let_def markers_def)
  qed
  have k: "(\<lambda>m. (mkSeason m, mkEpisode m)) = claimKey" by (simp add: claimKey_def fun_eq_iff)
  show ?thesis
  proof (cases "\<exists>u \<in> set (runs ?r). endless ?r u")
    case True
    then show ?thesis using pack Claims_endless by (auto simp: Claims_def claimRuns_claimed Let_def)
  next
    case False
    let ?c = "markers ?r @ concat (map (\<lambda>u. case claimed ?r u of None \<Rightarrow> []
        | Some (season, a, b) \<Rightarrow> map (\<lambda>e. \<lparr>mkSeason = season, mkEpisode = e\<rparr>) [a..b]) (runs ?r))"
    have c: "Claims name = Some (remdups_adj (sort_key claimKey ?c))"
      using False by (simp add: Claims_def claimRuns_claimed Let_def k)
    have "set ?c = set (FindMarkers name) \<union> {\<lparr>mkSeason = n, mkEpisode = e\<rparr> | u n a b e.
            u \<in> set (runs ?r) \<and> claimed ?r u = Some (n, a, b) \<and> a \<le> e \<and> e \<le> b}"
      by (force simp: FindMarkers_def split: option.splits)
    then show ?thesis using False sorted_claims [of ?c] pack Claims_endless by (auto simp: c)
  qed
qed

text \<open>\<open>Season\<close>'s comment says it never contradicts \<open>Find\<close>; with a season statement before a marker's own it does.\<close>

theorem Season_not_Find:
  "Season ''S03 S01E02'' = Some 3 \<and> FindMarkers ''S03 S01E02'' = [\<lparr>mkSeason = 1, mkEpisode = 2\<rparr>]"
proof -
  have r: "readName ''S03 S01E02'' = \<lparr>shapes = [\<lparr>shSeason = ''01'', shEpisode = ''02'', shAt = 4, shCross = False\<rparr>],
      runs = [\<lparr>ruSeason = ''01'', ruNums = [''02''], ruAt = 8, ruForm = byMarker\<rparr>],
      stated = [\<lparr>stDigits = ''03'', stEnd = 3, stWord = False\<rparr>, \<lparr>stDigits = ''01'', stEnd = 7, stWord = False\<rparr>]\<rparr>"
    by code_simp
  show ?thesis
    by (simp add: Season_def FindMarkers_def Let_def r seasonStatement_def markers_def atoi_def undec_def digit_val_def isDigit_of_char)
qed

end
