(* ===== verification/Spec2Isabelle.thy ===== *)
theory Spec2Isabelle
  imports MediaKey CuesDoc Rank RenderVTT NetregexProps JobRun WorkQueue EpMarker
begin

text \<open>
  subflux finds, times and stores subtitles for a library of movies and episodes. This development models the parts
  that compute or keep state by themselves, read from their Go source under src/internal, and proves what their
  comments promise and what the code does beyond that. Every definition has its source lines in the manifest.

  \<^bold>\<open>The parts and how they meet.\<close> An item is a key (media). A release or archive member name is read for its season and
  episode (epmarker) and matched against patterns (release/netregex); what two names say is compared and graded (rank).
  A subtitle file is parsed into cues with the byte spans of their stamps and text (timing), cleaned of annotations
  (timing, striphi and clean), moved in time by rewriting only its stamps (timing, render), and previewed as WebVTT
  (timing, rendervtt). Work on it is queued and its keys are stored by statedb; long jobs and alerts are kept by
  status, which stores its job records through statedb.

  \<^bold>\<open>Theories and code.\<close>
  \<^item> \<open>Prelude\<close>: decimal text, prefixes, splitting, big-endian integers, and the collections \<open>decimal\<close>, \<open>codec\<close> and
    \<open>preserved\<close>. \<open>Names\<close>: the locale \<open>name_table\<close> of an enum's text codec; \<open>F64\<close>: Go's float64, rounded to nearest even;
    \<open>Utf8\<close>: rune decoding; \<open>BoltTable\<close>: the tables of the bolttable library as a record of operations with laws.
  \<^item> media: \<open>MediaKey\<close> (key.go, choose.go: keys, their text and bytes, the choice from external ids), \<open>Texts\<close> (text.go,
    source.go, and the name tables of timing and rank).
  \<^item> timing: \<open>Timing\<close> (timing.go, validate.go), \<open>TimingCodec\<close> (codec.go), \<open>Cues\<close> (cues.go: lines and stamps), \<open>ParseSRT\<close>,
    \<open>ParseASS\<close>, \<open>ParseVTT\<close> (the parsers, each a record of parser state and one step per line), \<open>Render\<close> (render.go),
    \<open>CuesDoc\<close> (cuecodec.go, and whole documents), \<open>StripHI\<close>, \<open>StripHIFacts\<close>, \<open>StripHISpec\<close>, \<open>StripHILines\<close> (striphi.go: the
    scan, what it computes, its rules stated on their own, its lines), \<open>Clean\<close>, \<open>CleanFacts\<close> (clean.go), \<open>RenderVTT\<close>
    (rendervtt.go).
  \<^item> rank and release: \<open>Release\<close> (release.go, cut.go), \<open>Rank\<close> (rank.go, cut.go, rate.go).
  \<^item> release/netregex: \<open>Netregex\<close> (exec.go: the queue, \<open>add\<close>, \<open>step\<close>, the loop), \<open>NetregexFacts\<close>, \<open>NetregexRun\<close>, \<open>NetregexEnds\<close>,
    \<open>NetregexFind\<close> (its invariants against the program read as an automaton), \<open>NetregexApi\<close> (netregex.go: the compiled
    pattern, lookarounds, searches), \<open>NetregexSpec\<close>, \<open>NetregexProps\<close> (what they return).
  \<^item> epmarker: \<open>EpMarker\<close> (epmarker.go: \<open>tokenize\<close>, \<open>readName\<close>, which is Go's read, and the views; FindMarkers is its Find).
  \<^item> status: \<open>StatusAlerts\<close> (sources.go, alerts.go), \<open>StatusStore\<close> (jobs.go, persist.go, retention.go, snapshot.go), \<open>StatusRun\<close>
    (the contract of the Persister interface, as the locale \<open>job_persister\<close>, and the step relation \<open>sysStep\<close> in which
    calls, writes and crashes interleave).
  \<^item> statedb: \<open>StateKeys\<close> (keys.go, codecs.go, ids.go; the locale \<open>component\<close> of a prefix-free key part), \<open>JobTable\<close> (jobs.go
    and its rows and index entries), \<open>JobRun\<close> (that it keeps the Persister's contract, and the runs of both together),
    \<open>WorkQueue\<close> (work.go).

  \<^bold>\<open>What the lemmas show.\<close> Codecs: exactly the canonical text or bytes of a valid value are accepted and read back as it
  (keys, timings, documents, enum texts, the store's composite keys, with their prefix scans). Parsers: the events of a
  document are its timing lines and their spans tile it. Rendering equals a specification by blocks, never slices out of
  range on an ordered document, and moves times exactly or within a stated error. Stripping is a fixed point, leaves no
  match of a rule, and is linear in its own counter. The matcher finds the leftmost match, all of them in order, in a
  bounded number of insertions. Alerts are levels of their sources' histories. A job that ended is never unfinished
  again, over every interleaving of calls, failed writes and crashes; a retry turn whose writes succeed stores the ends
  that are not yet stored; the job table keeps its bounds and an insert gives up the oldest ended record. No enqueue of
  work is lost to an older acknowledgement. A name's claims are its markers and the episodes of its ranges.

  \<^bold>\<open>How Go is modelled.\<close> Bytes and runes are characters and numbers, a word has its width where it can wrap; errors are
  sums or options without their message; a panic is a value (\<open>Panic\<close>); state is passed and returned. A Go map is an
  association list or a function. Loops are recursive functions with a measure. Three take fuel or may not return: the
  lookup of closures in \<open>add\<close> has as much fuel as the program has instructions and one more, and every call enters a new
  instruction; \<open>findAll\<close> has the length of the text and two, and \<open>FindAll_terminates\<close> shows more changes nothing; the
  loop of \<open>Claims\<close> is \<open>while_option\<close> on words, and \<open>Claims_spec\<close> says exactly when it does not return.

  \<^bold>\<open>Hypotheses on code that is not here.\<close> \<open>tableLaws\<close>: the documented behaviour of a bolttable table, which \<open>listTable\<close> has.
  Encodings (golang.org/x/text) and encoding detection: functions, with nothing assumed of them. The prefilter of a
  pattern: complete, as its comment says, where a search's answer depends on it. \<open>EqualFold\<close>: symmetric. SHA-256, printable
  runes and the cut of an alert's text: the record \<open>alertEnv\<close>. The langtag library's canonical tags: \<open>canon\<close>. The id
  sequence of a table: \<open>nextID\<close>. The write outcomes \<open>Commits\<close>, \<open>Fails\<close> and \<open>Lands\<close> (written, yet reported as failed) are
  the ones \<^verbatim>\<open>Store.write\<close> can meet; reads do not fail.

  \<^bold>\<open>Simplifications.\<close> Job revisions and the store's sequence are natural numbers, equal to the code's while below
  \<open>2 ^ 64\<close>. A row is a value: the JSON its codec writes is taken as exact, so the texts of a job are taken as valid UTF-8
  and as encodable. \<open>Get\<close> of a job is one step, although the code releases its lock between the live jobs and the stored
  record. Instants are nanoseconds since 1970; where an index orders them it is by their \<^verbatim>\<open>UnixNano\<close>, which wraps outside
  the years 1678 to 2262. Logging is left out.

  \<^bold>\<open>Not modelled.\<close> Reading and compiling pattern text (read.go), the generated pattern table and parsing a release with it:
  they rest on the standard library's regexp/syntax and on generated data. The Changed channel and cancel functions of
  status, for which only the sequence number and whether there is one are kept. The other tables of statedb: long
  transactions over many bolttable tables, of which the two that other parts rely on were chosen. subsync (floating
  point signal processing with heuristic scores), subtitleenc (frequency tables), language and langcode (the langtag
  library and its callers), search/release (a third-party engine), the provider, mediasource and skyhook clients,
  settings, formschema, app and the commands (network, configuration and process wiring).

  \<^bold>\<open>What modelling found.\<close> \<open>Render_swapped_panics\<close>: a document whose Format line names End before Start makes Render panic.
  \<open>Claims_endless\<close>: a name that states the episode \<open>2 ^ 63 - 1\<close> makes Claims loop for ever. \<open>Season_not_Find\<close>: Season can
  contradict Find, which its comment denies.
\<close>

end
